(* ===== verification/Prelude.thy ===== *)
theory Prelude
  imports Main "HOL-Library.Word"
begin

text \<open>
  Shared vocabulary of the development: names for the machine types of the Rust sources,
  the integer operations of the Rust standard library the engine relies on, big-endian byte
  conversion, and the generic list, option and map lemmas the component theories use.

  Conventions.
  \<^item> A fixed-width integer whose bits matter is a word.
  \<^item> An unsigned integer used as an index, a count or an instant is a \<open>nat\<close>, with the
    truncation of a cast or the saturation of an operation written out.
  \<^item> An \<open>i64\<close> is an \<open>int\<close>; \<open>as u32\<close> is \<open>as_u32\<close>.
  \<^item> An \<open>Instant\<close> and a \<open>Duration\<close> are \<open>nat\<close> counts of nanoseconds, and
    \<open>duration_since\<close> is truncating subtraction, as the standard library documents.
\<close>

section \<open>Machine types\<close>

type_synonym u8 = "8 word"
type_synonym u16 = "16 word"
type_synonym u32 = "32 word"
type_synonym u64 = "64 word"
type_synonym bytes = "8 word list"
type_synonym instant = nat
type_synonym duration = nat

abbreviation u32_max :: nat where
  "u32_max \<equiv> 4294967295"

abbreviation usize_max :: nat where
  "usize_max \<equiv> 18446744073709551615"

abbreviation i64_min :: int where
  "i64_min \<equiv> - 9223372036854775808"

abbreviation i64_max :: int where
  "i64_max \<equiv> 9223372036854775807"

section \<open>Collections of facts\<close>

named_theorems codec_simps "length and round-trip facts of the byte codecs"
named_theorems inv_intros "preservation of component invariants by the operations"

section \<open>Integer operations of the Rust standard library\<close>

definition as_u32 :: "int \<Rightarrow> nat" where
  "as_u32 x = nat (x mod 4294967296)"

text \<open>Two's-complement wrap-around of \<open>i64\<close> arithmetic, and its division, which truncates.\<close>

definition wrap_i64 :: "int \<Rightarrow> int" where
  "wrap_i64 x = (x + 9223372036854775808) mod 18446744073709551616 - 9223372036854775808"

definition div_i64 :: "int \<Rightarrow> int \<Rightarrow> int" where
  "div_i64 a b = sgn a * sgn b * (\<bar>a\<bar> div \<bar>b\<bar>)"

definition saturating_add_u32 :: "nat \<Rightarrow> nat \<Rightarrow> nat" where
  "saturating_add_u32 a b = min (a + b) u32_max"

definition div_ceil :: "nat \<Rightarrow> nat \<Rightarrow> nat" where
  "div_ceil a b = (a + b - 1) div b"

definition secs :: "nat \<Rightarrow> duration" where
  "secs n = n * 1000000000"

definition millis :: "nat \<Rightarrow> duration" where
  "millis n = n * 1000000"

definition clamp :: "'a::linorder \<Rightarrow> 'a \<Rightarrow> 'a \<Rightarrow> 'a" where
  "clamp lo hi x = (if x < lo then lo else if hi < x then hi else x)"

lemma as_u32_bound [simp]: "as_u32 x < 4294967296"
  by (simp add: as_u32_def nat_less_iff)

lemma as_u32_id: "0 \<le> x \<Longrightarrow> x < 4294967296 \<Longrightarrow> as_u32 x = nat x"
  by (simp add: as_u32_def)

lemma wrap_i64_id: "i64_min \<le> x \<Longrightarrow> x \<le> i64_max \<Longrightarrow> wrap_i64 x = x"
  by (simp add: wrap_i64_def)

lemma wrap_i64_range: "i64_min \<le> wrap_i64 x" "wrap_i64 x \<le> i64_max"
  using pos_mod_bound [of 18446744073709551616 "x + 9223372036854775808"]
    pos_mod_sign [of 18446744073709551616 "x + 9223372036854775808"]
  unfolding wrap_i64_def by linarith+

lemma div_i64_nonneg: "0 \<le> a \<Longrightarrow> 0 < b \<Longrightarrow> div_i64 a b = a div b"
  by (cases "a = 0") (simp_all add: div_i64_def)

lemma clamp_bounds:
  "lo \<le> hi \<Longrightarrow> lo \<le> clamp lo hi x"
  "lo \<le> hi \<Longrightarrow> clamp lo hi x \<le> hi"
  by (auto simp: clamp_def)

lemma clamp_id: "lo \<le> x \<Longrightarrow> x \<le> hi \<Longrightarrow> clamp lo hi x = x"
  by (auto simp: clamp_def)

lemma div_ceil_pos: "0 < b \<Longrightarrow> 0 < a \<Longrightarrow> 0 < div_ceil a b"
proof -
  assume "0 < b" and "0 < a"
  then have "b \<le> a + b - 1" by simp
  then show ?thesis
    unfolding div_ceil_def using \<open>0 < b\<close> div_greater_zero_iff by blast
qed

lemma div_ceil_lower: "0 < b \<Longrightarrow> a \<le> div_ceil a b * b"
proof -
  assume b: "0 < b"
  have "a + b - 1 = (a + b - 1) div b * b + (a + b - 1) mod b"
    by simp
  moreover have "(a + b - 1) mod b \<le> b - 1"
    using b mod_less_divisor [of b "a + b - 1"] by linarith
  ultimately have "a + b - 1 \<le> (a + b - 1) div b * b + (b - 1)"
    by linarith
  with b show ?thesis
    unfolding div_ceil_def by linarith
qed

lemma div_ceil_upper: "0 < b \<Longrightarrow> 0 < a \<Longrightarrow> (div_ceil a b - 1) * b < a"
proof -
  assume b: "0 < b" and a: "0 < a"
  have "div_ceil a b * b \<le> a + b - 1"
    by (simp add: div_ceil_def)
  then have "(div_ceil a b - 1) * b \<le> a + b - 1 - b"
    by (simp add: diff_mult_distrib)
  with a show ?thesis by linarith
qed

lemma div_ceil_0 [simp]: "0 < b \<Longrightarrow> div_ceil 0 b = 0"
  by (simp add: div_ceil_def)

lemma less_div_ceil_iff: "0 < b \<Longrightarrow> i < div_ceil a b \<longleftrightarrow> i * b < a"
proof -
  assume b: "0 < b"
  show ?thesis
  proof
    assume "i < div_ceil a b"
    then have i: "i \<le> div_ceil a b - 1" by linarith
    have a: "0 < a"
      using \<open>i < div_ceil a b\<close> b by (cases "a = 0") auto
    have "i * b \<le> (div_ceil a b - 1) * b" using i by (rule mult_le_mono1)
    also have "\<dots> < a" by (rule div_ceil_upper [OF b a])
    finally show "i * b < a" .
  next
    assume "i * b < a"
    also have "a \<le> div_ceil a b * b" using b by (rule div_ceil_lower)
    finally show "i < div_ceil a b" by simp
  qed
qed

section \<open>Big-endian bytes\<close>

text \<open>
  \<open>be_bytes n x\<close> is the \<open>n\<close>-byte big-endian form of \<open>x\<close> (what \<open>to_be_bytes\<close> and the
  \<open>put_u*\<close> methods write), \<open>be_value\<close> reads it back (\<open>from_be_bytes\<close>, \<open>get_u*\<close>).
\<close>

fun be_bytes :: "nat \<Rightarrow> nat \<Rightarrow> bytes" where
  "be_bytes 0 x = []"
| "be_bytes (Suc n) x = be_bytes n (x div 256) @ [word_of_nat x]"

definition be_value :: "bytes \<Rightarrow> nat" where
  "be_value bs = foldl (\<lambda>a b. a * 256 + unat b) 0 bs"

lemma length_be_bytes [simp, codec_simps]: "length (be_bytes n x) = n"
  by (induction n arbitrary: x) auto

lemma unat_u8_less [simp]: "unat (w :: u8) < 256"
  using unsigned_less [of w, where 'a = nat] by simp

lemma unat_u16_less [simp]: "unat (w :: u16) < 65536"
  using unsigned_less [of w, where 'a = nat] by simp

lemma unat_u32_less [simp]: "unat (w :: u32) < 4294967296"
  using unsigned_less [of w, where 'a = nat] by simp

lemma unat_u64_less [simp]: "unat (w :: u64) < 18446744073709551616"
  using unsigned_less [of w, where 'a = nat] by simp

lemma be_value_append1: "be_value (bs @ [b]) = be_value bs * 256 + unat b"
  by (simp add: be_value_def)

lemma unat_word_of_nat_u8: "unat (word_of_nat x :: u8) = x mod 256"
  by (simp add: unat_of_nat)

lemma be_value_be_bytes_mod: "be_value (be_bytes n x) = x mod 256 ^ n"
proof (induction n arbitrary: x)
  case 0
  then show ?case by (simp add: be_value_def)
next
  case (Suc n)
  have "be_value (be_bytes (Suc n) x) = (x div 256) mod 256 ^ n * 256 + x mod 256"
    by (simp add: be_value_append1 Suc unat_word_of_nat_u8)
  also have "\<dots> = x mod 256 ^ Suc n"
    by (simp add: mod_mult2_eq mult.commute)
  finally show ?case .
qed

lemma be_value_be_bytes: "x < 256 ^ n \<Longrightarrow> be_value (be_bytes n x) = x"
  by (simp add: be_value_be_bytes_mod)

lemma be_value_bound: "be_value bs < 256 ^ length bs"
proof (induction bs rule: rev_induct)
  case Nil
  then show ?case by (simp add: be_value_def)
next
  case (snoc b bs)
  have "be_value bs * 256 + unat b < (be_value bs + 1) * 256" by simp
  also have "\<dots> \<le> 256 ^ length bs * 256" using snoc by (intro mult_le_mono1) simp
  finally show ?case by (simp add: be_value_append1 mult.commute)
qed

lemma be_bytes_be_value: "be_bytes (length bs) (be_value bs) = bs"
proof (induction bs rule: rev_induct)
  case Nil
  then show ?case by simp
next
  case (snoc b bs)
  have b: "unat b < 256" by simp
  then have "(be_value bs * 256 + unat b) div 256 = be_value bs" by simp
  moreover have "word_of_nat (be_value bs * 256 + unat b) = b"
    by (rule word_unat_eq_iff [THEN iffD2]) (simp only: unat_word_of_nat_u8, use b in simp)
  ultimately show ?case
    using snoc by (simp add: be_value_append1)
qed

definition put_u16 :: "u16 \<Rightarrow> bytes" where
  "put_u16 w = be_bytes 2 (unat w)"

definition put_u32 :: "u32 \<Rightarrow> bytes" where
  "put_u32 w = be_bytes 4 (unat w)"

definition put_u64 :: "u64 \<Rightarrow> bytes" where
  "put_u64 w = be_bytes 8 (unat w)"

definition from_be_u16 :: "bytes \<Rightarrow> u16" where
  "from_be_u16 bs = word_of_nat (be_value bs)"

definition from_be_u32 :: "bytes \<Rightarrow> u32" where
  "from_be_u32 bs = word_of_nat (be_value bs)"

definition from_be_u64 :: "bytes \<Rightarrow> u64" where
  "from_be_u64 bs = word_of_nat (be_value bs)"

lemma length_put_u16 [simp, codec_simps]: "length (put_u16 w) = 2"
  by (simp add: put_u16_def)

lemma length_put_u32 [simp, codec_simps]: "length (put_u32 w) = 4"
  by (simp add: put_u32_def)

lemma length_put_u64 [simp, codec_simps]: "length (put_u64 w) = 8"
  by (simp add: put_u64_def)

lemma from_be_put_u16 [simp, codec_simps]: "from_be_u16 (put_u16 w) = w"
  by (simp add: from_be_u16_def put_u16_def be_value_be_bytes)

lemma from_be_put_u32 [simp, codec_simps]: "from_be_u32 (put_u32 w) = w"
  by (simp add: from_be_u32_def put_u32_def be_value_be_bytes)

lemma from_be_put_u64 [simp, codec_simps]: "from_be_u64 (put_u64 w) = w"
  by (simp add: from_be_u64_def put_u64_def be_value_be_bytes)

lemma put_from_be_u16: "length bs = 2 \<Longrightarrow> put_u16 (from_be_u16 bs) = bs"
  using be_value_bound [of bs] be_bytes_be_value [of bs]
  by (simp add: from_be_u16_def put_u16_def unat_of_nat)

lemma put_from_be_u32: "length bs = 4 \<Longrightarrow> put_u32 (from_be_u32 bs) = bs"
  using be_value_bound [of bs] be_bytes_be_value [of bs]
  by (simp add: from_be_u32_def put_u32_def unat_of_nat)

lemma put_from_be_u64: "length bs = 8 \<Longrightarrow> put_u64 (from_be_u64 bs) = bs"
  using be_value_bound [of bs] be_bytes_be_value [of bs]
  by (simp add: from_be_u64_def put_u64_def unat_of_nat)

lemma unat_from_be_u32: "length bs = 4 \<Longrightarrow> unat (from_be_u32 bs) = be_value bs"
  using be_value_bound [of bs] by (simp add: from_be_u32_def unat_of_nat)

section \<open>Bits\<close>

lemma and_push_bit_one: "n < LENGTH('a::len) \<Longrightarrow> and (w :: 'a word) (push_bit n 1) \<noteq> 0 \<longleftrightarrow> bit w n"
proof -
  assume n: "n < LENGTH('a)"
  have "and w (push_bit n 1) = (if bit w n then push_bit n 1 else 0)"
    by (rule bit_eqI) (auto simp: bit_and_iff bit_push_bit_iff bit_exp_iff)
  moreover have "push_bit n (1 :: 'a word) \<noteq> 0"
    using n by (simp add: bit_eq_iff) (auto simp: bit_exp_iff intro!: exI [of _ n])
  ultimately show ?thesis by auto
qed

section \<open>Formatting\<close>

text \<open>\<open>format!("{}", n)\<close> for an unsigned \<open>n\<close>.\<close>

fun show_nat :: "nat \<Rightarrow> string" where
  "show_nat n = (if n < 10 then [char_of (48 + n)] else show_nat (n div 10) @ [char_of (48 + n mod 10)])"

declare show_nat.simps [simp del]

section \<open>ASCII literals\<close>

text \<open>An ASCII literal of the source as bytes.\<close>

definition ascii :: "string \<Rightarrow> bytes" where
  "ascii s = map of_char s"

lemma unat_of_char: "unat (of_char c :: u8) = of_char c"
  using unat_word_of_nat_u8 [of "of_char c"] by (simp add: of_nat_of_char)

lemma ascii_eq_iff [simp]: "ascii s = ascii t \<longleftrightarrow> s = t"
proof -
  have "inj (of_char :: char \<Rightarrow> u8)"
    by (rule injI) (metis of_char_eq_iff unat_of_char)
  then show ?thesis by (simp add: ascii_def inj_map_eq_map)
qed

section \<open>Lists\<close>

text \<open>The slice \<open>data[a..b]\<close> of the sources, for \<open>a \<le> b \<le> len\<close>.\<close>

definition slice :: "nat \<Rightarrow> nat \<Rightarrow> 'a list \<Rightarrow> 'a list" where
  "slice a b xs = take (b - a) (drop a xs)"

lemma length_slice [simp]: "b \<le> length xs \<Longrightarrow> length (slice a b xs) = b - a"
  by (simp add: slice_def)

lemma slice_append_mid: "a = length xs \<Longrightarrow> b = length xs + length ys \<Longrightarrow> slice a b (xs @ ys @ zs) = ys"
  by (simp add: slice_def)

lemma slice_full [simp]: "slice 0 (length xs) xs = xs"
  by (simp add: slice_def)

end
