(* ===== verification/Ranges.thy ===== *)
theory Ranges
  imports Prelude
begin

text \<open>
  Received byte ranges of a partially written piece
  (\<^verbatim>\<open>wt-storage/src/ranges.rs\<close>). The storage keeps, per partial piece, a vector of
  half-open ranges; every accepted write is merged into it and a read is allowed only when
  the vector covers it. The theory models the in-place merge on the raw buffer, the safe
  wrapper around it and the coverage test, and relates all three to sets of byte positions.
\<close>

section \<open>Model\<close>

record byte_range =
  rstart :: int
  rend :: int

definition size_of_byte_range :: nat where
  "size_of_byte_range = 16"

definition isize_max :: nat where
  "isize_max = 9223372036854775807"

text \<open>\<open>slice::copy_within(a..b, d)\<close> and \<open>slice::partition_point\<close> of the standard library.\<close>

definition copy_within :: "nat \<Rightarrow> nat \<Rightarrow> nat \<Rightarrow> 'a list \<Rightarrow> 'a list" where
  "copy_within a b d xs = take d xs @ slice a b xs @ drop (d + (b - a)) xs"

definition partition_point :: "('a \<Rightarrow> bool) \<Rightarrow> 'a list \<Rightarrow> nat" where
  "partition_point p xs = length (takeWhile p xs)"

text \<open>The loop that widens the incoming range over every range it touches.\<close>

function absorb :: "byte_range list \<Rightarrow> nat \<Rightarrow> nat \<Rightarrow> byte_range \<Rightarrow> byte_range \<times> nat" where
  "absorb ranges existing e inc =
     (if e < existing \<and> rstart (ranges ! e) \<le> rend inc
      then absorb ranges existing (e + 1)
             \<lparr>rstart = min (rstart inc) (rstart (ranges ! e)),
              rend = max (rend inc) (rend (ranges ! e))\<rparr>
      else (inc, e))"
  by pat_completeness auto
termination by (relation "measure (\<lambda>(ranges, existing, e, inc). existing - e)") auto

declare absorb.simps [simp del]

definition webtor_merge_received_range :: "byte_range list \<Rightarrow> byte_range list \<times> int" where
  "webtor_merge_received_range ranges =
     (let count = length ranges in
      if count = 0 \<or> count > isize_max div size_of_byte_range then (ranges, -1)
      else
        let existing = count - 1; incoming = ranges ! existing in
        if rstart incoming < 0 \<or> rend incoming \<le> rstart incoming then (ranges, -1)
        else
          let begn = partition_point (\<lambda>r. rend r < rstart incoming) (take existing ranges);
              (inc, en) = absorb ranges existing begn incoming;
              ranges' = copy_within en existing (begn + 1) ranges
          in (ranges'[begn := inc], int (existing - (en - begn) + 1)))"

definition merge_received_range :: "byte_range list \<Rightarrow> byte_range \<Rightarrow> byte_range list" where
  "merge_received_range ranges incoming =
     (if rstart incoming < 0 \<or> rend incoming \<le> rstart incoming then ranges
      else
        let (buf, n) = webtor_merge_received_range (ranges @ [incoming]) in
        if n \<ge> 0 then take (nat n) buf else butlast buf)"

fun ranges_cover_loop :: "byte_range list \<Rightarrow> int \<Rightarrow> int \<Rightarrow> bool" where
  "ranges_cover_loop [] cur en = (cur \<ge> en)"
| "ranges_cover_loop (r # rs) cur en =
     (if rstart r > cur then False
      else if rend r > cur then
        (if rend r \<ge> en then True else ranges_cover_loop rs (rend r) en)
      else ranges_cover_loop rs cur en)"

definition ranges_cover :: "byte_range list \<Rightarrow> int \<Rightarrow> int \<Rightarrow> bool" where
  "ranges_cover ranges start en =
     (if start \<ge> en then True else ranges_cover_loop ranges start en)"

text \<open>For evaluation: the length limit as an \<open>int\<close>, so that no unary number of that size is built.\<close>

lemma webtor_merge_code [code]:
  "webtor_merge_received_range ranges =
     (let count = length ranges in
      if count = 0 \<or> int count > 576460752303423487 then (ranges, -1)
      else
        let existing = count - 1; incoming = ranges ! existing in
        if rstart incoming < 0 \<or> rend incoming \<le> rstart incoming then (ranges, -1)
        else
          let begn = partition_point (\<lambda>r. rend r < rstart incoming) (take existing ranges);
              (inc, en) = absorb ranges existing begn incoming;
              ranges' = copy_within en existing (begn + 1) ranges
          in (ranges'[begn := inc], int (existing - (en - begn) + 1)))"
proof -
  have "count > isize_max div size_of_byte_range \<longleftrightarrow> int count > 576460752303423487" for count
    by (simp add: isize_max_def size_of_byte_range_def)
  then show ?thesis by (simp only: webtor_merge_received_range_def)
qed

section \<open>Abstract view\<close>

definition span_set :: "byte_range \<Rightarrow> int set" where
  "span_set r = {rstart r..<rend r}"

definition covered :: "byte_range list \<Rightarrow> int set" where
  "covered rs = \<Union> (span_set ` set rs)"

definition valid_range :: "byte_range \<Rightarrow> bool" where
  "valid_range r \<longleftrightarrow> 0 \<le> rstart r \<and> rstart r < rend r"

text \<open>The safety contract of the merge: valid ranges, increasing, with a gap between any two.\<close>

definition normalized :: "byte_range list \<Rightarrow> bool" where
  "normalized rs \<longleftrightarrow>
     (\<forall>r\<in>set rs. valid_range r) \<and> sorted_wrt (\<lambda>a b. rend a < rstart b) rs"

definition fits :: "byte_range list \<Rightarrow> bool" where
  "fits rs \<longleftrightarrow> length rs < isize_max div size_of_byte_range"

lemmas range_defs = span_set_def covered_def valid_range_def

lemma normalized_Nil [simp]: "normalized []"
  by (simp add: normalized_def)

lemma normalized_Cons:
  "normalized (r # rs) \<longleftrightarrow>
     valid_range r \<and> (\<forall>x\<in>set rs. rend r < rstart x) \<and> normalized rs"
  by (auto simp: normalized_def)

lemma normalized_append:
  "normalized (xs @ ys) \<longleftrightarrow>
     normalized xs \<and> normalized ys \<and> (\<forall>x\<in>set xs. \<forall>y\<in>set ys. rend x < rstart y)"
  by (auto simp: normalized_def sorted_wrt_append)

lemma covered_simps [simp]:
  "covered [] = {}"
  "covered (r # rs) = span_set r \<union> covered rs"
  "covered (xs @ ys) = covered xs \<union> covered ys"
  by (auto simp: covered_def)

section \<open>The merge as a list function\<close>

fun absorb_list :: "byte_range \<Rightarrow> byte_range list \<Rightarrow> byte_range \<times> byte_range list" where
  "absorb_list inc [] = (inc, [])"
| "absorb_list inc (r # rs) =
     (if rstart r \<le> rend inc
      then absorb_list \<lparr>rstart = min (rstart inc) (rstart r), rend = max (rend inc) (rend r)\<rparr> rs
      else (inc, r # rs))"

lemma absorb_absorb_list:
  assumes "e \<le> existing" and "existing \<le> length ranges"
  shows "absorb ranges existing e inc =
    (let (i, rest) = absorb_list inc (slice e existing ranges) in (i, existing - length rest))"
  using assms
proof (induction ranges existing e inc rule: absorb.induct)
  case (1 ranges existing e inc)
  show ?case
  proof (cases "e < existing")
    case True
    then have sl: "slice e existing ranges = ranges ! e # slice (e + 1) existing ranges"
      using 1(3) by (simp add: slice_def Cons_nth_drop_Suc [symmetric] Suc_diff_Suc take_Cons')
    show ?thesis
      using 1 True sl by (subst absorb.simps) (auto simp: Let_def split: prod.splits)
  next
    case False
    with 1 show ?thesis by (subst absorb.simps) (simp add: slice_def)
  qed
qed

lemma absorb_list_suffix:
  "absorb_list inc rs = (i, rest) \<Longrightarrow> length rest \<le> length rs \<and> rest = drop (length rs - length rest) rs"
proof (induction inc rs rule: absorb_list.induct)
  case (1 inc)
  then show ?case by simp
next
  case (2 inc r rs)
  show ?case
  proof (cases "rstart r \<le> rend inc")
    case True
    with 2 have *: "length rest \<le> length rs" "rest = drop (length rs - length rest) rs" by auto
    then have "length (r # rs) - length rest = Suc (length rs - length rest)" by simp
    with * show ?thesis by simp
  qed (use 2 in auto)
qed

lemma webtor_merge_eq:
  assumes v: "valid_range inc" and f: "fits rs"
    and w: "takeWhile (\<lambda>r. rend r < rstart inc) rs = pre" "dropWhile (\<lambda>r. rend r < rstart inc) rs = post"
    and a: "absorb_list inc post = (i, rest)"
  shows "\<exists>junk. webtor_merge_received_range (rs @ [inc]) =
    (pre @ i # rest @ junk, int (length pre + 1 + length rest))"
proof -
  define k where "k = length pre"
  have rs: "rs = pre @ post" using w by auto
  have suf: "length rest \<le> length post" "rest = drop (length post - length rest) post"
    using absorb_list_suffix [OF a] by auto
  have k: "partition_point (\<lambda>r. rend r < rstart inc) rs = k"
    by (simp add: partition_point_def k_def w)
  have sl: "slice k (length rs) (rs @ [inc]) = post"
    by (simp add: slice_def k_def rs)
  have ab: "absorb (rs @ [inc]) (length rs) k inc = (i, length rs - length rest)"
    using a sl by (subst absorb_absorb_list) (auto simp: k_def rs)
  have cw: "copy_within (length rs - length rest) (length rs) (k + 1) (rs @ [inc]) =
    take (k + 1) (rs @ [inc]) @ rest @ drop (k + 1 + length rest) (rs @ [inc])"
    using suf by (auto simp: copy_within_def slice_def rs k_def)
  have tk: "take (k + 1) (rs @ [inc]) @ zs = pre @ (hd (post @ [inc])) # zs" for zs
    by (cases post) (simp_all add: rs k_def)
  have up: "(pre @ x # zs)[k := i] = pre @ i # zs" for x zs
    by (simp add: k_def list_update_append)
  have cu: "(copy_within (length rs - length rest) (length rs) (k + 1) (rs @ [inc]))[k := i] =
    pre @ i # rest @ drop (k + 1 + length rest) (rs @ [inc])"
    by (simp only: cw tk up)
  have n: "length rs - (length rs - length rest - k) + 1 = length pre + 1 + length rest"
    using suf by (simp add: rs k_def)
  have "webtor_merge_received_range (rs @ [inc]) =
    (pre @ i # rest @ drop (k + 1 + length rest) (rs @ [inc]), int (length pre + 1 + length rest))"
    using v f k ab cu n
    by (simp add: webtor_merge_received_range_def fits_def valid_range_def Let_def)
  then show ?thesis by blast
qed

lemma merge_received_range_eq:
  assumes "valid_range inc" and "fits rs"
  shows "merge_received_range rs inc =
    (let (i, rest) = absorb_list inc (dropWhile (\<lambda>r. rend r < rstart inc) rs)
     in takeWhile (\<lambda>r. rend r < rstart inc) rs @ i # rest)"
proof -
  obtain i rest where a: "absorb_list inc (dropWhile (\<lambda>r. rend r < rstart inc) rs) = (i, rest)"
    by fastforce
  from webtor_merge_eq [OF assms refl refl a] obtain junk where
    "webtor_merge_received_range (rs @ [inc]) =
      (takeWhile (\<lambda>r. rend r < rstart inc) rs @ i # rest @ junk,
       int (length (takeWhile (\<lambda>r. rend r < rstart inc) rs) + 1 + length rest))"
    by blast
  with assms a show ?thesis
    by (simp add: merge_received_range_def valid_range_def nat_add_distrib)
qed

section \<open>Correctness of the merge\<close>

lemma absorb_list_correct:
  assumes "absorb_list inc rs = (i, rest)" and "normalized rs" and "valid_range inc"
    and "\<forall>r\<in>set rs. rstart inc \<le> rend r"
  shows "valid_range i \<and> normalized (i # rest) \<and> span_set i \<union> covered rest = span_set inc \<union> covered rs
    \<and> (rstart i = rstart inc \<or> (\<exists>r\<in>set rs. rstart i = rstart r))"
  using assms
proof (induction inc rs rule: absorb_list.induct)
  case (1 inc)
  then show ?case by (auto simp: normalized_Cons)
next
  case (2 inc r rs)
  show ?case
  proof (cases "rstart r \<le> rend inc")
    case True
    let ?w = "\<lparr>rstart = min (rstart inc) (rstart r), rend = max (rend inc) (rend r)\<rparr>"
    have a: "absorb_list ?w rs = (i, rest)" using 2(2) True by simp
    have r: "valid_range r" "normalized rs" "\<forall>x\<in>set rs. rend r < rstart x" "\<forall>x\<in>set rs. valid_range x"
      using 2(3) by (auto simp: normalized_Cons normalized_def)
    have w: "valid_range ?w" using 2(4) r(1) by (auto simp: valid_range_def)
    have le: "\<forall>x\<in>set rs. rstart ?w \<le> rend x"
      using 2(5) by fastforce
    have u: "span_set ?w = span_set inc \<union> span_set r"
      using True 2(4,5) r(1) by (auto simp: span_set_def valid_range_def)
    from 2(1) [OF True a r(2) w le] show ?thesis
      using u by (auto simp: min_def split: if_splits)
  next
    case False
    have "\<forall>x\<in>set (r # rs). rend inc < rstart x"
      using 2(3) False by (auto simp: normalized_Cons valid_range_def)
    with False 2 show ?thesis by (auto simp: normalized_Cons)
  qed
qed

lemma dropWhile_normalized:
  assumes "normalized rs"
  shows "\<forall>r\<in>set (dropWhile (\<lambda>r. rend r < s) rs). s \<le> rend r"
  using assms
proof (induction rs)
  case (Cons a rs)
  have "s \<le> rend a \<Longrightarrow> x \<in> set rs \<Longrightarrow> s \<le> rend x" for x
    using Cons.prems by (force simp: normalized_def valid_range_def)
  with Cons show ?case by (auto simp: normalized_Cons)
qed simp

lemma merge_correct:
  assumes n: "normalized rs" and v: "valid_range inc" and f: "fits rs"
  shows "normalized (merge_received_range rs inc)"
    and "covered (merge_received_range rs inc) = covered rs \<union> span_set inc"
    and "length (merge_received_range rs inc) \<le> Suc (length rs)"
proof -
  let ?pre = "takeWhile (\<lambda>r. rend r < rstart inc) rs"
  let ?post = "dropWhile (\<lambda>r. rend r < rstart inc) rs"
  obtain i rest where a: "absorb_list inc ?post = (i, rest)" by fastforce
  have split: "normalized ?pre" "normalized ?post" "\<forall>x\<in>set ?pre. \<forall>y\<in>set ?post. rend x < rstart y"
    using n normalized_append [of ?pre ?post] by auto
  have eq: "merge_received_range rs inc = ?pre @ i # rest"
    using merge_received_range_eq [OF v f] a by simp
  have c: "normalized (i # rest)" "span_set i \<union> covered rest = span_set inc \<union> covered ?post"
    "rstart i = rstart inc \<or> (\<exists>r\<in>set ?post. rstart i = rstart r)"
    using absorb_list_correct [OF a split(2) v dropWhile_normalized [OF n]] by blast+
  have pre: "\<forall>x\<in>set ?pre. rend x < rstart inc" by (auto dest: set_takeWhileD)
  have suf: "length rest \<le> length ?post"
    using absorb_list_suffix [OF a] by (rule conjunct1)
  have sub: "set rest \<subseteq> set ?post"
    by (subst absorb_list_suffix [OF a, THEN conjunct2]) (rule set_drop_subset)
  have "\<forall>x\<in>set ?pre. rend x < rstart i" using c(3) pre split(3) by metis
  moreover have "\<forall>x\<in>set ?pre. \<forall>y\<in>set rest. rend x < rstart y" using split(3) sub by blast
  ultimately show "normalized (merge_received_range rs inc)"
    using c(1) split(1) unfolding eq normalized_append by simp
  have "covered rs = covered ?pre \<union> covered ?post"
    by (metis covered_simps(3) takeWhile_dropWhile_id)
  then show "covered (merge_received_range rs inc) = covered rs \<union> span_set inc"
    using c(2) unfolding eq by (simp add: Un_ac)
  have "length ?pre + length ?post = length rs"
    by (metis length_append takeWhile_dropWhile_id)
  then show "length (merge_received_range rs inc) \<le> Suc (length rs)"
    using suf by (simp add: eq)
qed

lemma merge_invalid: "\<not> valid_range inc \<Longrightarrow> merge_received_range rs inc = rs"
  by (auto simp: merge_received_range_def valid_range_def)

section \<open>Normal form and coverage test\<close>

lemma covered_lower: "normalized (r # rs) \<Longrightarrow> x \<in> covered (r # rs) \<Longrightarrow> rstart r \<le> x"
  by (fastforce simp: normalized_Cons range_defs)

lemma covered_tail_lower: "normalized (r # rs) \<Longrightarrow> x \<in> covered rs \<Longrightarrow> rend r < x"
  by (fastforce simp: normalized_Cons range_defs)

lemma covered_tail_disjoint: "normalized (r # rs) \<Longrightarrow> covered rs \<inter> span_set r = {}"
  using covered_tail_lower [of r rs] by (force simp: span_set_def)

lemma covered_head:
  assumes "normalized (r # rs)"
  shows "rstart r \<in> covered (r # rs)" and "rend r \<notin> covered (r # rs)"
    and "rstart r \<le> x \<Longrightarrow> x < rend r \<Longrightarrow> x \<in> covered (r # rs)"
  using assms covered_tail_lower [OF assms, of "rend r"]
  by (auto simp: normalized_Cons valid_range_def span_set_def)

lemma normalized_same_head:
  assumes x: "normalized (x # xs)" and y: "normalized (y # ys)"
    and eq: "covered (x # xs) = covered (y # ys)"
  shows "x = y"
proof -
  have s: "rstart x = rstart y"
    using covered_lower [OF x] covered_lower [OF y] covered_head(1) [OF x] covered_head(1) [OF y] eq
    by (metis order_antisym)
  have v: "rstart x < rend x" "rstart y < rend y"
    using x y by (auto simp: normalized_Cons valid_range_def)
  have "\<not> rend x < rend y"
    using covered_head(2) [OF x] covered_head(3) [OF y, of "rend x"] eq s v by auto
  moreover have "\<not> rend y < rend x"
    using covered_head(2) [OF y] covered_head(3) [OF x, of "rend y"] eq s v by auto
  ultimately show ?thesis using s by simp
qed

lemma normalized_unique:
  "normalized xs \<Longrightarrow> normalized ys \<Longrightarrow> covered xs = covered ys \<Longrightarrow> xs = ys"
proof (induction xs arbitrary: ys)
  case Nil
  show ?case
  proof (cases ys)
    case (Cons y ys')
    then show ?thesis using covered_head(1) [of y ys'] Nil by simp
  qed simp
next
  case (Cons x xs)
  obtain y ys' where ys: "ys = y # ys'"
    using Cons.prems covered_head(1) [OF Cons.prems(1)] by (cases ys) auto
  have xy: "x = y"
    using normalized_same_head Cons.prems ys by blast
  have "covered xs = covered (x # xs) - span_set x" "covered ys' = covered (y # ys') - span_set y"
    using covered_tail_disjoint Cons.prems(1,2) ys by auto
  then have "covered xs = covered ys'" using Cons.prems(3) ys xy by simp
  then have "xs = ys'" using Cons.IH Cons.prems ys by (auto simp: normalized_Cons)
  with xy ys show ?case by simp
qed

lemma ranges_cover_loop_iff:
  "normalized rs \<Longrightarrow> cur < en \<Longrightarrow> ranges_cover_loop rs cur en \<longleftrightarrow> {cur..<en} \<subseteq> covered rs"
proof (induction rs cur en rule: ranges_cover_loop.induct)
  case (1 cur en)
  then show ?case by auto
next
  case (2 r rs cur en)
  note tail = covered_tail_lower [OF 2(3)]
  consider "rstart r > cur" | "rstart r \<le> cur" "cur < rend r" "en \<le> rend r"
    | "rstart r \<le> cur" "cur < rend r" "rend r < en" | "rend r \<le> cur" "rstart r \<le> cur"
    by linarith
  then show ?case
  proof cases
    case 1
    then have "cur \<notin> covered (r # rs)" using covered_lower [OF 2(3)] by fastforce
    with 1 2(4) show ?thesis by auto
  next
    case 2
    then show ?thesis by (auto simp: span_set_def)
  next
    case 3
    have "{cur..<en} \<subseteq> span_set r \<union> covered rs \<longleftrightarrow> {rend r..<en} \<subseteq> covered rs"
    proof -
      have "{cur..<en} = {cur..<rend r} \<union> {rend r..<en}" using 3 by auto
      moreover have "{cur..<rend r} \<subseteq> span_set r" "{rend r..<en} \<inter> span_set r = {}"
        using 3 by (auto simp: span_set_def)
      ultimately show ?thesis by blast
    qed
    with 3 2 show ?thesis by (auto simp: normalized_Cons)
  next
    case 4
    then have "{cur..<en} \<inter> span_set r = {}" by (auto simp: span_set_def)
    with 4 2 show ?thesis by (auto simp: normalized_Cons)
  qed
qed

lemma ranges_cover_iff:
  "normalized rs \<Longrightarrow> ranges_cover rs start en \<longleftrightarrow> {start..<en} \<subseteq> covered rs"
  by (auto simp: ranges_cover_def ranges_cover_loop_iff)

section \<open>The interface the storage uses\<close>

text \<open>
  What the piece storage needs of its received-range structure: an abstraction to byte
  positions, an \<open>add\<close> that records a write (and ignores an empty or negative one) and a
  test \<open>covers\<close>. \<open>room\<close> bounds the number of records the implementation can hold.
\<close>

locale received_set =
  fixes cov :: "'s \<Rightarrow> int set"
    and ok :: "'s \<Rightarrow> bool"
    and room :: "'s \<Rightarrow> nat \<Rightarrow> bool"
    and empty :: 's
    and add :: "'s \<Rightarrow> byte_range \<Rightarrow> 's"
    and covers :: "'s \<Rightarrow> int \<Rightarrow> int \<Rightarrow> bool"
  assumes empty_ok: "ok empty" and empty_cov: "cov empty = {}"
    and add_ok: "ok s \<Longrightarrow> room s (Suc n) \<Longrightarrow> ok (add s r)"
    and add_cov: "ok s \<Longrightarrow> room s (Suc n) \<Longrightarrow>
      cov (add s r) = cov s \<union> (if valid_range r then span_set r else {})"
    and add_room: "ok s \<Longrightarrow> room s (Suc n) \<Longrightarrow> room (add s r) n"
    and covers_iff: "ok s \<Longrightarrow> covers s a b \<longleftrightarrow> {a..<b} \<subseteq> cov s"
begin

lemma fold_add:
  "ok s \<Longrightarrow> room s (length ws) \<Longrightarrow>
     ok (foldl add s ws) \<and>
     cov (foldl add s ws) = cov s \<union> \<Union> (span_set ` {w \<in> set ws. valid_range w})"
proof (induction ws arbitrary: s)
  case Nil
  then show ?case by simp
next
  case (Cons w ws)
  have r: "room s (Suc (length ws))" using Cons.prems by simp
  note IH = Cons.IH [OF add_ok [OF Cons.prems(1) r] add_room [OF Cons.prems(1) r], of w]
  show ?case
    using IH add_cov [OF Cons.prems(1) r, of w] by (auto split: if_splits)
qed

lemma covers_fold:
  "room empty (length ws) \<Longrightarrow>
     covers (foldl add empty ws) a b \<longleftrightarrow> {a..<b} \<subseteq> \<Union> (span_set ` {w \<in> set ws. valid_range w})"
  using fold_add [OF empty_ok, of ws] by (simp add: covers_iff empty_cov)

end

definition room_for :: "byte_range list \<Rightarrow> nat \<Rightarrow> bool" where
  "room_for rs n \<longleftrightarrow> length rs + n \<le> isize_max div size_of_byte_range"

lemma fits_room: "room_for rs (Suc n) \<Longrightarrow> fits rs"
  by (simp add: room_for_def fits_def)

interpretation received: received_set covered normalized room_for "[]" merge_received_range ranges_cover
proof
  fix s r n
  assume s: "normalized s" and n: "room_for s (Suc n)"
  show "normalized (merge_received_range s r)"
    using s merge_correct(1) [OF s _ fits_room [OF n]] by (cases "valid_range r") (auto simp: merge_invalid)
  show "covered (merge_received_range s r) = covered s \<union> (if valid_range r then span_set r else {})"
    using merge_correct(2) [OF s _ fits_room [OF n]] by (cases "valid_range r") (auto simp: merge_invalid)
  show "room_for (merge_received_range s r) n"
    using n merge_correct(3) [OF s _ fits_room [OF n], of r]
    by (cases "valid_range r") (auto simp: merge_invalid room_for_def)
qed (auto simp: ranges_cover_iff)

section \<open>Properties\<close>

text \<open>C25: Merging a valid incoming range into a sorted vector of disjoint, non-adjacent ranges
  keeps that shape, grows the vector by at most one entry, and the bytes it covers afterwards are
  exactly the bytes covered before together with those of the incoming range.\<close>

theorem merge_received_range_sound:
  assumes "normalized rs" and "valid_range inc" and "fits rs"
  shows "normalized (merge_received_range rs inc)
    \<and> covered (merge_received_range rs inc) = covered rs \<union> span_set inc
    \<and> length (merge_received_range rs inc) \<le> Suc (length rs)"
  using merge_correct [OF assms] by blast

theorem merge_received_range_sound_witness:
  "merge_received_range [\<lparr>rstart = 0, rend = 4\<rparr>, \<lparr>rstart = 8, rend = 12\<rparr>] \<lparr>rstart = 4, rend = 8\<rparr>
     = [\<lparr>rstart = 0, rend = 12\<rparr>]
   \<and> covered (merge_received_range [\<lparr>rstart = 0, rend = 4\<rparr>, \<lparr>rstart = 8, rend = 12\<rparr>] \<lparr>rstart = 4, rend = 8\<rparr>)
     = covered [\<lparr>rstart = 0, rend = 4\<rparr>, \<lparr>rstart = 8, rend = 12\<rparr>] \<union> span_set \<lparr>rstart = 4, rend = 8\<rparr>"
  using merge_received_range_sound
    [of "[\<lparr>rstart = 0, rend = 4\<rparr>, \<lparr>rstart = 8, rend = 12\<rparr>]" "\<lparr>rstart = 4, rend = 8\<rparr>"]
  by (simp add: merge_received_range_eq normalized_def valid_range_def fits_def isize_max_def
      size_of_byte_range_def)

text \<open>C16: The order in which writes of a piece arrive does not matter: any two sequences of writes
  with the same bytes give the same vector, and a read of \<open>[a, b)\<close> is allowed afterwards exactly
  when every byte of it lies in some valid write.\<close>

theorem received_ranges_order_independent:
  assumes "room_for [] (length ws)" and "room_for [] (length vs)" and "set vs = set ws"
  shows "foldl merge_received_range [] ws = foldl merge_received_range [] vs
    \<and> (ranges_cover (foldl merge_received_range [] ws) a b
        \<longleftrightarrow> {a..<b} \<subseteq> \<Union> (span_set ` {w \<in> set ws. valid_range w}))"
  using assms received.fold_add [of "[]" ws] received.fold_add [of "[]" vs]
    received.covers_fold [OF assms(1)] normalized_unique
  by simp

theorem received_ranges_order_independent_witness:
  "foldl merge_received_range [] [\<lparr>rstart = 4, rend = 6\<rparr>, \<lparr>rstart = 0, rend = 4\<rparr>]
     = foldl merge_received_range [] [\<lparr>rstart = 0, rend = 4\<rparr>, \<lparr>rstart = 4, rend = 6\<rparr>]
   \<and> (ranges_cover (foldl merge_received_range [] [\<lparr>rstart = 4, rend = 6\<rparr>, \<lparr>rstart = 0, rend = 4\<rparr>]) 1 6
      \<longleftrightarrow> {1..<6} \<subseteq> \<Union> (span_set ` {w \<in> set [\<lparr>rstart = 4, rend = 6\<rparr>, \<lparr>rstart = 0, rend = 4\<rparr>]. valid_range w}))"
  by (rule received_ranges_order_independent)
    (auto simp: room_for_def isize_max_def size_of_byte_range_def)

end
