(* ===== verification/Lru.thy ===== *)
theory Lru
  imports Prelude "HOL-Library.Monad_Syntax"
begin

text \<open>
  The recency order of the piece cache (\<^verbatim>\<open>wt-storage/src/cache_lru.rs\<close>): a doubly linked
  list threaded through a vector of nodes with a free list, and a hash map from piece index
  to node. An operation returns \<open>None\<close> where the source would panic (an index out of bounds
  or an \<open>unwrap\<close> of an empty slot). The operations refine list operations on the keys in
  order from least to most recently used, and never panic on a well-formed structure.
\<close>

section \<open>Model\<close>

record node =
  key :: int
  prv :: "nat option"
  nxt :: "nat option"

record piece_lru =
  lmap :: "int \<Rightarrow> nat option"
  nodes :: "node option list"
  free_head :: "nat option"
  head :: "nat option"
  tail :: "nat option"

definition new_lru :: piece_lru where
  "new_lru = \<lparr>lmap = Map.empty, nodes = [], free_head = None, head = None, tail = None\<rparr>"

definition node_at :: "node option list \<Rightarrow> nat \<Rightarrow> node option" where
  "node_at ns i = (if i < length ns then ns ! i else None)"

definition node_upd :: "node option list \<Rightarrow> nat \<Rightarrow> (node \<Rightarrow> node) \<Rightarrow> node option list option" where
  "node_upd ns i f = do { nd \<leftarrow> node_at ns i; Some (ns[i := Some (f nd)]) }"

definition detach :: "piece_lru \<Rightarrow> nat \<Rightarrow> piece_lru option" where
  "detach s idx = do {
     nd \<leftarrow> node_at (nodes s) idx;
     let p = prv nd;
     let n = nxt nd;
     s \<leftarrow> (case p of
            Some p' \<Rightarrow> do { ns \<leftarrow> node_upd (nodes s) p' (nxt_update (\<lambda>_. n)); Some (s\<lparr>nodes := ns\<rparr>) }
          | None \<Rightarrow> Some (s\<lparr>head := n\<rparr>));
     s \<leftarrow> (case n of
            Some n' \<Rightarrow> do { ns \<leftarrow> node_upd (nodes s) n' (prv_update (\<lambda>_. p)); Some (s\<lparr>nodes := ns\<rparr>) }
          | None \<Rightarrow> Some (s\<lparr>tail := p\<rparr>));
     ns \<leftarrow> node_upd (nodes s) idx (\<lambda>c. c\<lparr>prv := None, nxt := None\<rparr>);
     Some (s\<lparr>nodes := ns\<rparr>)
   }"

definition attach_tail :: "piece_lru \<Rightarrow> nat \<Rightarrow> piece_lru option" where
  "attach_tail s idx = do {
     ns \<leftarrow> node_upd (nodes s) idx (\<lambda>c. c\<lparr>prv := tail s, nxt := None\<rparr>);
     s \<leftarrow> Some (s\<lparr>nodes := ns\<rparr>);
     s \<leftarrow> (case tail s of
            Some t \<Rightarrow> do { ns \<leftarrow> node_upd (nodes s) t (nxt_update (\<lambda>_. Some idx)); Some (s\<lparr>nodes := ns\<rparr>) }
          | None \<Rightarrow> Some (s\<lparr>head := Some idx\<rparr>));
     Some (s\<lparr>tail := Some idx\<rparr>)
   }"

definition alloc_node :: "piece_lru \<Rightarrow> int \<Rightarrow> (piece_lru \<times> nat) option" where
  "alloc_node s k =
     (case free_head s of
        Some idx \<Rightarrow>
          (if idx < length (nodes s) then
             let next_free = (case nodes s ! idx of Some nd \<Rightarrow> nxt nd | None \<Rightarrow> None) in
             Some (s\<lparr>free_head := next_free,
                     nodes := (nodes s)[idx := Some \<lparr>key = k, prv = None, nxt = None\<rparr>]\<rparr>, idx)
           else None)
      | None \<Rightarrow>
          let idx = length (nodes s) in
          Some (s\<lparr>nodes := nodes s @ [Some \<lparr>key = k, prv = None, nxt = None\<rparr>]\<rparr>, idx))"

definition free_node :: "piece_lru \<Rightarrow> nat \<Rightarrow> piece_lru option" where
  "free_node s idx =
     (if idx < length (nodes s) then
        Some (s\<lparr>nodes := (nodes s)[idx := Some \<lparr>key = 0, prv = None, nxt = free_head s\<rparr>],
                free_head := Some idx\<rparr>)
      else None)"

definition touch :: "piece_lru \<Rightarrow> int \<Rightarrow> piece_lru option" where
  "touch s k =
     (case lmap s k of
        Some idx \<Rightarrow>
          (if tail s = Some idx then Some s
           else do { s \<leftarrow> detach s idx; attach_tail s idx })
      | None \<Rightarrow> do {
          (s, idx) \<leftarrow> alloc_node s k;
          s \<leftarrow> attach_tail s idx;
          Some (s\<lparr>lmap := (lmap s)(k \<mapsto> idx)\<rparr>) })"

definition remove :: "piece_lru \<Rightarrow> int \<Rightarrow> piece_lru option" where
  "remove s k =
     (case lmap s k of
        Some idx \<Rightarrow> do {
          s \<leftarrow> detach (s\<lparr>lmap := (lmap s)(k := None)\<rparr>) idx;
          free_node s idx }
      | None \<Rightarrow> Some s)"

text \<open>
  \<open>each\<close> runs the visitor along the list and stops when it answers \<open>false\<close>; the visitors of
  the storage return the first piece that passes a test, so \<open>first_match\<close> gives the piece the
  visitor stopped at. The walk follows \<open>next\<close> pointers, which only a well-formed structure
  makes finite: \<open>fuel\<close> bounds it, and the outer \<open>option\<close> is \<open>None\<close> when it runs out or panics.
\<close>

fun walk :: "nat \<Rightarrow> node option list \<Rightarrow> nat option \<Rightarrow> (int \<Rightarrow> bool) \<Rightarrow> int option option" where
  "walk fuel ns None stop = Some None"
| "walk 0 ns (Some idx) stop = None"
| "walk (Suc fuel) ns (Some idx) stop =
     (case node_at ns idx of
        None \<Rightarrow> None
      | Some nd \<Rightarrow> if stop (key nd) then Some (Some (key nd)) else walk fuel ns (nxt nd) stop)"

definition each :: "piece_lru \<Rightarrow> (int \<Rightarrow> bool) \<Rightarrow> int option option" where
  "each s stop = walk (length (nodes s)) (nodes s) (head s) stop"

definition oldest :: "piece_lru \<Rightarrow> int \<Rightarrow> int option option" where
  "oldest s skip = walk (length (nodes s)) (nodes s) (head s) (\<lambda>k. k \<noteq> skip)"

definition reset :: "piece_lru \<Rightarrow> piece_lru" where
  "reset s = s\<lparr>lmap := Map.empty, nodes := [], free_head := None, head := None, tail := None\<rparr>"

section \<open>Well-formedness\<close>

definition first_of :: "nat list \<Rightarrow> nat option \<Rightarrow> nat option" where
  "first_of xs d = (case xs of [] \<Rightarrow> d | x # _ \<Rightarrow> Some x)"

definition last_of :: "nat option \<Rightarrow> nat list \<Rightarrow> nat option" where
  "last_of d xs = (if xs = [] then d else Some (last xs))"

text \<open>A doubly linked segment: the nodes \<open>xs\<close>, entered from \<open>p\<close> and leading to \<open>n\<close>.\<close>

fun dll :: "node option list \<Rightarrow> nat option \<Rightarrow> nat list \<Rightarrow> nat option \<Rightarrow> bool" where
  "dll ns p [] n = True"
| "dll ns p (x # xs) n =
     (x < length ns \<and> (\<exists>k. ns ! x = Some \<lparr>key = k, prv = p, nxt = first_of xs n\<rparr>) \<and> dll ns (Some x) xs n)"

text \<open>A free list: the nodes \<open>fs\<close>, chained by \<open>nxt\<close>.\<close>

fun freel :: "node option list \<Rightarrow> nat list \<Rightarrow> bool" where
  "freel ns [] = True"
| "freel ns (x # xs) =
     (x < length ns \<and> (\<exists>nd. ns ! x = Some nd \<and> nxt nd = first_of xs None) \<and> freel ns xs)"

definition key_at :: "node option list \<Rightarrow> nat \<Rightarrow> int" where
  "key_at ns i = key (the (ns ! i))"

definition lru_rep :: "piece_lru \<Rightarrow> nat list \<Rightarrow> nat list \<Rightarrow> bool" where
  "lru_rep s xs fs \<longleftrightarrow>
     dll (nodes s) None xs None \<and> head s = first_of xs None \<and> tail s = last_of None xs
     \<and> freel (nodes s) fs \<and> free_head s = first_of fs None
     \<and> distinct (xs @ fs)
     \<and> (\<forall>k i. lmap s k = Some i \<longleftrightarrow> i \<in> set xs \<and> key_at (nodes s) i = k)"

definition lru_inv :: "piece_lru \<Rightarrow> bool" where
  "lru_inv s \<longleftrightarrow> (\<exists>xs fs. lru_rep s xs fs)"

text \<open>The keys in order, read off the structure itself.\<close>

fun chain :: "nat \<Rightarrow> node option list \<Rightarrow> nat option \<Rightarrow> nat list" where
  "chain 0 ns c = []"
| "chain (Suc fuel) ns c =
     (case c of None \<Rightarrow> [] | Some i \<Rightarrow>
        (case node_at ns i of None \<Rightarrow> [] | Some nd \<Rightarrow> i # chain fuel ns (nxt nd)))"

definition order :: "piece_lru \<Rightarrow> int list" where
  "order s = map (key_at (nodes s)) (chain (length (nodes s)) (nodes s) (head s))"

section \<open>Segments\<close>

lemma first_of_simps [simp]: "first_of [] d = d" "first_of (x # xs) d = Some x"
  by (simp_all add: first_of_def)

lemma last_of_simps [simp]:
  "last_of d [] = d" "last_of d (xs @ [x]) = Some x" "last_of d (x # xs) = last_of (Some x) xs"
  by (simp_all add: last_of_def)

lemma first_of_append [simp]: "first_of (xs @ ys) d = first_of xs (first_of ys d)"
  by (cases xs) auto

lemma last_of_append [simp]: "last_of d (xs @ ys) = last_of (last_of d xs) ys"
  by (auto simp: last_of_def)

lemma dll_append:
  "dll ns p (xs @ ys) n \<longleftrightarrow> dll ns p xs (first_of ys n) \<and> dll ns (last_of p xs) ys n"
  by (induction xs arbitrary: p) auto

lemma dll_bounds: "dll ns p xs n \<Longrightarrow> x \<in> set xs \<Longrightarrow> x < length ns \<and> ns ! x \<noteq> None"
  by (induction xs arbitrary: p) auto

lemma freel_bounds: "freel ns xs \<Longrightarrow> x \<in> set xs \<Longrightarrow> x < length ns"
  by (induction xs) auto

lemma dll_upd_other: "x \<notin> set xs \<Longrightarrow> dll (ns[x := v]) p xs n = dll ns p xs n"
  by (induction xs arbitrary: p) (auto simp: nth_list_update)

lemma freel_upd_other: "x \<notin> set xs \<Longrightarrow> freel (ns[x := v]) xs = freel ns xs"
  by (induction xs) (auto simp: nth_list_update)

lemma dll_extend: "dll ns p xs n \<Longrightarrow> dll (ns @ ms) p xs n"
  by (induction xs arbitrary: p) (auto simp: nth_append)

lemma freel_extend: "freel ns xs \<Longrightarrow> freel (ns @ ms) xs"
  by (induction xs) (auto simp: nth_append)

lemma distinct_bounded_length:
  "distinct xs \<Longrightarrow> (\<And>x. x \<in> set xs \<Longrightarrow> x < n) \<Longrightarrow> length xs \<le> n"
  using card_mono [of "{..<n}" "set xs"] by (auto simp: distinct_card)

lemma dll_length: "dll ns p xs n \<Longrightarrow> distinct xs \<Longrightarrow> length xs \<le> length ns"
  by (rule distinct_bounded_length) (auto dest: dll_bounds)

lemma chain_dll:
  "dll ns p xs None \<Longrightarrow> length xs \<le> fuel \<Longrightarrow> chain fuel ns (first_of xs None) = xs"
proof (induction xs arbitrary: p fuel)
  case Nil
  then show ?case by (cases fuel) auto
next
  case (Cons x xs)
  then show ?case by (cases fuel) (auto simp: node_at_def)
qed

lemma walk_dll:
  "dll ns p xs None \<Longrightarrow> length xs \<le> fuel \<Longrightarrow>
     walk fuel ns (first_of xs None) stop = Some (find stop (map (key_at ns) xs))"
proof (induction xs arbitrary: p fuel)
  case Nil
  then show ?case by simp
next
  case (Cons x xs)
  then show ?case by (cases fuel) (auto simp: node_at_def key_at_def)
qed

lemma order_rep: "lru_rep s xs fs \<Longrightarrow> order s = map (key_at (nodes s)) xs"
  by (auto simp: lru_rep_def order_def chain_dll dll_length)

section \<open>Operations on a well-formed structure\<close>

definition links_cleared :: "node option list \<Rightarrow> nat \<Rightarrow> bool" where
  "links_cleared ns i \<longleftrightarrow> i < length ns \<and> ns ! i = Some \<lparr>key = key_at ns i, prv = None, nxt = None\<rparr>"

text \<open>
  The frame of an operation: which cells of the node vector it may change, and that it keeps
  the key of every cell.
\<close>

definition same_keys :: "node option list \<Rightarrow> node option list \<Rightarrow> bool" where
  "same_keys ns ms \<longleftrightarrow> length ms = length ns \<and> (\<forall>i<length ns. key_at ms i = key_at ns i)"

lemma same_keys_refl [simp]: "same_keys ns ns"
  by (simp add: same_keys_def)

lemma same_keys_trans: "same_keys a b \<Longrightarrow> same_keys b c \<Longrightarrow> same_keys a c"
  by (simp add: same_keys_def)

lemma same_keys_upd: "key nd = key_at ns x \<Longrightarrow> same_keys ns (ns[x := Some nd])"
  by (cases "x < length ns") (auto simp: same_keys_def key_at_def nth_list_update list_update_beyond)

definition detached :: "piece_lru \<Rightarrow> nat list \<Rightarrow> nat \<Rightarrow> nat list \<Rightarrow> piece_lru \<Rightarrow> bool" where
  "detached s as i bs s' \<longleftrightarrow>
     dll (nodes s') None (as @ bs) None \<and> head s' = first_of (as @ bs) None
     \<and> tail s' = last_of None (as @ bs) \<and> links_cleared (nodes s') i \<and> same_keys (nodes s) (nodes s')
     \<and> (\<forall>fs. set fs \<inter> set (as @ i # bs) = {} \<longrightarrow> freel (nodes s') fs = freel (nodes s) fs)
     \<and> lmap s' = lmap s \<and> free_head s' = free_head s"

lemma detach_nodes:
  assumes d: "dll (nodes s) None (as @ i # bs) None" and u: "distinct (as @ i # bs)"
    and h: "head s = first_of (as @ i # bs) None" and t: "tail s = last_of None (as @ i # bs)"
  shows "\<exists>s'. detach s i = Some s' \<and> detached s as i bs s'"
proof -
  have i: "i < length (nodes s)"
    "nodes s ! i = Some \<lparr>key = key_at (nodes s) i, prv = last_of None as, nxt = first_of bs None\<rparr>"
    using d by (auto simp: dll_append key_at_def)
  note simps = detach_def node_at_def node_upd_def
  note frame = detached_def links_cleared_def same_keys_def key_at_def nth_list_update
    freel_upd_other dll_upd_other
  show ?thesis
  proof (cases as rule: rev_cases)
    case asN: Nil
    show ?thesis
    proof (cases bs)
      case Nil
      then show ?thesis
        using i asN by (simp add: simps) (auto simp: frame)
    next
      case (Cons b bs')
      obtain kb where b: "b < length (nodes s)" "b \<noteq> i"
        "nodes s ! b = Some \<lparr>key = kb, prv = Some i, nxt = first_of bs' None\<rparr>" "dll (nodes s) (Some b) bs' None"
        using d u asN Cons by auto
      show ?thesis
        using i b asN Cons t u by (simp add: simps) (auto simp: frame)
    qed
  next
    case asS: (snoc as' a)
    have a: "dll (nodes s) None as' (Some a)" "a < length (nodes s)" "a \<noteq> i"
      "nodes s ! a = Some \<lparr>key = key_at (nodes s) a, prv = last_of None as', nxt = Some i\<rparr>"
      using d u asS by (auto simp: dll_append key_at_def)
    show ?thesis
    proof (cases bs)
      case Nil
      show ?thesis
        using i a asS Nil h u by (simp add: simps) (auto simp: frame dll_append)
    next
      case (Cons b bs')
      obtain kb where b: "b < length (nodes s)" "b \<noteq> i" "b \<noteq> a"
        "nodes s ! b = Some \<lparr>key = kb, prv = Some i, nxt = first_of bs' None\<rparr>" "dll (nodes s) (Some b) bs' None"
        using d u asS Cons by (auto simp: dll_append)
      show ?thesis
        using i a b asS Cons h t u by (simp add: simps) (auto simp: frame dll_append)
    qed
  qed
qed

lemma attach_tail_nodes:
  assumes d: "dll (nodes s) None xs None" and u: "distinct xs" "i \<notin> set xs"
    and h: "head s = first_of xs None" and t: "tail s = last_of None xs"
    and i: "i < length (nodes s)" "nodes s ! i = Some nd"
  shows "\<exists>s'. attach_tail s i = Some s' \<and> dll (nodes s') None (xs @ [i]) None
    \<and> head s' = first_of (xs @ [i]) None \<and> tail s' = Some i \<and> same_keys (nodes s) (nodes s')
    \<and> (\<forall>fs. set fs \<inter> set (xs @ [i]) = {} \<longrightarrow> freel (nodes s') fs = freel (nodes s) fs)
    \<and> lmap s' = lmap s \<and> free_head s' = free_head s"
proof (cases xs rule: rev_cases)
  case Nil
  then show ?thesis
    using i h t by (cases nd)
      (auto simp: attach_tail_def node_upd_def node_at_def freel_upd_other intro: same_keys_upd simp: key_at_def)
next
  case (snoc ys y)
  obtain ky where y: "dll (nodes s) None ys (Some y)" "y < length (nodes s)" "y \<noteq> i" "y \<notin> set ys"
    "i \<notin> set ys" "nodes s ! y = Some \<lparr>key = ky, prv = last_of None ys, nxt = None\<rparr>"
    using d u snoc by (auto simp: dll_append)
  show ?thesis
    using i y snoc h t
    by (cases nd) (auto simp: attach_tail_def node_upd_def node_at_def freel_upd_other dll_upd_other dll_append
        same_keys_def key_at_def nth_list_update)
qed

section \<open>Refinement of the list of keys\<close>

lemma rep_key_inj:
  "lru_rep s xs fs \<Longrightarrow> i \<in> set xs \<Longrightarrow> j \<in> set xs \<Longrightarrow> key_at (nodes s) i = key_at (nodes s) j \<Longrightarrow> i = j"
proof -
  assume r: "lru_rep s xs fs" and i: "i \<in> set xs" and j: "j \<in> set xs"
    and e: "key_at (nodes s) i = key_at (nodes s) j"
  have m: "\<forall>k i. lmap s k = Some i \<longleftrightarrow> i \<in> set xs \<and> key_at (nodes s) i = k"
    using r by (simp add: lru_rep_def)
  have "lmap s (key_at (nodes s) j) = Some i" using m i e by blast
  moreover have "lmap s (key_at (nodes s) j) = Some j" using m j by blast
  ultimately show "i = j" by simp
qed

lemma rep_absent: "lru_rep s xs fs \<Longrightarrow> lmap s k = None \<Longrightarrow> i \<in> set xs \<Longrightarrow> key_at (nodes s) i \<noteq> k"
proof
  assume "lru_rep s xs fs" and n: "lmap s k = None" and "i \<in> set xs" and "key_at (nodes s) i = k"
  then have "lmap s k = Some i" unfolding lru_rep_def by blast
  with n show False by simp
qed

lemma rep_absent_order: "lru_rep s xs fs \<Longrightarrow> lmap s k = None \<Longrightarrow> k \<notin> set (order s)"
  using rep_absent [of s xs fs k] order_rep [of s xs fs] by auto

lemma rep_distinct_order: "lru_rep s xs fs \<Longrightarrow> distinct (order s)"
  using rep_key_inj [of s xs fs]
  by (simp add: order_rep [of s xs fs] distinct_map inj_on_def) (simp add: lru_rep_def)

lemma map_key_same:
  "same_keys ns ms \<Longrightarrow> set xs \<subseteq> {..<length ns} \<Longrightarrow> map (key_at ms) xs = map (key_at ns) xs"
  by (auto simp: same_keys_def)

lemma remove1_map_split:
  assumes "distinct (map f (as @ i # bs))"
  shows "remove1 (f i) (map f (as @ i # bs)) = map f (as @ bs)"
  using assms by (auto simp: remove1_append)

lemma move_to_tail:
  assumes r: "lru_rep s (as @ i # bs) fs" and k: "key_at (nodes s) i = k"
  shows "\<exists>s' s''. detach s i = Some s' \<and> attach_tail s' i = Some s'' \<and> lru_rep s'' (as @ bs @ [i]) fs
    \<and> order s'' = remove1 k (order s) @ [k]"
proof -
  from r have d: "dll (nodes s) None (as @ i # bs) None" "distinct (as @ i # bs)"
    "head s = first_of (as @ i # bs) None" "tail s = last_of None (as @ i # bs)"
    and fr: "freel (nodes s) fs" "free_head s = first_of fs None"
    and ds: "distinct ((as @ i # bs) @ fs)"
    and m: "\<forall>k j. lmap s k = Some j \<longleftrightarrow> j \<in> set (as @ i # bs) \<and> key_at (nodes s) j = k"
    unfolding lru_rep_def by auto
  obtain s' where s': "detach s i = Some s'" "detached s as i bs s'"
    using detach_nodes [OF d] by blast
  from s'(2) have D: "dll (nodes s') None (as @ bs) None" "head s' = first_of (as @ bs) None"
    "tail s' = last_of None (as @ bs)" "links_cleared (nodes s') i" "same_keys (nodes s) (nodes s')"
    "freel (nodes s') fs" "lmap s' = lmap s" "free_head s' = free_head s"
    using ds fr unfolding detached_def by auto
  have i': "i < length (nodes s')" "nodes s' ! i = Some \<lparr>key = key_at (nodes s') i, prv = None, nxt = None\<rparr>"
    using D(4) by (auto simp: links_cleared_def)
  obtain s'' where s'': "attach_tail s' i = Some s''" "dll (nodes s'') None ((as @ bs) @ [i]) None"
    "head s'' = first_of ((as @ bs) @ [i]) None" "tail s'' = Some i" "same_keys (nodes s') (nodes s'')"
    "\<forall>fs. set fs \<inter> set ((as @ bs) @ [i]) = {} \<longrightarrow> freel (nodes s'') fs = freel (nodes s') fs"
    "lmap s'' = lmap s'" "free_head s'' = free_head s'"
    using attach_tail_nodes [OF D(1) _ _ D(2,3) i'] ds by auto
  have sk: "same_keys (nodes s) (nodes s'')" using D(5) s''(5) by (rule same_keys_trans)
  have bnd: "set (as @ i # bs) \<subseteq> {..<length (nodes s)}" using d(1) dll_bounds by blast
  have fr'': "freel (nodes s'') fs" using s''(6) ds D(6) by auto
  have rep: "lru_rep s'' (as @ bs @ [i]) fs"
    unfolding lru_rep_def
    using s'' D fr fr'' ds m sk bnd
    by (auto simp: same_keys_def)
  have "order s'' = map (key_at (nodes s)) (as @ bs @ [i])"
    using order_rep [OF rep] map_key_same [OF sk, of "as @ bs @ [i]"] bnd by auto
  moreover have "remove1 k (order s) = map (key_at (nodes s)) (as @ bs)"
    using order_rep [OF r] rep_distinct_order [OF r] remove1_map_split [of "key_at (nodes s)" as i bs] k
    by simp
  ultimately show ?thesis using s' s'' rep k by auto
qed

lemma alloc_node_rep:
  assumes r: "lru_rep s xs fs"
  shows "\<exists>s' i fs'. alloc_node s k = Some (s', i) \<and> i < length (nodes s')
    \<and> nodes s' ! i = Some \<lparr>key = k, prv = None, nxt = None\<rparr> \<and> dll (nodes s') None xs None
    \<and> head s' = head s \<and> tail s' = tail s \<and> freel (nodes s') fs' \<and> free_head s' = first_of fs' None
    \<and> distinct ((xs @ [i]) @ fs') \<and> lmap s' = lmap s
    \<and> (\<forall>j\<in>set xs. key_at (nodes s') j = key_at (nodes s) j)"
proof (cases fs)
  case Nil
  have "\<forall>j\<in>set xs. j < length (nodes s)" using r dll_bounds unfolding lru_rep_def by blast
  with r Nil show ?thesis
    by (intro exI [of _ "[]"] exI [of _ "length (nodes s)"] exI)
      (auto simp: lru_rep_def alloc_node_def Let_def dll_extend key_at_def nth_append)
next
  case (Cons f fs')
  with r have f: "f < length (nodes s)" "f \<notin> set xs" "f \<notin> set fs'" by (auto simp: lru_rep_def)
  with r Cons show ?thesis
    by (intro exI [of _ fs'] exI [of _ f] exI)
      (auto simp: lru_rep_def alloc_node_def Let_def dll_upd_other freel_upd_other key_at_def nth_list_update)
qed

lemma touch_new:
  assumes r: "lru_rep s xs fs" and k: "lmap s k = None"
  shows "\<exists>s' i fs'. touch s k = Some s' \<and> lru_rep s' (xs @ [i]) fs' \<and> order s' = order s @ [k]"
proof -
  obtain s1 i fs' where a: "alloc_node s k = Some (s1, i)" "i < length (nodes s1)"
    "nodes s1 ! i = Some \<lparr>key = k, prv = None, nxt = None\<rparr>" "dll (nodes s1) None xs None"
    "head s1 = head s" "tail s1 = tail s" "freel (nodes s1) fs'" "free_head s1 = first_of fs' None"
    "distinct ((xs @ [i]) @ fs')" "lmap s1 = lmap s"
    "\<forall>j\<in>set xs. key_at (nodes s1) j = key_at (nodes s) j"
    using alloc_node_rep [OF r] by blast
  have ht: "head s1 = first_of xs None" "tail s1 = last_of None xs"
    and m: "\<forall>k j. lmap s k = Some j \<longleftrightarrow> j \<in> set xs \<and> key_at (nodes s) j = k"
    using r a(5,6) by (simp_all add: lru_rep_def)
  obtain s2 where b: "attach_tail s1 i = Some s2" "dll (nodes s2) None (xs @ [i]) None"
    "head s2 = first_of (xs @ [i]) None" "tail s2 = Some i" "same_keys (nodes s1) (nodes s2)"
    "\<forall>fs. set fs \<inter> set (xs @ [i]) = {} \<longrightarrow> freel (nodes s2) fs = freel (nodes s1) fs"
    "lmap s2 = lmap s1" "free_head s2 = free_head s1"
    using attach_tail_nodes [OF a(4) _ _ ht a(2,3)] a(9) by auto
  have bnd: "\<forall>j\<in>set xs. j < length (nodes s1)" using a(4) dll_bounds by blast
  have keys: "\<forall>j\<in>set xs. key_at (nodes s2) j = key_at (nodes s) j" "key_at (nodes s2) i = k"
    using b(5) bnd a(2,3,11) by (auto simp: same_keys_def key_at_def)
  have fr: "freel (nodes s2) fs'" using b(6) a(7,9) by auto
  let ?s = "s2\<lparr>lmap := (lmap s2)(k \<mapsto> i)\<rparr>"
  have nk: "\<forall>j\<in>set xs. key_at (nodes s) j \<noteq> k" using rep_absent [OF r k] by blast
  have rep: "lru_rep ?s (xs @ [i]) fs'"
    unfolding lru_rep_def using a(8,9,10) b fr keys m nk by auto
  have "order ?s = order s @ [k]"
    using order_rep [OF rep] order_rep [OF r] keys by simp
  with a(1) b(1) rep k show ?thesis by (auto simp: touch_def)
qed

lemma touch_spec:
  assumes "lru_inv s"
  shows "\<exists>s'. touch s k = Some s' \<and> lru_inv s' \<and> order s' = remove1 k (order s) @ [k]"
proof -
  obtain xs fs where r: "lru_rep s xs fs" using assms by (auto simp: lru_inv_def)
  have m: "\<forall>k j. lmap s k = Some j \<longleftrightarrow> j \<in> set xs \<and> key_at (nodes s) j = k"
    and t: "tail s = last_of None xs" using r by (simp_all add: lru_rep_def)
  note o = order_rep [OF r]
  show ?thesis
  proof (cases "lmap s k")
    case None
    then have "k \<notin> set (order s)" by (rule rep_absent_order [OF r])
    with touch_new [OF r None] show ?thesis by (auto simp: lru_inv_def remove1_idem)
  next
    case (Some i)
    with m have i: "i \<in> set xs" "key_at (nodes s) i = k" by auto
    from split_list [OF i(1)] obtain as bs where xs: "xs = as @ i # bs" by blast
    show ?thesis
    proof (cases "tail s = Some i")
      case True
      have "distinct xs" using r by (simp add: lru_rep_def)
      with True t xs have "bs = []" by (cases bs rule: rev_cases) (auto simp: last_of_def)
      then have "order s = remove1 k (order s) @ [k]"
        using remove1_map_split [of "key_at (nodes s)" as i "[]"] rep_distinct_order [OF r] o xs i(2) by simp
      with True Some assms show ?thesis by (auto simp: touch_def)
    next
      case False
      obtain s' s'' where m: "detach s i = Some s'" "attach_tail s' i = Some s''"
        "lru_rep s'' (as @ bs @ [i]) fs" "order s'' = remove1 k (order s) @ [k]"
        using move_to_tail [of s as i bs fs k] r xs i by blast
      then have "lru_inv s''" unfolding lru_inv_def by blast
      with m False Some show ?thesis by (simp add: touch_def)
    qed
  qed
qed

lemma remove_spec:
  assumes "lru_inv s"
  shows "\<exists>s'. remove s k = Some s' \<and> lru_inv s' \<and> order s' = remove1 k (order s)"
proof -
  obtain xs fs where r: "lru_rep s xs fs" using assms by (auto simp: lru_inv_def)
  have m: "\<forall>k j. lmap s k = Some j \<longleftrightarrow> j \<in> set xs \<and> key_at (nodes s) j = k"
    using r by (simp add: lru_rep_def)
  show ?thesis
  proof (cases "lmap s k")
    case None
    then have "k \<notin> set (order s)" by (rule rep_absent_order [OF r])
    with None assms show ?thesis by (auto simp: remove_def remove1_idem)
  next
    case (Some i)
    with m have i: "i \<in> set xs" "key_at (nodes s) i = k" by auto
    from split_list [OF i(1)] obtain as bs where xs: "xs = as @ i # bs" by blast
    let ?s0 = "s\<lparr>lmap := (lmap s)(k := None)\<rparr>"
    from r xs have d: "dll (nodes ?s0) None (as @ i # bs) None" "distinct (as @ i # bs)"
      "head ?s0 = first_of (as @ i # bs) None" "tail ?s0 = last_of None (as @ i # bs)"
      and fr: "freel (nodes s) fs" "free_head s = first_of fs None" and ds: "distinct ((as @ i # bs) @ fs)"
      by (auto simp: lru_rep_def)
    obtain s1 where s1: "detach ?s0 i = Some s1" "detached ?s0 as i bs s1"
      using detach_nodes [OF d] by blast
    have D: "dll (nodes s1) None (as @ bs) None" "head s1 = first_of (as @ bs) None"
      "tail s1 = last_of None (as @ bs)" "i < length (nodes s1)" "same_keys (nodes s) (nodes s1)"
      "freel (nodes s1) fs" "lmap s1 = (lmap s)(k := None)" "free_head s1 = first_of fs None"
      using s1(2) ds fr by (auto simp: detached_def links_cleared_def)
    let ?s2 = "s1\<lparr>nodes := (nodes s1)[i := Some \<lparr>key = 0, prv = None, nxt = free_head s1\<rparr>], free_head := Some i\<rparr>"
    have bnd: "\<forall>j\<in>set xs. j < length (nodes s)" using r dll_bounds unfolding lru_rep_def by blast
    have keys: "\<forall>j\<in>set (as @ bs). key_at (nodes ?s2) j = key_at (nodes s) j"
      using D(5) bnd ds xs by (auto simp: same_keys_def key_at_def nth_list_update)
    have inj: "\<forall>j\<in>set (as @ bs). key_at (nodes s) j \<noteq> k"
      using rep_key_inj [OF r _ i(1)] i(2) ds xs by auto
    have rep: "lru_rep ?s2 (as @ bs) (i # fs)"
      unfolding lru_rep_def using D ds keys inj m xs i by (auto simp: dll_upd_other freel_upd_other)
    have "order ?s2 = map (key_at (nodes s)) (as @ bs)"
      using order_rep [OF rep] keys by simp
    also have "\<dots> = remove1 k (order s)"
      using remove1_map_split [of "key_at (nodes s)" as i bs] rep_distinct_order [OF r] order_rep [OF r] xs i
      by simp
    finally show ?thesis
      using s1(1) D(4) rep Some by (auto simp: remove_def free_node_def lru_inv_def)
  qed
qed

lemma each_spec: "lru_inv s \<Longrightarrow> each s stop = Some (find stop (order s))"
proof -
  assume "lru_inv s"
  then obtain xs fs where r: "lru_rep s xs fs" by (auto simp: lru_inv_def)
  then have d: "dll (nodes s) None xs None" "distinct xs" "head s = first_of xs None"
    by (auto simp: lru_rep_def)
  show ?thesis
    using walk_dll [OF d(1) dll_length [OF d(1,2)]] d(3) order_rep [OF r] by (simp add: each_def)
qed

lemma oldest_each: "oldest s skip = each s (\<lambda>k. k \<noteq> skip)"
  by (simp add: oldest_def each_def)

lemma lru_inv_new: "lru_inv new_lru" "order new_lru = []"
  by (auto simp: lru_inv_def lru_rep_def new_lru_def order_def intro!: exI [of _ "[]"])

lemma reset_new: "reset s = new_lru"
  by (simp add: reset_def new_lru_def)

lemma lru_inv_distinct: "lru_inv s \<Longrightarrow> distinct (order s)"
  using rep_distinct_order by (auto simp: lru_inv_def)

section \<open>The interface the cache uses\<close>

text \<open>
  A recency order: the keys it holds from least to most recently used, a \<open>touch\<close> that makes
  a key the most recent, a \<open>drop\<close> that forgets it and a \<open>scan\<close> that finds the oldest key that
  passes a test. All of them return a value (they do not panic) on a well-formed structure.
\<close>

locale recency =
  fixes inv :: "'s \<Rightarrow> bool"
    and ord :: "'s \<Rightarrow> int list"
    and touch' :: "'s \<Rightarrow> int \<Rightarrow> 's option"
    and drop' :: "'s \<Rightarrow> int \<Rightarrow> 's option"
    and scan :: "'s \<Rightarrow> (int \<Rightarrow> bool) \<Rightarrow> int option option"
  assumes ord_distinct: "inv s \<Longrightarrow> distinct (ord s)"
    and touch_law: "inv s \<Longrightarrow> \<exists>s'. touch' s k = Some s' \<and> inv s' \<and> ord s' = remove1 k (ord s) @ [k]"
    and drop_law: "inv s \<Longrightarrow> \<exists>s'. drop' s k = Some s' \<and> inv s' \<and> ord s' = remove1 k (ord s)"
    and scan_law: "inv s \<Longrightarrow> scan s stop = Some (find stop (ord s))"
begin

lemma touch_some:
  assumes "inv s" "touch' s k = Some s'"
  shows "inv s'" "ord s' = remove1 k (ord s) @ [k]" "set (ord s') = insert k (set (ord s))"
  using touch_law [OF assms(1), of k] assms(2) ord_distinct [OF assms(1)] by auto

lemma drop_some:
  assumes "inv s" "drop' s k = Some s'"
  shows "inv s'" "ord s' = remove1 k (ord s)" "set (ord s') = set (ord s) - {k}"
  using drop_law [OF assms(1), of k] assms(2) ord_distinct [OF assms(1)] by auto

lemma scan_found:
  assumes "inv s" "scan s stop = Some (Some k)"
  shows "k \<in> set (ord s)" "stop k"
    "\<exists>i<length (ord s). ord s ! i = k \<and> (\<forall>j<i. \<not> stop (ord s ! j))"
  using assms scan_law [OF assms(1), of stop] by (auto simp: find_Some_iff)

lemma scan_none: "inv s \<Longrightarrow> scan s stop = Some None \<Longrightarrow> k \<in> set (ord s) \<Longrightarrow> \<not> stop k"
  using scan_law [of s stop] by (auto simp: find_None_iff)

text \<open>After any sequence of touches and drops the structure holds each key at most once, and
  the key touched last is the most recent one.\<close>

lemma touch_run:
  "inv s \<Longrightarrow> \<exists>s'. foldl (\<lambda>acc k. case acc of None \<Rightarrow> None | Some t \<Rightarrow> touch' t k) (Some s) ks = Some s'
    \<and> inv s' \<and> set (ord s') = set (ord s) \<union> set ks \<and> (ks \<noteq> [] \<longrightarrow> last (ord s') = last ks)"
proof (induction ks arbitrary: s)
  case Nil
  then show ?case by simp
next
  case (Cons k ks)
  obtain s' where s': "touch' s k = Some s'" "inv s'" "ord s' = remove1 k (ord s) @ [k]"
    using touch_law [OF Cons.prems] by blast
  from Cons.IH [OF s'(2)] s' touch_some(3) [OF Cons.prems s'(1)] show ?case
    by (cases ks) auto
qed

end

interpretation lru: recency lru_inv order touch remove each
  by unfold_locales (simp_all add: lru_inv_distinct touch_spec remove_spec each_spec)

section \<open>Properties\<close>

definition two_piece_lru :: piece_lru where
  "two_piece_lru =
     \<lparr>lmap = [1 \<mapsto> 0, 2 \<mapsto> 1],
      nodes = [Some \<lparr>key = 1, prv = None, nxt = Some 1\<rparr>, Some \<lparr>key = 2, prv = Some 0, nxt = None\<rparr>],
      free_head = None, head = Some 0, tail = Some 1\<rparr>"

lemma two_piece_lru_inv: "lru_inv two_piece_lru" "order two_piece_lru = [1, 2]"
proof -
  have "lru_rep two_piece_lru [0, 1] []"
    by (auto simp: lru_rep_def two_piece_lru_def key_at_def last_of_def intro!: gr0I)
  then show "lru_inv two_piece_lru" "order two_piece_lru = [1, 2]"
    unfolding lru_inv_def by (blast, simp add: order_rep) (simp add: two_piece_lru_def key_at_def)
qed

text \<open>C17: On a well-formed structure \<open>touch\<close> never panics, keeps it well-formed and moves the
  key to the most recently used end, leaving the relative order of all other keys; \<open>remove\<close> drops
  exactly that key; \<open>oldest\<close> returns the first key in the order other than the skipped one.\<close>

theorem piece_lru_refines_list:
  assumes "lru_inv s"
  shows "(\<exists>s'. touch s k = Some s' \<and> lru_inv s' \<and> order s' = remove1 k (order s) @ [k])
    \<and> (\<exists>s'. remove s k = Some s' \<and> lru_inv s' \<and> order s' = remove1 k (order s))
    \<and> oldest s k = Some (find (\<lambda>x. x \<noteq> k) (order s))
    \<and> distinct (order s)"
  using lru.touch_law [OF assms] lru.drop_law [OF assms] lru.scan_law [OF assms] lru.ord_distinct [OF assms]
  by (simp add: oldest_each)

theorem piece_lru_refines_list_witness:
  "(\<exists>s'. touch two_piece_lru 1 = Some s' \<and> lru_inv s' \<and> order s' = [2, 1])
   \<and> (\<exists>s'. remove two_piece_lru 1 = Some s' \<and> lru_inv s' \<and> order s' = [2])
   \<and> oldest two_piece_lru 1 = Some (Some 2)"
  using piece_lru_refines_list [OF two_piece_lru_inv(1), of 1] two_piece_lru_inv(2) by simp

end
