(* ===== verification/Types.thy ===== *)
theory Types
  imports Prelude
begin

text \<open>
  Shared vocabulary of \<^verbatim>\<open>wt-types/src/lib.rs\<close>: the storage errors and the piece priorities, with the
  derived order of the priorities as an instance of the library's linear orders.
\<close>

datatype storage_error = Io string | Closed | Unavailable | Other string

datatype piece_priority = PNone | PNormal | PHigh | PReadahead | PNext | PNow

fun priority_rank :: "piece_priority \<Rightarrow> nat" where
  "priority_rank PNone = 0"
| "priority_rank PNormal = 1"
| "priority_rank PHigh = 2"
| "priority_rank PReadahead = 3"
| "priority_rank PNext = 4"
| "priority_rank PNow = 5"

lemma priority_rank_inj: "priority_rank p = priority_rank q \<longleftrightarrow> p = q"
  by (cases p; cases q) simp_all

instantiation piece_priority :: linorder
begin

definition less_eq_piece_priority :: "piece_priority \<Rightarrow> piece_priority \<Rightarrow> bool" where
  "less_eq_piece_priority p q \<longleftrightarrow> priority_rank p \<le> priority_rank q"

definition less_piece_priority :: "piece_priority \<Rightarrow> piece_priority \<Rightarrow> bool" where
  "less_piece_priority p q \<longleftrightarrow> priority_rank p < priority_rank q"

instance
  by standard (auto simp: less_eq_piece_priority_def less_piece_priority_def priority_rank_inj)

end

lemma PNone_least [simp]: "PNone \<le> p" "p \<le> PNow"
  by (cases p; simp add: less_eq_piece_priority_def)+

end
