(* ===== verification/FileMap.thy ===== *)
theory FileMap
  imports Ranges Types
begin

text \<open>
  The files of a torrent as one byte range (\<^verbatim>\<open>wt-storage/src/storage.rs\<close>,
  \<^verbatim>\<open>storage/write_back.rs\<close>, \<^verbatim>\<open>storage/layout.rs\<close>): finding the files a range of torrent bytes
  overlaps, planning positional reads and writes on them, and the locked read and write that cut a
  buffer along file boundaries. The operating system is a disk (contents by open file) together with
  the outcome of each write and read, which is a parameter: a write may stop after any prefix. The
  theorems relate all of it to the flat image of the torrent.
\<close>

section \<open>Model\<close>

text \<open>\<open>Arc<File>\<close> is a handle; two descriptors hold the same file when their handles are equal.\<close>

record file_descriptor =
  fd_file :: "nat option"
  fd_offset :: int
  fd_length :: int
  fd_path :: bytes
  fd_external :: bool

type_synonym disk = "nat \<Rightarrow> bytes"

text \<open>How a \<open>write_all_at\<close> ends: \<open>None\<close>, or the bytes accepted before the error and its message.\<close>

type_synonym write_outcome = "nat \<Rightarrow> nat \<Rightarrow> bytes \<Rightarrow> (nat \<times> string) option"

text \<open>How a \<open>read_exact_at\<close> ends: \<open>None\<close>, or the error's message.\<close>

type_synonym read_outcome = "nat \<Rightarrow> nat \<Rightarrow> nat \<Rightarrow> string option"

text \<open>A positional write: a gap past the end reads as zeros.\<close>

definition pwrite :: "bytes \<Rightarrow> nat \<Rightarrow> bytes \<Rightarrow> bytes" where
  "pwrite c pos d = (if d = [] then c else take pos (c @ replicate (pos - length c) 0) @ d @ drop (pos + length d) c)"

definition write_all_at :: "write_outcome \<Rightarrow> disk \<Rightarrow> nat \<Rightarrow> nat \<Rightarrow> bytes \<Rightarrow> disk \<times> (storage_error + unit)" where
  "write_all_at wo d h pos data =
     (case wo h pos data of
        None \<Rightarrow> (d(h := pwrite (d h) pos data), Inr ())
      | Some (n, e) \<Rightarrow> (d(h := pwrite (d h) pos (take n data)), Inl (Io e)))"

definition read_exact_at :: "read_outcome \<Rightarrow> disk \<Rightarrow> nat \<Rightarrow> nat \<Rightarrow> nat \<Rightarrow> storage_error + bytes" where
  "read_exact_at ro d h pos n =
     (case ro h pos n of
        Some e \<Rightarrow> Inl (Io e)
      | None \<Rightarrow>
          if pos + n > length (d h) then Inl (Io ''failed to fill whole buffer'')
          else Inr (slice pos (pos + n) (d h)))"

definition overlapping_file_range :: "file_descriptor list \<Rightarrow> int \<Rightarrow> int \<Rightarrow> nat \<times> nat" where
  "overlapping_file_range files start en =
     (let first = partition_point (\<lambda>f. fd_offset f + fd_length f \<le> start) files;
          last = first + partition_point (\<lambda>f. fd_offset f < en) (drop first files)
      in (first, last))"

definition files_overlapping :: "file_descriptor list \<Rightarrow> int \<Rightarrow> int \<Rightarrow> file_descriptor list" where
  "files_overlapping files start en =
     (let (first, last) = overlapping_file_range files start en in slice first last files)"

definition not_configured :: "file_descriptor \<Rightarrow> storage_error" where
  "not_configured f = Other (''storage for '' @ map (\<lambda>b. char_of (unat b)) (fd_path f) @ '' is not configured'')"

primrec plan_loop :: "file_descriptor list \<Rightarrow> int \<Rightarrow> int \<Rightarrow> (nat \<times> nat \<times> nat \<times> nat) list \<Rightarrow> nat
    \<Rightarrow> storage_error + (nat \<times> nat \<times> nat \<times> nat) list \<times> nat" where
  "plan_loop [] start en reads cnt = Inr (reads, cnt)"
| "plan_loop (f # fs) start en reads cnt =
     (let from = max start (fd_offset f); to = min en (fd_offset f + fd_length f) in
      if from \<ge> to then plan_loop fs start en reads cnt
      else case fd_file f of
        None \<Rightarrow> Inl (not_configured f)
      | Some h \<Rightarrow>
          (let lo = nat (from - start); hi = nat (to - start) in
           plan_loop fs start en (reads @ [(h, nat (from - fd_offset f), lo, hi)]) (cnt + (hi - lo))))"

definition plan_file_reads :: "file_descriptor list \<Rightarrow> int \<Rightarrow> nat \<Rightarrow> storage_error + (nat \<times> nat \<times> nat \<times> nat) list" where
  "plan_file_reads files start n =
     (let en = start + int n in
      case plan_loop (files_overlapping files start en) start en [] 0 of
        Inl e \<Rightarrow> Inl e
      | Inr (reads, cnt) \<Rightarrow> if cnt \<noteq> n then Inl (Other ''short read from files'') else Inr reads)"

primrec write_loop :: "write_outcome \<Rightarrow> disk \<Rightarrow> file_descriptor list \<Rightarrow> int \<Rightarrow> int \<Rightarrow> bytes \<Rightarrow> nat
    \<Rightarrow> disk \<times> (storage_error + nat)" where
  "write_loop wo d [] start en data cnt = (d, Inr cnt)"
| "write_loop wo d (f # fs) start en data cnt =
     (let from = max start (fd_offset f); to = min en (fd_offset f + fd_length f) in
      if from \<ge> to then write_loop wo d fs start en data cnt
      else case fd_file f of
        None \<Rightarrow> (d, Inl (not_configured f))
      | Some h \<Rightarrow>
          (let chunk = slice (nat (from - start)) (nat (to - start)) data in
           case write_all_at wo d h (nat (from - fd_offset f)) chunk of
             (d', Inl e) \<Rightarrow> (d', Inl e)
           | (d', Inr _) \<Rightarrow> write_loop wo d' fs start en data (cnt + length chunk)))"

definition write_to_files_locked :: "write_outcome \<Rightarrow> disk \<Rightarrow> file_descriptor list \<Rightarrow> int \<Rightarrow> bytes
    \<Rightarrow> disk \<times> (storage_error + nat)" where
  "write_to_files_locked wo d files start data =
     (let en = start + int (length data) in
      case write_loop wo d (files_overlapping files start en) start en data 0 of
        (d', Inl e) \<Rightarrow> (d', Inl e)
      | (d', Inr cnt) \<Rightarrow>
          if cnt \<noteq> length data then (d', Inl (Other ''short write to files'')) else (d', Inr cnt))"

text \<open>The buffer of the caller is filled in place; the loop carries it.\<close>

primrec read_loop :: "read_outcome \<Rightarrow> disk \<Rightarrow> file_descriptor list \<Rightarrow> int \<Rightarrow> int \<Rightarrow> bytes \<Rightarrow> nat
    \<Rightarrow> storage_error + bytes \<times> nat" where
  "read_loop ro d [] start en buf cnt = Inr (buf, cnt)"
| "read_loop ro d (f # fs) start en buf cnt =
     (let from = max start (fd_offset f); to = min en (fd_offset f + fd_length f) in
      if from \<ge> to then read_loop ro d fs start en buf cnt
      else case fd_file f of
        None \<Rightarrow> Inl (not_configured f)
      | Some h \<Rightarrow>
          (let lo = nat (from - start); hi = nat (to - start) in
           case read_exact_at ro d h (nat (from - fd_offset f)) (hi - lo) of
             Inl e \<Rightarrow> Inl e
           | Inr bs \<Rightarrow> read_loop ro d fs start en (pwrite buf lo bs) (cnt + (hi - lo))))"

definition read_from_files_locked :: "read_outcome \<Rightarrow> disk \<Rightarrow> file_descriptor list \<Rightarrow> int \<Rightarrow> bytes
    \<Rightarrow> storage_error + bytes \<times> nat" where
  "read_from_files_locked ro d files start buf =
     (let en = start + int (length buf) in
      case read_loop ro d (files_overlapping files start en) start en buf 0 of
        Inl e \<Rightarrow> Inl e
      | Inr (buf', cnt) \<Rightarrow>
          if cnt \<noteq> length buf then Inl (Other ''short read from files'') else Inr (buf', cnt))"

text \<open>A planned read, as \<open>read_piece_data_unlocked\<close> and \<open>fill_partial_slot_unlocked\<close> run it.\<close>

fun run_reads :: "read_outcome \<Rightarrow> disk \<Rightarrow> (nat \<times> nat \<times> nat \<times> nat) list \<Rightarrow> bytes \<Rightarrow> storage_error + bytes" where
  "run_reads ro d [] buf = Inr buf"
| "run_reads ro d ((h, pos, lo, hi) # rs) buf =
     (case read_exact_at ro d h pos (hi - lo) of
        Inl e \<Rightarrow> Inl e
      | Inr bs \<Rightarrow> run_reads ro d rs (pwrite buf lo bs))"

text \<open>\<open>PieceFlush::write\<close>: each write carries its buffer and the part of it to send.\<close>

fun flush_write :: "write_outcome \<Rightarrow> disk \<Rightarrow> (nat \<times> nat \<times> bytes \<times> nat \<times> nat) list
    \<Rightarrow> disk \<times> (storage_error + unit)" where
  "flush_write wo d [] = (d, Inr ())"
| "flush_write wo d ((h, pos, data, lo, hi) # ws) =
     (case write_all_at wo d h pos (slice lo hi data) of
        (d', Inl e) \<Rightarrow> (d', Inl e)
      | (d', Inr _) \<Rightarrow> flush_write wo d' ws)"

record file_span =
  sp_fd :: nat
  sp_offset :: int
  sp_length :: int

primrec byte_spans_loop :: "file_descriptor list \<Rightarrow> int \<Rightarrow> int \<Rightarrow> file_span list \<Rightarrow> file_span list option" where
  "byte_spans_loop [] start en spans = Some spans"
| "byte_spans_loop (f # fs) start en spans =
     (if fd_offset f + fd_length f \<le> start \<or> fd_offset f \<ge> en then byte_spans_loop fs start en spans
      else
        let from = max start (fd_offset f); to = min en (fd_offset f + fd_length f) in
        if from \<ge> to then byte_spans_loop fs start en spans
        else case fd_file f of
          None \<Rightarrow> None
        | Some h \<Rightarrow> byte_spans_loop fs start en
            (spans @ [\<lparr>sp_fd = h, sp_offset = from - fd_offset f, sp_length = to - from\<rparr>]))"

definition byte_spans_locked :: "file_descriptor list \<Rightarrow> int \<Rightarrow> int \<Rightarrow> file_span list option" where
  "byte_spans_locked files start en =
     (case byte_spans_loop files start en [] of
        None \<Rightarrow> None
      | Some spans \<Rightarrow> if spans = [] then None else Some spans)"

section \<open>The flat image\<close>

text \<open>Files in torrent order, each starting where the one before it ends.\<close>

fun layout_from :: "int \<Rightarrow> file_descriptor list \<Rightarrow> bool" where
  "layout_from base [] = True"
| "layout_from base (f # fs) = (fd_offset f = base \<and> 0 \<le> fd_length f \<and> layout_from (base + fd_length f) fs)"

definition span_total :: "file_descriptor list \<Rightarrow> int" where
  "span_total fs = sum_list (map fd_length fs)"

definition handle :: "file_descriptor \<Rightarrow> nat" where
  "handle f = the (fd_file f)"

text \<open>Every file is open, on a file of its own, which has its full length.\<close>

definition opened :: "disk \<Rightarrow> file_descriptor list \<Rightarrow> bool" where
  "opened d fs \<longleftrightarrow> distinct (map handle fs) \<and> (\<forall>f\<in>set fs. fd_file f \<noteq> None \<and> int (length (d (handle f))) = fd_length f)"

definition torrent_image :: "disk \<Rightarrow> file_descriptor list \<Rightarrow> bytes" where
  "torrent_image d fs = concat (map (\<lambda>f. d (handle f)) fs)"

text \<open>\<open>xs\<close> with \<open>ys\<close> laid over it at position \<open>a\<close>; what falls outside is cut off.\<close>

definition overlay :: "'a list \<Rightarrow> int \<Rightarrow> 'a list \<Rightarrow> 'a list" where
  "overlay xs a ys =
     map (\<lambda>i. if a \<le> int i \<and> int i < a + int (length ys) then ys ! nat (int i - a) else xs ! i) [0..<length xs]"

lemma length_overlay [simp]: "length (overlay xs a ys) = length xs"
  by (simp add: overlay_def)

lemma nth_overlay:
  "i < length xs \<Longrightarrow>
   overlay xs a ys ! i = (if a \<le> int i \<and> int i < a + int (length ys) then ys ! nat (int i - a) else xs ! i)"
  by (simp add: overlay_def)

lemma overlay_append:
  "overlay (xs @ ys) a zs = overlay xs a zs @ overlay ys (a - int (length xs)) zs"
proof (rule nth_equalityI)
  fix i assume i: "i < length (overlay (xs @ ys) a zs)"
  show "overlay (xs @ ys) a zs ! i = (overlay xs a zs @ overlay ys (a - int (length xs)) zs) ! i"
  proof (cases "i < length xs")
    case True
    then show ?thesis by (simp add: nth_append nth_overlay)
  next
    case False
    then have "int i - a = int (i - length xs) - (a - int (length xs))" by simp
    then show ?thesis using False i by (auto simp: nth_append nth_overlay)
  qed
qed simp

lemma overlay_outside: "a + int (length ys) \<le> 0 \<or> int (length xs) \<le> a \<Longrightarrow> overlay xs a ys = xs"
  by (rule nth_equalityI) (auto simp: nth_overlay)

lemma overlay_Nil [simp]: "overlay xs a [] = xs" "overlay [] a ys = []"
  by (rule nth_equalityI, auto simp: nth_overlay)+

lemma overlay_source:
  "overlay xs a (ys @ zs) = overlay (overlay xs a ys) (a + int (length ys)) zs"
  by (rule nth_equalityI) (auto simp: nth_overlay nth_append nat_diff_distrib' intro!: arg_cong [of _ _ "(!) zs"])

lemma overlay_inside:
  assumes "0 \<le> a" "a + int (length ys) \<le> int (length xs)"
  shows "overlay xs a ys = take (nat a) xs @ ys @ drop (nat a + length ys) xs"
  using assms by (intro nth_equalityI) (auto simp: nth_overlay nth_append nat_diff_distrib min_def)

lemma pwrite_overlay:
  assumes "pos + length ys \<le> length xs"
  shows "pwrite xs pos ys = overlay xs (int pos) ys"
  using assms by (auto simp: pwrite_def overlay_inside)

text \<open>A part of a buffer written at its own place.\<close>

lemma overlay_slice:
  assumes "lo \<le> hi" "hi \<le> length ys" "a + int lo \<le> 0 \<or> lo = 0" "int (length xs) \<le> a + int hi \<or> hi = length ys"
  shows "overlay xs (a + int lo) (slice lo hi ys) = overlay xs a ys"
  using assms
  by (intro nth_equalityI) (auto simp: nth_overlay slice_def nat_diff_distrib' nat_add_distrib intro!: arg_cong [of _ _ "(!) ys"])

section \<open>Files outside the range\<close>

definition idle :: "int \<Rightarrow> int \<Rightarrow> file_descriptor \<Rightarrow> bool" where
  "idle start en f \<longleftrightarrow> min en (fd_offset f + fd_length f) \<le> max start (fd_offset f)"

definition part_at :: "int \<Rightarrow> file_descriptor \<Rightarrow> nat" where
  "part_at start f = nat (max start (fd_offset f) - fd_offset f)"

definition part_lo :: "int \<Rightarrow> file_descriptor \<Rightarrow> nat" where
  "part_lo start f = nat (max start (fd_offset f) - start)"

definition part_hi :: "int \<Rightarrow> int \<Rightarrow> file_descriptor \<Rightarrow> nat" where
  "part_hi start en f = nat (min en (fd_offset f + fd_length f) - start)"

lemma plan_loop_Cons:
  "plan_loop (f # fs) start en reads cnt =
     (if idle start en f then plan_loop fs start en reads cnt
      else case fd_file f of
        None \<Rightarrow> Inl (not_configured f)
      | Some h \<Rightarrow> plan_loop fs start en (reads @ [(h, part_at start f, part_lo start f, part_hi start en f)])
                    (cnt + (part_hi start en f - part_lo start f)))"
  by (simp only: plan_loop.simps idle_def part_at_def part_lo_def part_hi_def Let_def)

lemma write_loop_Cons:
  "write_loop wo d (f # fs) start en data cnt =
     (if idle start en f then write_loop wo d fs start en data cnt
      else case fd_file f of
        None \<Rightarrow> (d, Inl (not_configured f))
      | Some h \<Rightarrow>
          (case write_all_at wo d h (part_at start f) (slice (part_lo start f) (part_hi start en f) data) of
             (d', Inl e) \<Rightarrow> (d', Inl e)
           | (d', Inr _) \<Rightarrow> write_loop wo d' fs start en data
               (cnt + length (slice (part_lo start f) (part_hi start en f) data))))"
  by (simp only: write_loop.simps idle_def part_at_def part_lo_def part_hi_def Let_def)

lemma read_loop_Cons:
  "read_loop ro d (f # fs) start en buf cnt =
     (if idle start en f then read_loop ro d fs start en buf cnt
      else case fd_file f of
        None \<Rightarrow> Inl (not_configured f)
      | Some h \<Rightarrow>
          (case read_exact_at ro d h (part_at start f) (part_hi start en f - part_lo start f) of
             Inl e \<Rightarrow> Inl e
           | Inr bs \<Rightarrow> read_loop ro d fs start en (pwrite buf (part_lo start f) bs)
               (cnt + (part_hi start en f - part_lo start f))))"
  by (simp only: read_loop.simps idle_def part_at_def part_lo_def part_hi_def Let_def)

declare plan_loop.simps(2) [simp del] write_loop.simps(2) [simp del] read_loop.simps(2) [simp del]

lemmas loop_Cons = plan_loop_Cons write_loop_Cons read_loop_Cons

lemma idle_left:
  assumes "\<forall>f\<in>set xs. idle start en f"
  shows "plan_loop (xs @ ys) start en reads cnt = plan_loop ys start en reads cnt"
    "write_loop wo d (xs @ ys) start en data cnt = write_loop wo d ys start en data cnt"
    "read_loop ro d (xs @ ys) start en buf cnt = read_loop ro d ys start en buf cnt"
  using assms by (induction xs) (simp_all add: loop_Cons)

lemma idle_right:
  assumes "\<forall>f\<in>set zs. idle start en f"
  shows "plan_loop (ys @ zs) start en reads cnt = plan_loop ys start en reads cnt"
    "write_loop wo d (ys @ zs) start en data cnt = write_loop wo d ys start en data cnt"
    "read_loop ro d (ys @ zs) start en buf cnt = read_loop ro d ys start en buf cnt"
proof -
  note nil = idle_left [OF assms, where ys = "[]", simplified]
  show "plan_loop (ys @ zs) start en reads cnt = plan_loop ys start en reads cnt"
    by (induction ys arbitrary: reads cnt) (simp_all add: nil loop_Cons split: option.split)
  show "write_loop wo d (ys @ zs) start en data cnt = write_loop wo d ys start en data cnt"
    by (induction ys arbitrary: d cnt) (simp_all add: nil loop_Cons split: option.split sum.split prod.split)
  show "read_loop ro d (ys @ zs) start en buf cnt = read_loop ro d ys start en buf cnt"
    by (induction ys arbitrary: buf cnt) (simp_all add: nil loop_Cons split: option.split sum.split)
qed

lemma layout_from_lower: "layout_from b fs \<Longrightarrow> f \<in> set fs \<Longrightarrow> b \<le> fd_offset f"
  by (induction fs arbitrary: b) fastforce+

lemma layout_from_append:
  "layout_from b (xs @ ys) \<longleftrightarrow> layout_from b xs \<and> layout_from (b + span_total xs) ys"
  by (induction xs arbitrary: b) (auto simp: span_total_def algebra_simps)

lemma layout_dropWhile:
  assumes "layout_from b fs" "f \<in> set (dropWhile (\<lambda>f. fd_offset f < en) fs)"
  shows "en \<le> fd_offset f"
  using assms
proof (induction fs arbitrary: b)
  case (Cons g gs)
  show ?case
  proof (cases "fd_offset g < en")
    case True
    then show ?thesis using Cons.IH [of "b + fd_length g"] Cons.prems by simp
  next
    case False
    then show ?thesis using layout_from_lower [OF Cons.prems(1)] Cons.prems by (fastforce split: if_splits)
  qed
qed simp

lemma files_overlapping_split:
  assumes "layout_from b files"
  obtains pre post where "files = pre @ files_overlapping files start en @ post"
    "\<forall>f\<in>set pre. idle start en f" "\<forall>f\<in>set post. idle start en f"
proof -
  let ?P = "\<lambda>f. fd_offset f + fd_length f \<le> start" and ?Q = "\<lambda>f. fd_offset f < en"
  have split: "files = takeWhile ?P files @ dropWhile ?P files" by simp
  have o: "files_overlapping files start en = takeWhile ?Q (dropWhile ?P files)"
    by (simp add: files_overlapping_def overlapping_file_range_def partition_point_def Let_def slice_def
        dropWhile_eq_drop [symmetric] takeWhile_eq_take [symmetric])
  have "layout_from (b + span_total (takeWhile ?P files)) (dropWhile ?P files)"
    using assms layout_from_append [of b "takeWhile ?P files" "dropWhile ?P files"] by simp
  then have "\<forall>f\<in>set (dropWhile ?Q (dropWhile ?P files)). idle start en f"
    using layout_dropWhile by (fastforce simp: idle_def)
  moreover have "\<forall>f\<in>set (takeWhile ?P files). idle start en f"
    using set_takeWhileD by (fastforce simp: idle_def)
  moreover have "files = takeWhile ?P files @ files_overlapping files start en @ dropWhile ?Q (dropWhile ?P files)"
    unfolding o by simp
  ultimately show ?thesis using that by blast
qed

lemma loops_all_files:
  assumes "layout_from b files"
  shows "plan_loop (files_overlapping files start en) start en reads cnt = plan_loop files start en reads cnt"
    "write_loop wo d (files_overlapping files start en) start en data cnt = write_loop wo d files start en data cnt"
    "read_loop ro d (files_overlapping files start en) start en buf cnt = read_loop ro d files start en buf cnt"
proof -
  obtain pre post where s: "files = pre @ files_overlapping files start en @ post"
    "\<forall>f\<in>set pre. idle start en f" "\<forall>f\<in>set post. idle start en f"
    using files_overlapping_split [OF assms] .
  show "plan_loop (files_overlapping files start en) start en reads cnt = plan_loop files start en reads cnt"
    by (subst (2) s(1)) (simp add: idle_left [OF s(2)] idle_right [OF s(3)])
  show "write_loop wo d (files_overlapping files start en) start en data cnt = write_loop wo d files start en data cnt"
    by (subst (2) s(1)) (simp add: idle_left [OF s(2)] idle_right [OF s(3)])
  show "read_loop ro d (files_overlapping files start en) start en buf cnt = read_loop ro d files start en buf cnt"
    by (subst (2) s(1)) (simp add: idle_left [OF s(2)] idle_right [OF s(3)])
qed

section \<open>Writing through the files\<close>

definition overlap_len :: "int \<Rightarrow> file_descriptor list \<Rightarrow> int \<Rightarrow> int \<Rightarrow> nat" where
  "overlap_len b fs start en = nat (min en (b + span_total fs) - max start b)"

lemma span_total_nonneg: "layout_from b fs \<Longrightarrow> 0 \<le> span_total fs"
  by (induction fs arbitrary: b) (auto simp: span_total_def)

lemma overlap_len_Cons:
  assumes "layout_from b (f # fs)" "start \<le> en"
  shows "overlap_len b (f # fs) start en =
    nat (min en (b + fd_length f) - max start b) + overlap_len (b + fd_length f) fs start en"
proof -
  have "0 \<le> fd_length f" "0 \<le> span_total fs" using assms span_total_nonneg by auto
  moreover have "span_total (f # fs) = fd_length f + span_total fs" by (simp add: span_total_def)
  ultimately show ?thesis using assms(2) unfolding overlap_len_def by linarith
qed

text \<open>One file: it ends with the whole buffer laid over it, or with a prefix on an error.\<close>

lemma write_part:
  assumes o: "lo \<le> hi" "hi \<le> length data" "int pos = a + int lo" "a + int lo \<le> 0 \<or> lo = 0"
    "int (length (d h)) \<le> a + int hi \<or> hi = length data" "pos + (hi - lo) \<le> length (d h)"
    and w: "write_all_at wo d h pos (slice lo hi data) = (d', r)"
  shows "(r = Inr () \<and> d' = d(h := overlay (d h) a data)) \<or>
    (\<exists>e k. r = Inl e \<and> wo h pos (slice lo hi data) \<noteq> None \<and> lo \<le> k \<and> k \<le> hi \<and> d' = d(h := overlay (d h) a (take k data)))"
proof -
  have part: "pwrite (d h) pos (slice lo k data) = overlay (d h) a (take k data)" if k: "lo \<le> k" "k \<le> hi" for k
  proof -
    have s: "slice lo k data = slice lo k (take k data)" by (simp add: slice_def drop_take)
    have l: "length (take k data) = k" using k o(2) by simp
    have "length (slice lo k data) = k - lo" using k o(2) by (simp add: slice_def)
    then have "pos + length (slice lo k data) \<le> length (d h)" using k o(6) by linarith
    then have "pwrite (d h) pos (slice lo k data) = overlay (d h) (a + int lo) (slice lo k (take k data))"
      using pwrite_overlay s o(3) by metis
    also have "\<dots> = overlay (d h) a (take k data)"
      using overlay_slice [of lo k "take k data" a "d h"] k l o(4) by simp
    finally show ?thesis .
  qed
  have full: "overlay (d h) a (take hi data) = overlay (d h) a data"
    using overlay_slice [of 0 hi data a "d h"] o(2,5) by (simp add: slice_def)
  have cut: "take n (slice lo hi data) = slice lo (min (lo + n) hi) data" for n
    using o(1) by (auto simp: slice_def min_def)
  show ?thesis
  proof (cases "wo h pos (slice lo hi data)")
    case None
    then show ?thesis using w part [OF o(1) order_refl] full by (simp add: write_all_at_def)
  next
    case (Some ne)
    obtain n e where ne: "ne = (n, e)" by (cases ne)
    let ?k = "min (lo + n) hi"
    have k: "lo \<le> ?k" "?k \<le> hi" using o(1) by simp_all
    have "r = Inl (Io e)" "d' = d(h := overlay (d h) a (take ?k data))"
      using w Some ne part [OF k] by (simp_all add: write_all_at_def cut)
    then show ?thesis using Some k by blast
  qed
qed

lemma part_bounds:
  assumes "\<not> idle start en f" "en = start + int n" "int m = fd_length f"
  shows "part_lo start f \<le> part_hi start en f" "part_hi start en f \<le> n"
    "int (part_at start f) = start - fd_offset f + int (part_lo start f)"
    "start - fd_offset f + int (part_lo start f) \<le> 0 \<or> part_lo start f = 0"
    "int m \<le> start - fd_offset f + int (part_hi start en f) \<or> part_hi start en f = n"
    "part_at start f + (part_hi start en f - part_lo start f) \<le> m"
    "fd_offset f - start \<le> int (part_lo start f)"
    "int (part_hi start en f) \<le> fd_offset f + fd_length f - start"
    "part_hi start en f - part_lo start f = nat (min en (fd_offset f + fd_length f) - max start (fd_offset f))"
    "part_at start f = 0 \<or> part_lo start f = 0"
    "part_at start f + (part_hi start en f - part_lo start f) = m \<or> part_hi start en f = n"
proof -
  define lw up where "lw = max start (fd_offset f)" and "up = min en (fd_offset f + fd_length f)"
  have act: "lw < up" using assms(1) unfolding idle_def lw_def up_def by (rule not_le_imp_less)
  have lw: "start \<le> lw" "fd_offset f \<le> lw" "lw = start \<or> lw = fd_offset f" by (auto simp: lw_def)
  have up: "up \<le> en" "up \<le> fd_offset f + fd_length f" "up = en \<or> up = fd_offset f + fd_length f" by (auto simp: up_def)
  have parts: "int (part_at start f) = lw - fd_offset f" "int (part_lo start f) = lw - start"
    "int (part_hi start en f) = up - start"
    using act lw by (simp_all add: part_at_def part_lo_def part_hi_def lw_def [symmetric] up_def [symmetric])
  show le: "part_lo start f \<le> part_hi start en f" using parts act by linarith
  show "part_hi start en f \<le> n" using parts up(1) assms(2) by linarith
  show "int (part_at start f) = start - fd_offset f + int (part_lo start f)" using parts by linarith
  show "start - fd_offset f + int (part_lo start f) \<le> 0 \<or> part_lo start f = 0"
    using parts lw(3) by linarith
  show "int m \<le> start - fd_offset f + int (part_hi start en f) \<or> part_hi start en f = n"
    using parts up(3) assms(2,3) by linarith
  show "part_at start f + (part_hi start en f - part_lo start f) \<le> m"
    using parts le up(2) assms(3) by linarith
  show "fd_offset f - start \<le> int (part_lo start f)" using parts lw by linarith
  show "int (part_hi start en f) \<le> fd_offset f + fd_length f - start" using parts up by linarith
  show "part_hi start en f - part_lo start f = nat (min en (fd_offset f + fd_length f) - max start (fd_offset f))"
    unfolding lw_def [symmetric] up_def [symmetric] using parts le by linarith
  show "part_at start f = 0 \<or> part_lo start f = 0" using parts lw(3) by linarith
  show "part_at start f + (part_hi start en f - part_lo start f) = m \<or> part_hi start en f = n"
    using parts le up(3) assms(2,3) by linarith
qed

lemma write_chunk:
  assumes len: "int (length (d h)) = fd_length f" and en: "en = start + int (length data)" and act: "\<not> idle start en f"
    and w: "write_all_at wo d h (part_at start f) (slice (part_lo start f) (part_hi start en f) data) = (d', r)"
  shows "(r = Inr () \<and> d' = d(h := overlay (d h) (start - fd_offset f) data)) \<or>
    (\<exists>e k. r = Inl e \<and> (\<exists>h pos c. wo h pos c \<noteq> None) \<and> k \<le> length data \<and> fd_offset f - start \<le> int k \<and>
      int k \<le> fd_offset f + fd_length f - start \<and> d' = d(h := overlay (d h) (start - fd_offset f) (take k data)))"
proof -
  note o = part_bounds [OF act en len]
  have b: "k \<le> length data" "fd_offset f - start \<le> int k" "int k \<le> fd_offset f + fd_length f - start"
    if "part_lo start f \<le> k" "k \<le> part_hi start en f" for k
    using that o(2,7,8) by linarith+
  from write_part [where a = "start - fd_offset f" and d = d and h = h, OF o(1-6) w]
  show ?thesis using b by blast
qed

lemma opened_Cons:
  "opened d (f # fs) \<longleftrightarrow>
     fd_file f = Some (handle f) \<and> handle f \<notin> handle ` set fs \<and> int (length (d (handle f))) = fd_length f \<and> opened d fs"
  by (auto simp: opened_def handle_def)

lemma opened_upd: "h \<notin> handle ` set fs \<Longrightarrow> opened (d(h := c)) fs = opened d fs"
  by (induction fs) (auto simp: opened_Cons opened_def)

lemma image_upd: "h \<notin> handle ` set fs \<Longrightarrow> torrent_image (d(h := c)) fs = torrent_image d fs"
  by (induction fs) (auto simp: torrent_image_def)

lemma image_Cons [simp]: "torrent_image d (f # fs) = d (handle f) @ torrent_image d fs"
  by (simp add: torrent_image_def)

lemma image_length: "opened d fs \<Longrightarrow> int (length (torrent_image d fs)) = span_total fs"
  by (induction fs) (auto simp: opened_Cons span_total_def torrent_image_def opened_def)

lemma overlay_take: "int (length xs) \<le> a + int k \<Longrightarrow> overlay xs a (take k ys) = overlay xs a ys"
  by (rule nth_equalityI) (auto simp: nth_overlay min_def)

text \<open>What a run of the write loop leaves: a prefix of the buffer, laid over the image.\<close>

definition wrote :: "write_outcome \<Rightarrow> disk \<Rightarrow> file_descriptor list \<Rightarrow> int \<Rightarrow> int \<Rightarrow> int \<Rightarrow> bytes \<Rightarrow> nat
    \<Rightarrow> disk \<times> (storage_error + nat) \<Rightarrow> bool" where
  "wrote wo d fs b start en data cnt R \<longleftrightarrow>
     (\<exists>k \<le> length data. (b - start \<le> int k \<or> k = length data) \<and>
        torrent_image (fst R) fs = overlay (torrent_image d fs) (start - b) (take k data) \<and> opened (fst R) fs \<and>
        (\<forall>h. h \<notin> handle ` set fs \<longrightarrow> fst R h = d h) \<and>
        (case snd R of
           Inl e \<Rightarrow> \<exists>h pos c. wo h pos c \<noteq> None
         | Inr c \<Rightarrow> k = length data \<and> c = cnt + overlap_len b fs start en))"

lemma wrote_Cons:
  assumes lay: "layout_from b (f # fs)" and op: "opened d (f # fs)" and en: "en = start + int (length data)"
    and d': "d' = d(handle f := overlay (d (handle f)) (start - b) data)"
    and IH: "wrote wo d' fs (b + fd_length f) start en data (cnt + nat (min en (b + fd_length f) - max start b)) R"
  shows "wrote wo d (f # fs) b start en data cnt R"
proof -
  let ?h = "handle f"
  have h: "?h \<notin> handle ` set fs" "int (length (d ?h)) = fd_length f" "0 \<le> fd_length f"
    using op lay by (auto simp: opened_Cons)
  obtain k where k: "k \<le> length data" "b + fd_length f - start \<le> int k \<or> k = length data"
    "torrent_image (fst R) fs = overlay (torrent_image d' fs) (start - (b + fd_length f)) (take k data)"
    "opened (fst R) fs" "\<forall>h. h \<notin> handle ` set fs \<longrightarrow> fst R h = d' h"
    "case snd R of Inl e \<Rightarrow> \<exists>h pos c. wo h pos c \<noteq> None
      | Inr c \<Rightarrow> k = length data \<and> c = cnt + nat (min en (b + fd_length f) - max start b) + overlap_len (b + fd_length f) fs start en"
    using IH unfolding wrote_def by blast
  have fh: "fst R ?h = overlay (d ?h) (start - b) data" using k(5) h(1) d' by simp
  also have "\<dots> = overlay (d ?h) (start - b) (take k data)"
    using k(2) h(2) overlay_take [of "d ?h" "start - b" k data] by fastforce
  finally have "torrent_image (fst R) (f # fs) = overlay (torrent_image d (f # fs)) (start - b) (take k data)"
    using k(3) h(1,2) by (simp add: d' image_upd overlay_append diff_diff_eq)
  moreover have "opened (fst R) (f # fs)" using k(4) op fh by (simp add: opened_Cons)
  moreover have "b - start \<le> int k \<or> k = length data" using k(2) h(3) by linarith
  moreover have "\<forall>h. h \<notin> handle ` set (f # fs) \<longrightarrow> fst R h = d h" using k(5) d' by simp
  moreover have "overlap_len b (f # fs) start en
      = nat (min en (b + fd_length f) - max start b) + overlap_len (b + fd_length f) fs start en"
    using overlap_len_Cons [OF lay] en by simp
  ultimately show ?thesis
    unfolding wrote_def using k(1,6) by (intro exI [of _ k]) (auto split: sum.splits)
qed

lemma wrote_failed:
  assumes op: "opened d (f # fs)" and e: "\<exists>h pos c. wo h pos c \<noteq> None" and k: "k \<le> length data" "b - start \<le> int k" "int k \<le> b + fd_length f - start"
  shows "wrote wo d (f # fs) b start en data cnt (d(handle f := overlay (d (handle f)) (start - b) (take k data)), Inl e')"
proof -
  have h: "handle f \<notin> handle ` set fs" "int (length (d (handle f))) = fd_length f" using op by (auto simp: opened_Cons)
  have "overlay (torrent_image d fs) (start - b - fd_length f) (take k data) = torrent_image d fs"
    using k by (intro overlay_outside) simp
  then show ?thesis
    unfolding wrote_def using op e k h
    by (intro exI [of _ k]) (simp add: overlay_append image_upd opened_Cons opened_upd)
qed

lemma idle_keeps:
  assumes "idle start en f" "en = start + int (length data)" "int (length c) = fd_length f"
  shows "overlay c (start - fd_offset f) data = c"
proof (cases "data = [] \<or> c = []")
  case False
  then have "0 < int (length data)" "0 < int (length c)" by simp_all
  then show ?thesis using assms by (intro overlay_outside) (unfold idle_def, linarith)
qed auto

lemma write_loop_wrote:
  assumes "layout_from b fs" "opened d fs" "en = start + int (length data)"
  shows "wrote wo d fs b start en data cnt (write_loop wo d fs start en data cnt)"
  using assms
proof (induction fs arbitrary: b d cnt)
  case Nil
  then show ?case by (auto simp: wrote_def torrent_image_def overlap_len_def span_total_def)
next
  case (Cons f fs)
  let ?h = "handle f"
  have b: "fd_offset f = b" and lay: "layout_from (b + fd_length f) fs" using Cons.prems(1) by auto
  have h: "fd_file f = Some ?h" "?h \<notin> handle ` set fs" "int (length (d ?h)) = fd_length f" "opened d fs"
    using Cons.prems(2) by (auto simp: opened_Cons)
  show ?case
  proof (cases "idle start en f")
    case True
    then have "d = d(?h := overlay (d ?h) (start - b) data)"
      using idle_keeps [OF True Cons.prems(3) h(3)] b by simp
    moreover have "nat (min en (b + fd_length f) - max start b) = 0" using True b by (simp add: idle_def)
    ultimately show ?thesis
      using wrote_Cons [OF Cons.prems, of d wo cnt] Cons.IH [OF lay h(4) Cons.prems(3), of cnt] True
      by (simp add: write_loop_Cons)
  next
    case False
    let ?c = "slice (part_lo start f) (part_hi start en f) data"
    obtain d' r where w: "write_all_at wo d ?h (part_at start f) ?c = (d', r)" by fastforce
    note o = part_bounds [OF False Cons.prems(3) h(3)]
    have n: "length ?c = nat (min en (b + fd_length f) - max start b)" using o(2,9) b by simp
    note c = write_chunk [OF h(3) Cons.prems(3) False w, unfolded b]
    then show ?thesis
    proof (elim disjE exE conjE)
      assume all: "r = Inr ()" "d' = d(?h := overlay (d ?h) (start - b) data)"
      have "opened d' fs" using h(2,4) all(2) by (simp add: opened_upd)
      from wrote_Cons [OF Cons.prems all(2) Cons.IH [OF lay this Cons.prems(3)]]
      show ?thesis using False h(1) w all(1) n by (simp add: write_loop_Cons)
    next
      fix e k h' pos c
      assume part: "r = Inl e" "wo h' pos c \<noteq> None" "k \<le> length data" "b - start \<le> int k"
        "int k \<le> b + fd_length f - start" "d' = d(?h := overlay (d ?h) (start - b) (take k data))"
      have "\<exists>h pos c. wo h pos c \<noteq> None" using part(2) by blast
      from wrote_failed [OF Cons.prems(2) this part(3-5), of en cnt e] show ?thesis
        using False h(1) w part(1,6) by (simp add: write_loop_Cons)
    qed
  qed
qed

section \<open>Reading through the files\<close>

lemma read_part:
  assumes "int lo = b - start + int pos" "pos + n \<le> length c" "lo + n \<le> length buf"
    "pos = 0 \<or> lo = 0" "pos + n = length c \<or> lo + n = length buf"
  shows "pwrite buf lo (slice pos (pos + n) c) = overlay buf (b - start) c"
proof -
  have n: "length (slice pos (pos + n) c) = n" using assms(2) by simp
  have "pwrite buf lo (slice pos (pos + n) c) = overlay buf (b - start + int pos) (slice pos (pos + n) c)"
    using pwrite_overlay [of lo "slice pos (pos + n) c" buf] assms(1,3) n by simp
  also have "\<dots> = overlay buf (b - start) c"
    using assms by (intro overlay_slice) linarith+
  finally show ?thesis .
qed

lemma idle_keeps_buf:
  assumes "idle start en f" "en = start + int (length buf)" "int (length c) = fd_length f"
  shows "overlay buf (fd_offset f - start) c = buf"
proof (cases "buf = [] \<or> c = []")
  case False
  then have "0 < int (length buf)" "0 < int (length c)" by simp_all
  then show ?thesis using assms by (intro overlay_outside) (unfold idle_def, linarith)
qed auto

lemma read_loop_image:
  assumes "layout_from b fs" "opened d fs" "en = start + int (length buf)" "\<forall>h pos n. ro h pos n = None"
  shows "read_loop ro d fs start en buf cnt =
    Inr (overlay buf (b - start) (torrent_image d fs), cnt + overlap_len b fs start en)"
  using assms(1-3)
proof (induction fs arbitrary: b buf cnt)
  case Nil
  then show ?case by (simp add: torrent_image_def overlap_len_def span_total_def)
next
  case (Cons f fs)
  let ?h = "handle f"
  have b: "fd_offset f = b" and lay: "layout_from (b + fd_length f) fs" using Cons.prems(1) by auto
  have h: "fd_file f = Some ?h" "int (length (d ?h)) = fd_length f" "opened d fs"
    using Cons.prems(2) by (auto simp: opened_Cons)
  have ov: "overlap_len b (f # fs) start en
      = nat (min en (b + fd_length f) - max start b) + overlap_len (b + fd_length f) fs start en"
    using overlap_len_Cons [OF Cons.prems(1)] Cons.prems(3) by simp
  let ?buf = "overlay buf (b - start) (d ?h)"
  have "overlay ?buf (b + fd_length f - start) (torrent_image d fs) = overlay buf (b - start) (torrent_image d (f # fs))"
    using h(2) by (simp add: overlay_source algebra_simps)
  then have IH: "read_loop ro d fs start en ?buf c
      = Inr (overlay buf (b - start) (torrent_image d (f # fs)), c + overlap_len (b + fd_length f) fs start en)" for c
    using Cons.IH [OF lay h(3), of ?buf c] Cons.prems(3) by simp
  show ?case
  proof (cases "idle start en f")
    case True
    have "?buf = buf" using idle_keeps_buf [OF True Cons.prems(3) h(2)] b by simp
    moreover have "nat (min en (b + fd_length f) - max start b) = 0" using True b by (simp add: idle_def)
    ultimately show ?thesis using True IH [of cnt] ov by (simp add: read_loop_Cons)
  next
    case False
    let ?n = "part_hi start en f - part_lo start f"
    note o = part_bounds [OF False Cons.prems(3) h(2), unfolded b]
    have r: "read_exact_at ro d ?h (part_at start f) ?n = Inr (slice (part_at start f) (part_at start f + ?n) (d ?h))"
      using o(6) assms(4) by (simp add: read_exact_at_def)
    have "pwrite buf (part_lo start f) (slice (part_at start f) (part_at start f + ?n) (d ?h)) = ?buf"
      using o by (intro read_part) linarith+
    then show ?thesis
      using False h(1) r IH [of "cnt + ?n"] ov o(9) by (simp add: read_loop_Cons)
  qed
qed

section \<open>Planned input and output\<close>

lemma plan_loop_acc:
  "plan_loop fs start en reads cnt =
     (case plan_loop fs start en [] 0 of Inl e \<Rightarrow> Inl e | Inr (ps, n) \<Rightarrow> Inr (reads @ ps, cnt + n))"
proof (induction fs arbitrary: reads cnt)
  case (Cons f fs)
  show ?case
  proof (cases "idle start en f \<or> fd_file f = None")
    case True
    then show ?thesis using Cons [of reads cnt] by (auto simp: plan_loop_Cons)
  next
    case False
    then obtain h where "fd_file f = Some h" by auto
    then show ?thesis
      using False Cons [of "reads @ [(h, part_at start f, part_lo start f, part_hi start en f)]"]
        Cons [of "[(h, part_at start f, part_lo start f, part_hi start en f)]"]
      by (simp add: plan_loop_Cons split: sum.split)
  qed
qed simp

lemma plan_loop_step:
  assumes "plan_loop (f # fs) start en [] 0 = Inr (ps, n)" and "\<not> idle start en f"
  obtains h ps' n' where "fd_file f = Some h" "plan_loop fs start en [] 0 = Inr (ps', n')"
    "ps = (h, part_at start f, part_lo start f, part_hi start en f) # ps'"
    "n = part_hi start en f - part_lo start f + n'"
  using assms
  by (auto simp: plan_loop_Cons plan_loop_acc [of fs start en "[_]"] split: option.splits sum.splits)

text \<open>Running a plan is the locked read or write it was planned for.\<close>

lemma plan_read:
  "plan_loop fs start en [] 0 = Inr (ps, n) \<Longrightarrow>
   read_loop ro d fs start en buf cnt = (case run_reads ro d ps buf of Inl e \<Rightarrow> Inl e | Inr buf' \<Rightarrow> Inr (buf', cnt + n))"
proof (induction fs arbitrary: ps n buf cnt)
  case (Cons f fs)
  show ?case
  proof (cases "idle start en f")
    case True
    then show ?thesis using Cons by (simp add: loop_Cons)
  next
    case False
    from Cons.prems False obtain h ps' n' where p: "fd_file f = Some h" "plan_loop fs start en [] 0 = Inr (ps', n')"
      "ps = (h, part_at start f, part_lo start f, part_hi start en f) # ps'"
      "n = part_hi start en f - part_lo start f + n'"
      by (rule plan_loop_step)
    show ?thesis
      using False by (simp add: read_loop_Cons p(1,3,4) Cons.IH [OF p(2)] split: sum.split)
  qed
qed simp

lemma plan_write:
  "plan_loop fs start en [] 0 = Inr (ps, n) \<Longrightarrow> en = start + int (length data) \<Longrightarrow>
   write_loop wo d fs start en data cnt =
     (case flush_write wo d (map (\<lambda>(h, pos, lo, hi). (h, pos, data, lo, hi)) ps) of
        (d', Inl e) \<Rightarrow> (d', Inl e) | (d', Inr _) \<Rightarrow> (d', Inr (cnt + n)))"
proof (induction fs arbitrary: ps n d cnt)
  case (Cons f fs)
  show ?case
  proof (cases "idle start en f")
    case True
    then show ?thesis using Cons by (simp add: loop_Cons)
  next
    case False
    from Cons.prems(1) False obtain h ps' n' where p: "fd_file f = Some h" "plan_loop fs start en [] 0 = Inr (ps', n')"
      "ps = (h, part_at start f, part_lo start f, part_hi start en f) # ps'"
      "n = part_hi start en f - part_lo start f + n'"
      by (rule plan_loop_step)
    have "part_hi start en f \<le> length data" using Cons.prems(2) unfolding part_hi_def by linarith
    then show ?thesis
      using False by (simp add: write_loop_Cons p(1,3,4) Cons.IH [OF p(2) Cons.prems(2)] add.assoc
          split: sum.split prod.split)
  qed
qed simp

section \<open>Where a plan points\<close>

lemma image_file_overlay:
  assumes "layout_from b fs" "opened d fs" "f \<in> set fs" "0 \<le> a" "a + int (length ys) \<le> fd_length f"
  shows "torrent_image (d(handle f := overlay (d (handle f)) a ys)) fs
    = overlay (torrent_image d fs) (fd_offset f - b + a) ys"
  using assms(1-3)
proof (induction fs arbitrary: b)
  case (Cons g fs)
  have g: "fd_offset g = b" "layout_from (b + fd_length g) fs" "handle g \<notin> handle ` set fs"
    "int (length (d (handle g))) = fd_length g" "opened d fs"
    using Cons.prems by (auto simp: opened_Cons)
  show ?case
  proof (cases "f = g")
    case True
    have "overlay (torrent_image d fs) (a - fd_length g) ys = torrent_image d fs"
      using assms(5) True by (intro overlay_outside) simp
    moreover have "torrent_image (d(handle g := overlay (d (handle g)) a ys)) fs = torrent_image d fs"
      using g(3) by (rule image_upd)
    ultimately show ?thesis using True g(1,4) by (simp add: overlay_append del: fun_upd_apply) simp
  next
    case False
    then have f: "f \<in> set fs" using Cons.prems by simp
    then have ne: "handle f \<noteq> handle g" using g(3) by (metis imageI)
    have "b + fd_length g \<le> fd_offset f" using layout_from_lower [OF g(2) f] .
    then have "overlay (d (handle g)) (fd_offset f - b + a) ys = d (handle g)"
      using g(4) assms(4) by (intro overlay_outside) simp
    then show ?thesis
      using Cons.IH [OF g(2,5) f] ne g(4) by (simp add: overlay_append algebra_simps)
  qed
qed simp

lemma plan_loop_entries:
  "plan_loop fs start en [] 0 = Inr (ps, n) \<Longrightarrow>
   (h, pos, lo, hi) \<in> set ps \<longleftrightarrow>
     (\<exists>f\<in>set fs. fd_file f = Some h \<and> \<not> idle start en f \<and> pos = part_at start f \<and> lo = part_lo start f \<and> hi = part_hi start en f)"
proof (induction fs arbitrary: ps n)
  case (Cons f fs)
  show ?case
  proof (cases "idle start en f")
    case True
    then show ?thesis using Cons by (simp add: plan_loop_Cons)
  next
    case False
    from Cons.prems False obtain h ps' n' where p: "fd_file f = Some h" "plan_loop fs start en [] 0 = Inr (ps', n')"
      "ps = (h, part_at start f, part_lo start f, part_hi start en f) # ps'"
      "n = part_hi start en f - part_lo start f + n'"
      by (rule plan_loop_step)
    show ?thesis using Cons.IH [OF p(2)] p(1,3) False by auto
  qed
qed simp

lemma plan_loop_configured:
  "plan_loop fs start en [] 0 = Inr (ps, n) \<Longrightarrow> f \<in> set fs \<Longrightarrow> \<not> idle start en f \<Longrightarrow> \<exists>h. fd_file f = Some h"
proof (induction fs arbitrary: ps n)
  case (Cons g fs)
  then show ?case
    by (auto simp: plan_loop_Cons plan_loop_acc [of fs start en "[_]"] split: if_splits option.splits sum.splits)
qed simp

lemma file_at:
  "layout_from b fs \<Longrightarrow> b \<le> a \<Longrightarrow> a < b + span_total fs \<Longrightarrow>
   \<exists>f\<in>set fs. fd_offset f \<le> a \<and> a < fd_offset f + fd_length f"
proof (induction fs arbitrary: b)
  case (Cons f fs)
  then show ?case
    using Cons.IH [of "b + fd_length f"] by (cases "a < b + fd_length f") (auto simp: span_total_def)
qed (simp add: span_total_def)

lemma file_end: "layout_from b fs \<Longrightarrow> f \<in> set fs \<Longrightarrow> fd_offset f + fd_length f \<le> b + span_total fs"
proof (induction fs arbitrary: b)
  case (Cons g fs)
  have t: "span_total (g # fs) = fd_length g + span_total fs" by (simp add: span_total_def)
  have l: "fd_offset g = b" "layout_from (b + fd_length g) fs" using Cons.prems by simp_all
  show ?case
  proof (cases "f = g")
    case True
    then show ?thesis using t l(1) span_total_nonneg [OF l(2)] by simp
  next
    case False
    then show ?thesis using Cons.IH [OF l(2)] Cons.prems(2) t by simp
  qed
qed simp

lemma layout_length_nonneg: "layout_from b fs \<Longrightarrow> f \<in> set fs \<Longrightarrow> 0 \<le> fd_length f"
  by (induction fs arbitrary: b) auto

lemma plan_entry:
  assumes "layout_from 0 fs" "plan_file_reads fs start n = Inr ps" "(h, pos, lo, hi) \<in> set ps"
  obtains f where "f \<in> set fs" "fd_file f = Some h" "fd_offset f + int pos = start + int lo"
    "lo \<le> hi" "hi \<le> n" "int (pos + (hi - lo)) \<le> fd_length f"
proof -
  have pl: "plan_loop fs start (start + int n) [] 0 = Inr (ps, n)"
    using assms(1,2) by (auto simp: plan_file_reads_def loops_all_files split: sum.splits if_splits)
  obtain f where f: "f \<in> set fs" "fd_file f = Some h" "\<not> idle start (start + int n) f"
    "pos = part_at start f" "lo = part_lo start f" "hi = part_hi start (start + int n) f"
    using assms(3) plan_loop_entries [OF pl] by blast
  have nl: "int (nat (fd_length f)) = fd_length f" using layout_length_nonneg [OF assms(1) f(1)] by simp
  note o = part_bounds [OF f(3) refl nl]
  have "fd_offset f + int pos = start + int lo" "lo \<le> hi" "hi \<le> n" "int (pos + (hi - lo)) \<le> fd_length f"
    using o(1,2,3,6) nl unfolding f(4-6) by linarith+
  then show ?thesis using that f(1,2) by blast
qed

lemma plan_covers:
  assumes "layout_from 0 fs" "plan_file_reads fs start n = Inr ps" "0 \<le> start" "start + int n \<le> span_total fs" "i < n"
  obtains h pos lo hi where "(h, pos, lo, hi) \<in> set ps" "lo \<le> i" "i < hi"
proof -
  have pl: "plan_loop fs start (start + int n) [] 0 = Inr (ps, n)"
    using assms(1,2) by (auto simp: plan_file_reads_def loops_all_files split: sum.splits if_splits)
  obtain f where f: "f \<in> set fs" "fd_offset f \<le> start + int i" "start + int i < fd_offset f + fd_length f"
    using file_at [OF assms(1), of "start + int i"] assms(3-5) by auto
  have i: "\<not> idle start (start + int n) f" using f assms(5) unfolding idle_def by linarith
  have "\<exists>h. fd_file f = Some h" using plan_loop_configured [OF pl f(1) i] .
  then obtain h where "fd_file f = Some h" ..
  then have "(h, part_at start f, part_lo start f, part_hi start (start + int n) f) \<in> set ps"
    using plan_loop_entries [OF pl] f(1) i by blast
  moreover have "part_lo start f \<le> i" "i < part_hi start (start + int n) f"
    using f assms(5) unfolding part_lo_def part_hi_def by linarith+
  ultimately show ?thesis using that by blast
qed

section \<open>Properties\<close>

lemma plan_loop_opened:
  assumes "layout_from b fs" "opened d fs" "start \<le> en"
  shows "\<exists>ps. plan_loop fs start en [] 0 = Inr (ps, overlap_len b fs start en)"
proof -
  have "read_loop (\<lambda>_ _ _. None) d fs start en (replicate (nat (en - start)) 0) 0
      = Inr (overlay (replicate (nat (en - start)) 0) (b - start) (torrent_image d fs), 0 + overlap_len b fs start en)"
    using assms by (intro read_loop_image) simp_all
  moreover have "\<exists>ps n. plan_loop fs start en [] 0 = Inr (ps, n)"
    using assms(2)
  proof (induction fs)
    case (Cons f fs)
    then show ?case
      by (auto simp: opened_Cons plan_loop_Cons plan_loop_acc [of fs start en "[_]"])
  qed simp
  ultimately show ?thesis using plan_read by (fastforce split: sum.splits)
qed

lemma in_range_overlap:
  assumes "layout_from 0 fs" "0 \<le> start" "start + int n \<le> span_total fs"
  shows "overlap_len 0 fs start (start + int n) = n"
  using assms by (simp add: overlap_len_def)

lemma overlap_in_range:
  assumes "overlap_len 0 fs start (start + int n) = n" "0 < n"
  shows "0 \<le> start" "start + int n \<le> span_total fs"
  using assms unfolding overlap_len_def by linarith+

lemma write_files_image:
  assumes "layout_from 0 files" "opened d files" "write_to_files_locked wo d files start data = (d', r)"
  shows "opened d' files" and "\<exists>k \<le> length data. torrent_image d' files = overlay (torrent_image d files) start (take k data)
      \<and> (case r of Inl e \<Rightarrow> True
         | Inr n \<Rightarrow> n = length data \<and> k = n \<and> (data = [] \<or> 0 \<le> start \<and> start + int n \<le> span_total files))"
proof -
  let ?en = "start + int (length data)"
  let ?R = "write_loop wo d files start ?en data 0"
  have w: "wrote wo d files 0 start ?en data 0 ?R" using assms(1,2) by (rule write_loop_wrote) simp
  have d': "d' = fst ?R"
    and r: "r = (case snd ?R of Inl e \<Rightarrow> Inl e
      | Inr c \<Rightarrow> if c \<noteq> length data then Inl (Other ''short write to files'') else Inr c)"
    using assms(3) by (auto simp: write_to_files_locked_def loops_all_files [OF assms(1)] split: prod.splits sum.splits if_splits)
  show "opened d' files" using w d' by (auto simp: wrote_def)
  show "\<exists>k \<le> length data. torrent_image d' files = overlay (torrent_image d files) start (take k data)
      \<and> (case r of Inl e \<Rightarrow> True
         | Inr n \<Rightarrow> n = length data \<and> k = n \<and> (data = [] \<or> 0 \<le> start \<and> start + int n \<le> span_total files))"
    using w overlap_in_range [of files start "length data"] unfolding wrote_def d' r by (fastforce split: sum.splits)
qed

lemma write_files_ok:
  assumes "layout_from 0 files" "opened d files" "\<forall>h pos c. wo h pos c = None"
    and "0 \<le> start" "start + int (length data) \<le> span_total files"
  shows "snd (write_to_files_locked wo d files start data) = Inr (length data)"
proof -
  let ?en = "start + int (length data)"
  have "wrote wo d files 0 start ?en data 0 (write_loop wo d files start ?en data 0)"
    using assms(1,2) by (rule write_loop_wrote) simp
  then show ?thesis
    using assms(3) in_range_overlap [OF assms(1,4,5)]
    by (auto simp: wrote_def write_to_files_locked_def loops_all_files [OF assms(1)] split: prod.splits sum.splits)
qed

lemma plan_write_files:
  assumes "layout_from 0 files" "plan_file_reads files start (length data) = Inr ps"
  shows "write_to_files_locked wo d files start data =
    (case flush_write wo d (map (\<lambda>(h, pos, lo, hi). (h, pos, data, lo, hi)) ps) of
       (d', Inl e) \<Rightarrow> (d', Inl e) | (d', Inr _) \<Rightarrow> (d', Inr (length data)))"
proof -
  have "plan_loop files start (start + int (length data)) [] 0 = Inr (ps, length data)"
    using assms by (auto simp: plan_file_reads_def loops_all_files [OF assms(1)] split: sum.splits if_splits)
  from plan_write [OF this refl] show ?thesis
    by (auto simp: write_to_files_locked_def loops_all_files [OF assms(1)] split: prod.splits sum.splits)
qed

lemma read_files_image:
  assumes "layout_from 0 files" "opened d files" "\<forall>h pos n. ro h pos n = None"
    and "0 \<le> a" "a + int (length buf) \<le> span_total files"
  shows "read_from_files_locked ro d files a buf = Inr (slice (nat a) (nat a + length buf) (torrent_image d files), length buf)"
    and "\<exists>ps. plan_file_reads files a (length buf) = Inr ps
      \<and> run_reads ro d ps buf = Inr (slice (nat a) (nat a + length buf) (torrent_image d files))"
proof -
  let ?en = "a + int (length buf)" and ?s = "slice (nat a) (nat a + length buf) (torrent_image d files)"
  note ov = in_range_overlap [OF assms(1,4,5)]
  have len: "nat a + length buf \<le> length (torrent_image d files)" using image_length [OF assms(2)] assms(4,5) by linarith
  have "overlay buf (- a) (torrent_image d files) = ?s"
    using len assms(4) by (intro nth_equalityI) (auto simp: nth_overlay slice_def nat_add_distrib add.commute)
  then have r: "read_loop ro d files a ?en buf 0 = Inr (?s, length buf)"
    using read_loop_image [OF assms(1,2) refl assms(3), of a buf 0] ov by simp
  then show "read_from_files_locked ro d files a buf = Inr (?s, length buf)"
    by (simp add: read_from_files_locked_def loops_all_files [OF assms(1)])
  obtain ps where ps: "plan_loop files a ?en [] 0 = Inr (ps, length buf)"
    using plan_loop_opened [OF assms(1,2), of a ?en] ov by auto
  then have "plan_file_reads files a (length buf) = Inr ps"
    by (simp add: plan_file_reads_def loops_all_files [OF assms(1)])
  moreover have "run_reads ro d ps buf = Inr ?s"
    using plan_read [OF ps, of ro d buf 0] r by (simp split: sum.splits)
  ultimately show "\<exists>ps. plan_file_reads files a (length buf) = Inr ps \<and> run_reads ro d ps buf = Inr ?s" by blast
qed

text \<open>
  C7: the files of a torrent behave as one array. Whatever the outcome of the writes, a locked write
  leaves the array with a prefix of the buffer in place and every other byte as it was; it succeeds only
  if the range lies inside the torrent and then the whole buffer is in place, and it does succeed when
  no write fails. A later read of any range inside the torrent returns that part of the array, locked or
  planned and run without the lock, and a planned write has the effect of the locked one.
\<close>

theorem files_are_one_array:
  assumes "layout_from 0 files" and "opened d files" and "\<forall>h pos n. ro h pos n = None"
    and "write_to_files_locked wo d files start data = (d', r)"
  shows "(\<exists>k \<le> length data. torrent_image d' files = overlay (torrent_image d files) start (take k data)
            \<and> (case r of Inl e \<Rightarrow> True
               | Inr n \<Rightarrow> n = length data \<and> k = n \<and> (data = [] \<or> 0 \<le> start \<and> start + int n \<le> span_total files)))
    \<and> ((\<forall>h pos c. wo h pos c = None) \<and> 0 \<le> start \<and> start + int (length data) \<le> span_total files
        \<longrightarrow> r = Inr (length data))
    \<and> (\<forall>ps. plan_file_reads files start (length data) = Inr ps \<longrightarrow>
        fst (flush_write wo d (map (\<lambda>(h, pos, lo, hi). (h, pos, data, lo, hi)) ps)) = d')
    \<and> (\<forall>a buf. 0 \<le> a \<and> a + int (length buf) \<le> span_total files \<longrightarrow>
        read_from_files_locked ro d' files a buf
          = Inr (slice (nat a) (nat a + length buf) (torrent_image d' files), length buf)
        \<and> (\<exists>ps. plan_file_reads files a (length buf) = Inr ps
             \<and> run_reads ro d' ps buf = Inr (slice (nat a) (nat a + length buf) (torrent_image d' files))))"
proof -
  have "r = Inr (length data)"
    if "\<forall>h pos c. wo h pos c = None" "0 \<le> start" "start + int (length data) \<le> span_total files"
    using write_files_ok [OF assms(1,2) that] assms(4) by simp
  moreover have "fst (flush_write wo d (map (\<lambda>(h, pos, lo, hi). (h, pos, data, lo, hi)) ps)) = d'"
    if "plan_file_reads files start (length data) = Inr ps" for ps
    using plan_write_files [OF assms(1) that, of wo d] assms(4) by (simp split: prod.splits sum.splits)
  moreover note write_files_image(2) [OF assms(1,2,4)]
    read_files_image [OF assms(1) write_files_image(1) [OF assms(1,2,4)] assms(3)]
  ultimately show ?thesis by blast
qed

theorem files_are_one_array_witness:
  "\<exists>d'. write_to_files_locked (\<lambda>_ _ _. None) ((\<lambda>_. [])(7 := [1, 2], 9 := [3, 4, 5]))
      [\<lparr>fd_file = Some 7, fd_offset = 0, fd_length = 2, fd_path = [97], fd_external = False\<rparr>,
       \<lparr>fd_file = Some 9, fd_offset = 2, fd_length = 3, fd_path = [98], fd_external = True\<rparr>] 1 [8, 9]
      = (d', Inr 2)
    \<and> read_from_files_locked (\<lambda>_ _ _. None) d'
      [\<lparr>fd_file = Some 7, fd_offset = 0, fd_length = 2, fd_path = [97], fd_external = False\<rparr>,
       \<lparr>fd_file = Some 9, fd_offset = 2, fd_length = 3, fd_path = [98], fd_external = True\<rparr>] 0 [0, 0, 0, 0, 0]
      = Inr ([1, 8, 9, 4, 5], 5)"
proof -
  let ?fs = "[\<lparr>fd_file = Some 7, fd_offset = 0, fd_length = 2, fd_path = [97], fd_external = False\<rparr>,
       \<lparr>fd_file = Some 9, fd_offset = 2, fd_length = 3, fd_path = [98], fd_external = True\<rparr>]"
  let ?d = "(\<lambda>_. [])(7 := [1, 2], 9 := [3, 4, 5 :: u8])"
  obtain d' r where w: "write_to_files_locked (\<lambda>_ _ _. None) ?d ?fs 1 [8, 9] = (d', r)" by fastforce
  have lay: "layout_from 0 ?fs" "opened ?d ?fs" by (simp_all add: opened_def handle_def)
  have img: "torrent_image ?d ?fs = [1, 2, 3, 4, 5]" "span_total ?fs = 5"
    by (simp_all add: torrent_image_def handle_def span_total_def)
  note c = files_are_one_array [OF lay _ w, of "\<lambda>_ _ _. None", simplified img]
  have r: "r = Inr 2" using c by simp
  have "torrent_image d' ?fs = overlay [1, 2, 3, 4, 5] 1 [8, 9]" using c r by auto
  also have "\<dots> = [1, 8, 9, 4, 5]" by (simp add: overlay_inside)
  finally have "read_from_files_locked (\<lambda>_ _ _. None) d' ?fs 0 [0, 0, 0, 0, 0] = Inr ([1, 8, 9, 4, 5], 5)"
    using c by (simp add: slice_def)
  then show ?thesis using w r by blast
qed

end
