(* ===== verification/Utf8.thy ===== *)
theory Utf8
  imports Prelude
begin

text \<open>
  UTF-8 text of the Rust standard library, as far as the engine uses it. A Rust \<open>String\<close> is
  modelled by its bytes. \<open>str::from_utf8\<close> succeeds exactly on \<open>valid_utf8\<close> input, and
  \<open>String::from_utf8_lossy\<close> replaces each maximal ill-formed prefix by U+FFFD.
\<close>

section \<open>Model\<close>

definition cont_byte :: "u8 \<Rightarrow> bool" where
  "cont_byte b \<longleftrightarrow> 128 \<le> b \<and> b \<le> 191"

text \<open>The second byte the standard library accepts after a three- or four-byte lead.\<close>

definition second_of_three :: "u8 \<Rightarrow> u8 \<Rightarrow> bool" where
  "second_of_three b c \<longleftrightarrow>
     (if b = 224 then 160 \<le> c \<and> c \<le> 191
      else if b = 237 then 128 \<le> c \<and> c \<le> 159
      else cont_byte c)"

definition second_of_four :: "u8 \<Rightarrow> u8 \<Rightarrow> bool" where
  "second_of_four b c \<longleftrightarrow>
     (if b = 240 then 144 \<le> c \<and> c \<le> 191
      else if b = 244 then 128 \<le> c \<and> c \<le> 143
      else cont_byte c)"

text \<open>
  One decoding step on a non-empty input: \<open>(True, n)\<close> for a well-formed character of \<open>n\<close> bytes,
  \<open>(False, n)\<close> for an ill-formed prefix of \<open>n\<close> bytes.
\<close>

fun utf8_step :: "bytes \<Rightarrow> bool \<times> nat" where
  "utf8_step [] = (True, 0)"
| "utf8_step (b # bs) =
     (if b < 128 then (True, 1)
      else if 194 \<le> b \<and> b \<le> 223 then
        (case bs of c # _ \<Rightarrow> if cont_byte c then (True, 2) else (False, 1) | [] \<Rightarrow> (False, 1))
      else if 224 \<le> b \<and> b \<le> 239 then
        (case bs of
           c # bs' \<Rightarrow> if second_of_three b c
             then (case bs' of d # _ \<Rightarrow> if cont_byte d then (True, 3) else (False, 2) | [] \<Rightarrow> (False, 2))
             else (False, 1)
         | [] \<Rightarrow> (False, 1))
      else if 240 \<le> b \<and> b \<le> 244 then
        (case bs of
           c # bs' \<Rightarrow> if second_of_four b c
             then (case bs' of
                     d # bs'' \<Rightarrow> if cont_byte d
                       then (case bs'' of e # _ \<Rightarrow> if cont_byte e then (True, 4) else (False, 3) | [] \<Rightarrow> (False, 3))
                       else (False, 2)
                   | [] \<Rightarrow> (False, 2))
             else (False, 1)
         | [] \<Rightarrow> (False, 1))
      else (False, 1))"

lemma utf8_step_pos: "0 < snd (utf8_step (b # bs))"
  by (auto split: list.splits)

lemma utf8_step_pos': "bs \<noteq> [] \<Longrightarrow> (ok, n) = utf8_step bs \<Longrightarrow> 0 < n"
  using utf8_step_pos by (cases bs) (auto simp del: utf8_step.simps dest: arg_cong [of _ _ snd])

function from_utf8_lossy :: "bytes \<Rightarrow> bytes" where
  "from_utf8_lossy bs =
     (if bs = [] then []
      else let (ok, n) = utf8_step bs in
        (if ok then take n bs else [239, 191, 189]) @ from_utf8_lossy (drop n bs))"
  by pat_completeness auto
termination
proof (relation "measure length", goal_cases)
  case (2 bs x y z)
  then have "0 < z" using utf8_step_pos' by blast
  with 2(1) show ?case by simp
qed simp

declare from_utf8_lossy.simps [simp del]

function valid_utf8 :: "bytes \<Rightarrow> bool" where
  "valid_utf8 bs =
     (if bs = [] then True
      else let (ok, n) = utf8_step bs in ok \<and> valid_utf8 (drop n bs))"
  by pat_completeness auto
termination
proof (relation "measure length", goal_cases)
  case (2 bs x y z)
  then have "0 < z" using utf8_step_pos' by blast
  with 2(1) show ?case by simp
qed simp

declare valid_utf8.simps [simp del]

section \<open>Lemmas\<close>

lemma valid_utf8_Nil [simp]: "valid_utf8 []"
  by (simp add: valid_utf8.simps)

lemma lossy_Nil [simp]: "from_utf8_lossy [] = []"
  by (simp add: from_utf8_lossy.simps)

text \<open>Well-formed text passes through unchanged.\<close>

lemma lossy_valid: "valid_utf8 bs \<Longrightarrow> from_utf8_lossy bs = bs"
proof (induction bs rule: from_utf8_lossy.induct)
  case (1 bs)
  show ?case
  proof (cases "bs = []")
    case False
    obtain ok n where s: "utf8_step bs = (ok, n)" by fastforce
    have v: "ok" "valid_utf8 (drop n bs)"
      using 1(2) s False by (subst (asm) valid_utf8.simps; simp)+
    then show ?thesis
      using 1(1) [OF False s [symmetric] refl] s False
      by (subst from_utf8_lossy.simps) simp
  qed simp
qed

lemma valid_utf8_step: "valid_utf8 bs = (bs = [] \<or> fst (utf8_step bs) \<and> valid_utf8 (drop (snd (utf8_step bs)) bs))"
  by (subst valid_utf8.simps) (auto split: prod.splits)

text \<open>Plain ASCII text is well formed.\<close>

lemma valid_ascii: "\<forall>b\<in>set bs. b < 128 \<Longrightarrow> valid_utf8 bs"
proof (induction bs)
  case (Cons b bs)
  then show ?case by (subst valid_utf8_step) simp
qed simp

end
