(* ===== verification/Checkpoint.thy ===== *)
theory Checkpoint
  imports Utf8 Types
begin

text \<open>
  Piece checkpoints (\<^verbatim>\<open>wt-storage/src/checkpoint.rs\<close>): file identities, the file format with its
  writer and its checked reader, and the write that replaces the file on disk. A file system maps paths
  to contents together with the information whether they have been synced; a crash keeps synced
  contents and leaves anything in a file that was not. The outcome of each system call is a parameter.
  A \<open>String\<close> is its UTF-8 bytes.
\<close>

section \<open>Model\<close>

definition CHECKPOINT_MAGIC :: u32 where "CHECKPOINT_MAGIC = 0x57435031"
definition CHECKPOINT_VERSION :: u32 where "CHECKPOINT_VERSION = 1"
definition MAX_CHECKPOINT_PIECES :: nat where "MAX_CHECKPOINT_PIECES = 512 * 1024"
definition MAX_CHECKPOINT_FILES :: nat where "MAX_CHECKPOINT_FILES = 65536"
definition MAX_CHECKPOINT_PATH :: nat where "MAX_CHECKPOINT_PATH = 4096"

record file_identity =
  id_external :: bool
  id_dev :: u64
  id_ino :: u64
  id_length :: int
  id_mod_nano :: int
  id_path :: bytes

record piece_checkpoint =
  cp_info_hash :: bytes
  cp_piece_length :: int
  cp_num_pieces :: nat
  cp_files :: "file_identity list"
  cp_complete :: "bool list"

text \<open>What \<open>fstat\<close> reports: device, inode and modification time.\<close>

record metadata =
  md_dev :: u64
  md_ino :: u64
  md_mtime :: int
  md_mtime_nsec :: int

definition checked_i64 :: "int \<Rightarrow> int option" where
  "checked_i64 x = (if i64_min \<le> x \<and> x \<le> i64_max then Some x else None)"

definition identity_from_metadata :: "metadata \<Rightarrow> bool \<Rightarrow> int \<Rightarrow> bytes \<Rightarrow> file_identity \<times> bool" where
  "identity_from_metadata meta external len path =
     (let mod_nano =
        (case checked_i64 (md_mtime meta * 1000000000) of
           None \<Rightarrow> 0
         | Some ns \<Rightarrow> (case checked_i64 (ns + md_mtime_nsec meta) of None \<Rightarrow> 0 | Some t \<Rightarrow> t))
      in (\<lparr>id_external = external, id_dev = md_dev meta, id_ino = md_ino meta, id_length = len,
           id_mod_nano = mod_nano, id_path = path\<rparr>, True))"

text \<open>\<open>FileIdentity { external, length, path, ..Default::default() }\<close>.\<close>

definition bare_identity :: "bool \<Rightarrow> int \<Rightarrow> bytes \<Rightarrow> file_identity" where
  "bare_identity external len path =
     \<lparr>id_external = external, id_dev = 0, id_ino = 0, id_length = len, id_mod_nano = 0, id_path = path\<rparr>"

text \<open>\<open>None\<close> is the error of \<open>fstat\<close>.\<close>

definition identity_from_file :: "metadata option \<Rightarrow> bool \<Rightarrow> int \<Rightarrow> bytes \<Rightarrow> file_identity \<times> bool" where
  "identity_from_file meta external len path =
     (case meta of
        None \<Rightarrow> (bare_identity external len path, False)
      | Some md \<Rightarrow> identity_from_metadata md external len path)"

definition file_stable :: "file_identity \<Rightarrow> file_identity \<Rightarrow> bool" where
  "file_stable saved current =
     (if id_dev saved = 0 \<and> id_ino saved = 0 then False
      else if id_external saved \<noteq> id_external current \<or> id_length saved \<noteq> id_length current
            \<or> id_dev saved \<noteq> id_dev current \<or> id_ino saved \<noteq> id_ino current then False
      else if \<not> id_external saved \<and> id_path saved \<noteq> id_path current then False
      else True)"

definition file_identity_equal :: "file_identity \<Rightarrow> file_identity \<Rightarrow> bool" where
  "file_identity_equal a b = (file_stable a b \<and> id_mod_nano a = id_mod_nano b)"

definition identities_match :: "file_identity list \<Rightarrow> file_identity list \<Rightarrow> bool" where
  "identities_match saved current =
     (if length saved \<noteq> length current then False
      else list_all (\<lambda>i. file_identity_equal (saved ! i) (current ! i)) [0..<length saved])"

text \<open>The loop of \<open>bitfield_bytes\<close>; \<open>None\<close> is an index out of range.\<close>

primrec set_bits :: "bytes \<Rightarrow> nat \<Rightarrow> bool list \<Rightarrow> bytes option" where
  "set_bits out i [] = Some out"
| "set_bits out i (ok # oks) =
     (if ok then
        (if i div 8 < length out
         then set_bits (out[i div 8 := or (out ! (i div 8)) (push_bit (i mod 8) 1)]) (i + 1) oks
         else None)
      else set_bits out (i + 1) oks)"

definition bitfield_bytes :: "piece_checkpoint \<Rightarrow> bytes option" where
  "bitfield_bytes cp = set_bits (replicate (div_ceil (cp_num_pieces cp) 8) 0) 0 (cp_complete cp)"

definition decode_bitfield :: "bytes \<Rightarrow> nat \<Rightarrow> bool list option" where
  "decode_bitfield bits n =
     (if div_ceil n 8 \<le> length bits
      then Some (map (\<lambda>i. and (bits ! (i div 8)) (push_bit (i mod 8) 1) \<noteq> 0) [0..<n])
      else None)"

definition encode_identity :: "file_identity \<Rightarrow> bytes" where
  "encode_identity f =
     (if id_external f then 1 else 0) # put_u64 (id_dev f) @ put_u64 (id_ino f)
     @ put_u64 (word_of_int (id_length f)) @ put_u64 (word_of_int (id_mod_nano f))
     @ put_u32 (word_of_nat (length (id_path f))) @ id_path f"

definition encode_checkpoint :: "piece_checkpoint \<Rightarrow> bytes option" where
  "encode_checkpoint cp =
     (case bitfield_bytes cp of
        None \<Rightarrow> None
      | Some bits \<Rightarrow>
          Some (put_u32 CHECKPOINT_MAGIC @ put_u32 CHECKPOINT_VERSION @ cp_info_hash cp
            @ put_u64 (word_of_int (cp_piece_length cp)) @ put_u32 (word_of_nat (cp_num_pieces cp))
            @ put_u32 (word_of_nat (length (cp_files cp)))
            @ concat (map encode_identity (cp_files cp)) @ bits))"

text \<open>One file entry at \<open>off\<close>, and the loop over the entries.\<close>

definition decode_identity :: "bytes \<Rightarrow> nat \<Rightarrow> storage_error + file_identity \<times> nat" where
  "decode_identity data off =
     (if off + 1 + 8 + 8 + 8 + 8 + 4 > length data then Inl (Other ''truncated file identity'')
      else
        let external = (data ! off = 1);
            dev = from_be_u64 (slice (off + 1) (off + 9) data);
            ino = from_be_u64 (slice (off + 9) (off + 17) data);
            len = sint (from_be_u64 (slice (off + 17) (off + 25) data));
            mod_nano = sint (from_be_u64 (slice (off + 25) (off + 33) data));
            path_len = unat (from_be_u32 (slice (off + 33) (off + 37) data));
            off = off + 37
        in if path_len > MAX_CHECKPOINT_PATH \<or> off + path_len > length data
           then Inl (Other ''truncated file path'')
           else Inr (\<lparr>id_external = external, id_dev = dev, id_ino = ino, id_length = len,
                      id_mod_nano = mod_nano, id_path = from_utf8_lossy (slice off (off + path_len) data)\<rparr>,
                     off + path_len))"

primrec decode_files :: "bytes \<Rightarrow> nat \<Rightarrow> nat \<Rightarrow> file_identity list \<Rightarrow> storage_error + file_identity list \<times> nat" where
  "decode_files data 0 off fs = Inr (fs, off)"
| "decode_files data (Suc n) off fs =
     (case decode_identity data off of
        Inl e \<Rightarrow> Inl e
      | Inr (f, off') \<Rightarrow> decode_files data n off' (fs @ [f]))"

text \<open>\<open>read_piece_checkpoint\<close> once the file has been read; \<open>None\<close> is a panic.\<close>

definition decode_checkpoint :: "bytes \<Rightarrow> (storage_error + piece_checkpoint) option" where
  "decode_checkpoint data =
     (if length data < 40 then Some (Inl (Other ''checkpoint too short''))
      else if from_be_u32 (slice 0 4 data) \<noteq> CHECKPOINT_MAGIC then Some (Inl (Other ''bad checkpoint magic''))
      else if from_be_u32 (slice 4 8 data) \<noteq> CHECKPOINT_VERSION
           then Some (Inl (Other ''unsupported checkpoint version''))
      else
        let info_hash = slice 8 28 data;
            piece_len = sint (from_be_u64 (slice 28 36 data));
            num = unat (from_be_u32 (slice 36 40 data))
        in if num > MAX_CHECKPOINT_PIECES \<or> piece_len \<le> 0 then Some (Inl (Other ''invalid checkpoint header''))
           else if 40 + 4 > length data then Some (Inl (Other ''truncated checkpoint files''))
           else
             let n_files = unat (from_be_u32 (slice 40 44 data)) in
             if n_files > MAX_CHECKPOINT_FILES then Some (Inl (Other ''invalid checkpoint file count''))
             else case decode_files data n_files 44 [] of
               Inl e \<Rightarrow> Some (Inl e)
             | Inr (fs, off) \<Rightarrow>
                 (if off + div_ceil num 8 > length data then Some (Inl (Other ''truncated bitfield''))
                  else case decode_bitfield (slice off (off + div_ceil num 8) data) num of
                    None \<Rightarrow> None
                  | Some complete \<Rightarrow>
                      Some (Inr \<lparr>cp_info_hash = info_hash, cp_piece_length = piece_len, cp_num_pieces = num,
                                 cp_files = fs, cp_complete = complete\<rparr>)))"

subsection \<open>The file on disk\<close>

type_synonym fpath = "string list"
type_synonym file_system = "fpath \<Rightarrow> (bytes \<times> bool) option"

definition checkpoint_path :: "fpath \<Rightarrow> string \<Rightarrow> fpath" where
  "checkpoint_path base_dir info_hash_hex = base_dir @ [''.checkpoints'', info_hash_hex @ ''.chk'']"

text \<open>\<open>Path::file_stem\<close> and \<open>Path::with_extension\<close> of the standard library.\<close>

definition file_stem :: "string \<Rightarrow> string" where
  "file_stem name =
     (let before = rev (tl (dropWhile (\<lambda>c. c \<noteq> CHR ''.'') (rev name))) in
      if name = ''..'' \<or> CHR ''.'' \<notin> set name \<or> before = [] then name else before)"

definition with_extension :: "fpath \<Rightarrow> string \<Rightarrow> fpath" where
  "with_extension p ext = (if p = [] then p else butlast p @ [file_stem (last p) @ ''.'' @ ext])"

text \<open>How the system calls of one write end; a failed \<open>write_all\<close> stores some bytes first.\<close>

record write_calls =
  wc_mkdir :: "string option"
  wc_open :: "string option"
  wc_write :: "(nat \<times> string) option"
  wc_sync :: "string option"
  wc_rename :: "string option"

text \<open>
  \<open>write_piece_checkpoint\<close> with the states the file system passes through, so that a crash can happen
  in any of them. The outer \<open>None\<close> is a panic.
\<close>

definition write_piece_checkpoint :: "write_calls \<Rightarrow> file_system \<Rightarrow> fpath \<Rightarrow> piece_checkpoint
    \<Rightarrow> (file_system list \<times> (storage_error + unit)) option" where
  "write_piece_checkpoint calls fs path cp =
     (if cp_num_pieces cp > MAX_CHECKPOINT_PIECES \<or> length (cp_complete cp) \<noteq> cp_num_pieces cp
      then Some ([fs], Inl (Other ''invalid checkpoint''))
      else if length (cp_files cp) > MAX_CHECKPOINT_FILES
      then Some ([fs], Inl (Other ''invalid checkpoint file count''))
      else if path \<noteq> [] \<and> wc_mkdir calls \<noteq> None then Some ([fs], Inl (Io (the (wc_mkdir calls))))
      else
        let tmp = with_extension path ''chk.tmp'' in
        case wc_open calls of
          Some e \<Rightarrow> Some ([fs], Inl (Io e))
        | None \<Rightarrow>
            (case encode_checkpoint cp of
               None \<Rightarrow> None
             | Some buf \<Rightarrow>
                 (let written = (\<lambda>n. fs # map (\<lambda>k. fs(tmp \<mapsto> (take k buf, False))) [0..<Suc n]);
                      synced = fs(tmp \<mapsto> (buf, True))
                  in case wc_write calls of
                       Some (n, e) \<Rightarrow> Some (written n, Inl (Io e))
                     | None \<Rightarrow>
                         (case wc_sync calls of
                            Some e \<Rightarrow> Some (written (length buf), Inl (Io e))
                          | None \<Rightarrow>
                              (case wc_rename calls of
                                 Some e \<Rightarrow> Some (written (length buf) @ [synced], Inl (Io e))
                               | None \<Rightarrow>
                                   Some (written (length buf) @ [synced, synced(tmp := None, path \<mapsto> (buf, True))],
                                         Inr ()))))))"

definition read_piece_checkpoint :: "string option \<Rightarrow> (fpath \<Rightarrow> bytes option) \<Rightarrow> fpath
    \<Rightarrow> (storage_error + piece_checkpoint) option" where
  "read_piece_checkpoint io_err fs path =
     (case io_err of
        Some e \<Rightarrow> Some (Inl (Io e))
      | None \<Rightarrow>
          (case fs path of
             None \<Rightarrow> Some (Inl (Io ''entity not found''))
           | Some data \<Rightarrow> decode_checkpoint data))"

text \<open>\<open>NotFound\<close> is not an error.\<close>

definition delete_piece_checkpoint :: "string option \<Rightarrow> file_system \<Rightarrow> fpath \<Rightarrow> string
    \<Rightarrow> file_system \<times> (storage_error + unit)" where
  "delete_piece_checkpoint io_err fs base_dir info_hash_hex =
     (let p = checkpoint_path base_dir info_hash_hex in
      case fs p of
        None \<Rightarrow> (fs, Inr ())
      | Some _ \<Rightarrow> (case io_err of Some e \<Rightarrow> (fs, Inl (Io e)) | None \<Rightarrow> (fs(p := None), Inr ())))"

section \<open>Bit field\<close>

lemma bit_set_one: "k < 8 \<Longrightarrow> bit (or w (2 ^ k) :: u8) j \<longleftrightarrow> bit w j \<or> j = k"
  by (auto simp: bit_or_iff bit_exp_iff)

lemma set_bits_spec:
  "i + length oks \<le> 8 * length out \<Longrightarrow>
   \<exists>out'. set_bits out i oks = Some out' \<and> length out' = length out \<and>
     (\<forall>j < 8 * length out. bit (out' ! (j div 8)) (j mod 8) \<longleftrightarrow>
        bit (out ! (j div 8)) (j mod 8) \<or> i \<le> j \<and> j < i + length oks \<and> oks ! (j - i))"
proof (induction oks arbitrary: out i)
  case (Cons ok oks)
  let ?out = "if ok then out[i div 8 := or (out ! (i div 8)) (push_bit (i mod 8) 1)] else out"
  have i: "i div 8 < length out" using Cons.prems by (simp add: less_mult_imp_div_less mult.commute)
  have l: "length ?out = length out" by simp
  have step: "set_bits out i (ok # oks) = set_bits ?out (i + 1) oks" using i by simp
  have new: "bit (?out ! (j div 8)) (j mod 8) \<longleftrightarrow> bit (out ! (j div 8)) (j mod 8) \<or> ok \<and> j = i"
    if "j < 8 * length out" for j
  proof -
    have "j div 8 = i div 8 \<and> j mod 8 = i mod 8 \<longleftrightarrow> j = i" by (metis div_mod_decomp)
    then show ?thesis using i by (auto simp: nth_list_update bit_set_one)
  qed
  obtain out' where o: "set_bits ?out (i + 1) oks = Some out'" "length out' = length out"
    "\<forall>j < 8 * length out. bit (out' ! (j div 8)) (j mod 8) \<longleftrightarrow>
        bit (?out ! (j div 8)) (j mod 8) \<or> i + 1 \<le> j \<and> j < i + 1 + length oks \<and> oks ! (j - (i + 1))"
    using Cons.IH [of "i + 1" ?out] Cons.prems unfolding l by auto
  have "bit (out' ! (j div 8)) (j mod 8) \<longleftrightarrow>
        bit (out ! (j div 8)) (j mod 8) \<or> i \<le> j \<and> j < i + length (ok # oks) \<and> (ok # oks) ! (j - i)"
    if "j < 8 * length out" for j
    using o(3) new that by (cases "j = i") (auto simp: nth_Cons')
  then show ?case using step o by auto
qed auto

lemma completion_bits_roundtrip:
  assumes "length (cp_complete cp) = cp_num_pieces cp"
  obtains bits where "bitfield_bytes cp = Some bits" "length bits = div_ceil (cp_num_pieces cp) 8"
    "decode_bitfield bits (cp_num_pieces cp) = Some (cp_complete cp)"
proof -
  let ?n = "cp_num_pieces cp" and ?k = "div_ceil (cp_num_pieces cp) 8"
  have k: "?n \<le> 8 * ?k" using div_ceil_lower [of 8 ?n] by (simp add: mult.commute)
  obtain bits where b: "set_bits (replicate ?k 0) 0 (cp_complete cp) = Some bits" "length bits = ?k"
    "\<forall>j < 8 * ?k. bit (bits ! (j div 8)) (j mod 8) \<longleftrightarrow>
        bit (replicate ?k (0 :: u8) ! (j div 8)) (j mod 8) \<or> j < ?n \<and> cp_complete cp ! j"
    using set_bits_spec [of 0 "cp_complete cp" "replicate ?k 0"] assms k by auto
  have "and (bits ! (i div 8)) (push_bit (i mod 8) 1) \<noteq> 0 \<longleftrightarrow> cp_complete cp ! i" if "i < ?n" for i
  proof -
    have "i div 8 < ?k" using that k by (simp add: less_mult_imp_div_less mult.commute)
    moreover have "and (bits ! (i div 8)) (push_bit (i mod 8) 1) \<noteq> 0 \<longleftrightarrow> bit (bits ! (i div 8)) (i mod 8)"
      by (rule and_push_bit_one) simp
    ultimately show ?thesis using b(3) that k by simp
  qed
  then have "map (\<lambda>i. and (bits ! (i div 8)) (push_bit (i mod 8) 1) \<noteq> 0) [0..<?n] = cp_complete cp"
    using assms by (intro nth_equalityI) simp_all
  then show ?thesis using that b(1,2) by (simp add: bitfield_bytes_def decode_bitfield_def)
qed

section \<open>Round trip of the format\<close>

definition i64_range :: "int \<Rightarrow> bool" where
  "i64_range x \<longleftrightarrow> i64_min \<le> x \<and> x \<le> i64_max"

definition identity_ok :: "file_identity \<Rightarrow> bool" where
  "identity_ok f \<longleftrightarrow> i64_range (id_length f) \<and> i64_range (id_mod_nano f)
     \<and> length (id_path f) \<le> MAX_CHECKPOINT_PATH \<and> valid_utf8 (id_path f)"

text \<open>What the reader accepts of what the writer takes.\<close>

definition checkpoint_ok :: "piece_checkpoint \<Rightarrow> bool" where
  "checkpoint_ok cp \<longleftrightarrow> length (cp_info_hash cp) = 20 \<and> 0 < cp_piece_length cp \<and> cp_piece_length cp \<le> i64_max
     \<and> cp_num_pieces cp \<le> MAX_CHECKPOINT_PIECES \<and> length (cp_complete cp) = cp_num_pieces cp
     \<and> length (cp_files cp) \<le> MAX_CHECKPOINT_FILES \<and> list_all identity_ok (cp_files cp)"

lemma sint_i64: "i64_range x \<Longrightarrow> sint (word_of_int x :: u64) = x"
  by (simp add: i64_range_def sint_sbintrunc' signed_take_bit_int_eq_self)

lemma slice_shift: "slice (length pre + a) (length pre + b) (pre @ xs) = slice a b xs"
  by (simp add: slice_def)

lemma length_encode_identity: "length (encode_identity f) = 37 + length (id_path f)"
  by (simp add: encode_identity_def)

lemma decode_identity_shift:
  "decode_identity (pre @ xs) (length pre) =
     (case decode_identity xs 0 of Inl e \<Rightarrow> Inl e | Inr (f, off) \<Rightarrow> Inr (f, length pre + off))"
proof -
  have "slice (length pre + (a + b)) (length pre + (a + c)) (pre @ xs) = slice (a + b) (a + c) xs" for a b c
    by (rule slice_shift)
  then show ?thesis
    using slice_shift [of pre _ _ xs] slice_shift [of pre 1 9 xs]
    by (auto simp: decode_identity_def Let_def nth_append add.assoc)
qed

lemma decode_encode_identity:
  assumes "identity_ok f"
  shows "decode_identity (encode_identity f @ post) 0 = Inr (f, length (encode_identity f))"
proof -
  have p: "unat (word_of_nat (length (id_path f)) :: u32) = length (id_path f)"
    using assms by (simp add: identity_ok_def MAX_CHECKPOINT_PATH_def unat_of_nat)
  have len: "length (encode_identity f @ post) = 37 + length (id_path f) + length post"
    by (simp add: length_encode_identity)
  show ?thesis
    using assms unfolding decode_identity_def len
    by (simp add: encode_identity_def slice_def p sint_i64 identity_ok_def lossy_valid Let_def)
qed

lemma decode_encode_files:
  "list_all identity_ok fs \<Longrightarrow>
   decode_files (pre @ concat (map encode_identity fs) @ post) (length fs) (length pre) acc
     = Inr (acc @ fs, length pre + length (concat (map encode_identity fs)))"
proof (induction fs arbitrary: pre acc)
  case (Cons f fs)
  have "decode_identity (pre @ encode_identity f @ concat (map encode_identity fs) @ post) (length pre)
      = Inr (f, length (pre @ encode_identity f))"
    using Cons.prems by (simp add: decode_identity_shift decode_encode_identity)
  then show ?case
    using Cons.IH [of "pre @ encode_identity f" "acc @ [f]"] Cons.prems by simp
qed simp

lemma decode_encode_checkpoint:
  assumes ok: "checkpoint_ok cp"
  obtains data where "encode_checkpoint cp = Some data" "decode_checkpoint data = Some (Inr cp)"
proof -
  let ?n = "cp_num_pieces cp" and ?fs = "cp_files cp"
  have len: "length (cp_complete cp) = ?n" using ok by (simp add: checkpoint_ok_def)
  obtain bits where b: "bitfield_bytes cp = Some bits" "length bits = div_ceil ?n 8"
    "decode_bitfield bits ?n = Some (cp_complete cp)"
    using completion_bits_roundtrip [OF len] .
  let ?hd = "put_u32 CHECKPOINT_MAGIC @ put_u32 CHECKPOINT_VERSION @ cp_info_hash cp
    @ put_u64 (word_of_int (cp_piece_length cp)) @ put_u32 (word_of_nat ?n) @ put_u32 (word_of_nat (length ?fs))"
  let ?body = "concat (map encode_identity ?fs)"
  define data where "data = ?hd @ ?body @ bits"
  have h: "length (cp_info_hash cp) = 20" "length ?hd = 44" using ok by (simp_all add: checkpoint_ok_def)
  have e: "encode_checkpoint cp = Some data" using b(1) by (simp add: encode_checkpoint_def data_def)
  have nums: "unat (word_of_nat ?n :: u32) = ?n" "unat (word_of_nat (length ?fs) :: u32) = length ?fs"
    "sint (word_of_int (cp_piece_length cp) :: u64) = cp_piece_length cp"
    using ok by (simp_all add: checkpoint_ok_def MAX_CHECKPOINT_PIECES_def MAX_CHECKPOINT_FILES_def
        unat_of_nat sint_i64 i64_range_def)
  have sl: "slice 0 4 data = put_u32 CHECKPOINT_MAGIC" "slice 4 8 data = put_u32 CHECKPOINT_VERSION"
    "slice 8 28 data = cp_info_hash cp" "slice 28 36 data = put_u64 (word_of_int (cp_piece_length cp))"
    "slice 36 40 data = put_u32 (word_of_nat ?n)" "slice 40 44 data = put_u32 (word_of_nat (length ?fs))"
    using h(1) by (simp_all add: data_def slice_def)
  have size: "length data = 44 + length ?body + div_ceil ?n 8" using h b(2) by (simp add: data_def)
  have "list_all identity_ok ?fs" using ok by (simp add: checkpoint_ok_def)
  from decode_encode_files [OF this, of ?hd bits "[]"]
  have fs: "decode_files data (length ?fs) 44 [] = Inr (?fs, 44 + length ?body)"
    using h(2) by (simp add: data_def)
  have "slice (44 + length ?body) (44 + length ?body + div_ceil ?n 8) data = bits"
    using slice_append_mid [of "44 + length ?body" "?hd @ ?body" "44 + length ?body + div_ceil ?n 8" bits "[]"] h(2) b(2)
    by (simp add: data_def)
  then have "decode_checkpoint data = Some (Inr cp)"
    using ok size by (simp add: decode_checkpoint_def sl nums fs b(3) Let_def checkpoint_ok_def)
  with e show ?thesis using that by blast
qed

lemma decode_checkpoint_total: "decode_checkpoint data \<noteq> None"
  by (auto simp: decode_checkpoint_def decode_bitfield_def Let_def split: sum.split option.split)

section \<open>Replacing the file\<close>

definition contents :: "file_system \<Rightarrow> fpath \<Rightarrow> bytes option" where
  "contents fs p = map_option fst (fs p)"

text \<open>What may be found after a crash: synced files as they were, anything in the others.\<close>

definition crash :: "file_system \<Rightarrow> (fpath \<Rightarrow> bytes option) \<Rightarrow> bool" where
  "crash fs r \<longleftrightarrow> (\<forall>p. (fs p = None \<longrightarrow> r p = None) \<and> (\<forall>c. fs p = Some (c, True) \<longrightarrow> r p = Some c))"

definition settled :: "file_system \<Rightarrow> fpath \<Rightarrow> bool" where
  "settled fs p \<longleftrightarrow> fs p = None \<or> (\<exists>c. fs p = Some (c, True))"

lemma crash_settled: "crash fs r \<Longrightarrow> settled fs p \<Longrightarrow> r p = contents fs p"
  by (auto simp: crash_def settled_def contents_def)

lemma tmp_path: "with_extension (checkpoint_path b h) ''chk.tmp'' \<noteq> checkpoint_path b h"
proof
  assume "with_extension (checkpoint_path b h) ''chk.tmp'' = checkpoint_path b h"
  then have "file_stem (h @ ''.chk'') @ ''.chk.tmp'' = h @ ''.chk''"
    by (simp add: with_extension_def checkpoint_path_def butlast_append)
  then have "last (file_stem (h @ ''.chk'') @ ''.chk.tmp'') = last (h @ ''.chk'')" by (rule arg_cong)
  then show False by simp
qed

text \<open>The states of a write: the old one, old with some temporary file, and the new one.\<close>

definition write_forms :: "file_system \<Rightarrow> fpath \<Rightarrow> bytes \<Rightarrow> file_system set" where
  "write_forms fs path data =
     insert fs (insert (fs(with_extension path ''chk.tmp'' := None, path \<mapsto> (data, True)))
       (range (\<lambda>x. fs(with_extension path ''chk.tmp'' \<mapsto> x))))"

lemma write_forms:
  assumes data: "encode_checkpoint cp = Some data"
    and w: "write_piece_checkpoint calls fs path cp = Some (states, r)"
  shows "set states \<subseteq> write_forms fs path data"
    and "r = Inr () \<Longrightarrow> last states = fs(with_extension path ''chk.tmp'' := None, path \<mapsto> (data, True))"
proof -
  define tmp where "tmp = with_extension path ''chk.tmp''"
  define written where "written n = fs # map (\<lambda>k. fs(tmp \<mapsto> (take k data, False))) [0..<Suc n]" for n
  have wr: "set (written n) \<subseteq> write_forms fs path data" for n
    by (auto simp: written_def write_forms_def tmp_def simp del: upt_Suc)
  have ends: "fs \<in> write_forms fs path data" "fs(tmp \<mapsto> (data, True)) \<in> write_forms fs path data"
    "fs(tmp := None, path \<mapsto> (data, True)) \<in> write_forms fs path data"
    by (simp_all add: write_forms_def tmp_def)
  have forms: "(\<exists>e. r = Inl e) \<and> (states = [fs] \<or> (\<exists>n. states = written n) \<or> states = written (length data) @ [fs(tmp \<mapsto> (data, True))])
    \<or> r = Inr () \<and> states = written (length data) @ [fs(tmp \<mapsto> (data, True)), fs(tmp := None, path \<mapsto> (data, True))]"
    using w unfolding write_piece_checkpoint_def data Let_def tmp_def [symmetric] written_def [symmetric] option.case
    by (simp split: if_split_asm option.split_asm prod.split_asm) blast+
  then show "set states \<subseteq> write_forms fs path data"
    by (elim disjE conjE exE) (simp_all only: set_append set_simps Un_subset_iff insert_subset wr ends empty_subsetI simp_thms)
  show "r = Inr () \<Longrightarrow> last states = fs(with_extension path ''chk.tmp'' := None, path \<mapsto> (data, True))"
    using forms by (elim disjE conjE exE) (simp_all add: tmp_def)
qed

lemma write_form_cases:
  assumes "st \<in> write_forms fs path data" "with_extension path ''chk.tmp'' \<noteq> path"
  shows "st path = fs path \<or> st path = Some (data, True)"
    and "p \<noteq> path \<Longrightarrow> p \<noteq> with_extension path ''chk.tmp'' \<Longrightarrow> st p = fs p"
  using assms unfolding write_forms_def by auto

lemma write_succeeds:
  assumes "checkpoint_ok cp"
  shows "\<exists>states. write_piece_checkpoint
    \<lparr>wc_mkdir = None, wc_open = None, wc_write = None, wc_sync = None, wc_rename = None\<rparr> fs path cp = Some (states, Inr ())"
proof -
  obtain data where "encode_checkpoint cp = Some data" using decode_encode_checkpoint [OF assms] .
  then show ?thesis using assms by (simp add: write_piece_checkpoint_def Let_def checkpoint_ok_def)
qed

section \<open>Properties\<close>

text \<open>
  C9: a checkpoint whose fields the format can hold is read back as it was written, and reading never
  panics, whatever bytes the file holds.
\<close>

theorem checkpoint_roundtrip:
  assumes "checkpoint_ok cp"
  shows "(\<exists>data. encode_checkpoint cp = Some data \<and> decode_checkpoint data = Some (Inr cp))
    \<and> (\<forall>garbage. decode_checkpoint garbage \<noteq> None)"
  using decode_encode_checkpoint [OF assms] decode_checkpoint_total by metis

definition sample_checkpoint :: piece_checkpoint where
  "sample_checkpoint =
     \<lparr>cp_info_hash = replicate 20 7, cp_piece_length = 16384, cp_num_pieces = 3,
      cp_files = [\<lparr>id_external = True, id_dev = 5, id_ino = 6, id_length = 40000, id_mod_nano = -1, id_path = [97]\<rparr>],
      cp_complete = [True, False, True]\<rparr>"

lemma sample_checkpoint_ok: "checkpoint_ok sample_checkpoint"
  by (simp add: checkpoint_ok_def sample_checkpoint_def identity_ok_def i64_range_def MAX_CHECKPOINT_PIECES_def
      MAX_CHECKPOINT_FILES_def MAX_CHECKPOINT_PATH_def valid_ascii)

theorem checkpoint_roundtrip_witness:
  "\<exists>data. encode_checkpoint sample_checkpoint = Some data \<and> decode_checkpoint data = Some (Inr sample_checkpoint)"
  using checkpoint_roundtrip [OF sample_checkpoint_ok] by blast

text \<open>
  C8: writing a checkpoint replaces the old one as a whole. Whatever system call fails and whenever a
  crash happens, a reader afterwards finds either what was there before or the new checkpoint, never a
  mixture; no other file but the temporary one changes; a write that reports success has put the new
  checkpoint in place, and one whose system calls succeed reports success.
\<close>

theorem checkpoint_crash_safe:
  assumes "checkpoint_ok cp" and "settled fs (checkpoint_path base_dir hex)"
    and "write_piece_checkpoint calls fs (checkpoint_path base_dir hex) cp = Some (states, r)"
    and "st \<in> set states" and "crash st found"
  shows "(read_piece_checkpoint None found (checkpoint_path base_dir hex)
             = read_piece_checkpoint None (contents fs) (checkpoint_path base_dir hex)
          \<or> read_piece_checkpoint None found (checkpoint_path base_dir hex) = Some (Inr cp))
    \<and> (\<forall>p. p \<noteq> checkpoint_path base_dir hex \<and> p \<noteq> with_extension (checkpoint_path base_dir hex) ''chk.tmp''
          \<longrightarrow> st p = fs p)
    \<and> (r = Inr () \<longrightarrow>
         read_piece_checkpoint None (contents (last states)) (checkpoint_path base_dir hex) = Some (Inr cp))
    \<and> (calls = \<lparr>wc_mkdir = None, wc_open = None, wc_write = None, wc_sync = None, wc_rename = None\<rparr> \<longrightarrow> r = Inr ())"
proof -
  let ?p = "checkpoint_path base_dir hex"
  obtain data where d: "encode_checkpoint cp = Some data" "decode_checkpoint data = Some (Inr cp)"
    using decode_encode_checkpoint [OF assms(1)] .
  note f = write_forms [OF d(1) assms(3)]
  note w = write_form_cases [OF subsetD [OF f(1) assms(4)] tmp_path]
  have "found ?p = contents fs ?p \<or> found ?p = Some data"
    using w(1) assms(2,5) unfolding crash_def settled_def contents_def by fastforce
  moreover have "r = Inr ()"
    if "calls = \<lparr>wc_mkdir = None, wc_open = None, wc_write = None, wc_sync = None, wc_rename = None\<rparr>"
    using write_succeeds [OF assms(1), of fs ?p] assms(3) that by auto
  ultimately show ?thesis
    using w(2) f(2) d(2) unfolding read_piece_checkpoint_def contents_def by (auto simp: fun_upd_def)
qed

theorem checkpoint_crash_safe_witness:
  "\<exists>states. write_piece_checkpoint \<lparr>wc_mkdir = None, wc_open = None, wc_write = None, wc_sync = None, wc_rename = None\<rparr>
       (\<lambda>_. None) (checkpoint_path [''base''] ''ab'') sample_checkpoint = Some (states, Inr ())
     \<and> read_piece_checkpoint None (contents (last states)) (checkpoint_path [''base''] ''ab'') = Some (Inr sample_checkpoint)"
proof -
  obtain states where w: "write_piece_checkpoint \<lparr>wc_mkdir = None, wc_open = None, wc_write = None, wc_sync = None, wc_rename = None\<rparr>
       (\<lambda>_. None) (checkpoint_path [''base''] ''ab'') sample_checkpoint = Some (states, Inr ())"
    using write_succeeds [OF sample_checkpoint_ok] by blast
  have "states \<noteq> []" using w by (auto simp: write_piece_checkpoint_def Let_def split: if_splits option.splits)
  then have "hd states \<in> set states" by simp
  moreover have "crash (hd states) (contents (hd states))" by (simp add: crash_def contents_def)
  moreover have "settled (\<lambda>_. None) (checkpoint_path [''base''] ''ab'')" by (simp add: settled_def)
  ultimately show ?thesis
    using checkpoint_crash_safe [OF sample_checkpoint_ok _ w] w by blast
qed

end
