(* ===== verification/Bencode.thy ===== *)
theory Bencode
  imports Prelude "HOL-Library.List_Lexorder"
begin

text \<open>
  The bencode codec (\<^verbatim>\<open>wt-meta/src/bencode/{mod,decode,encode}.rs\<close>): the value tree, the
  recursive-descent decoder over a byte slice and a position, the encoder, and the extraction of
  the raw bytes of one dictionary entry. A \<open>BTreeMap\<close> is an association list with strictly
  increasing keys. The decoder's recursion is bounded by fuel; \<open>StepLimit\<close> is the value of a run
  that exhausts it, and the theory shows that the fuel \<open>decode\<close> starts with always suffices.
\<close>

section \<open>Model\<close>

datatype bvalue =
    VInt int
  | VBytes bytes
  | VList "bvalue list"
  | VDict "(bytes \<times> bvalue) list"

datatype meta_error =
    BencodeError nat string
  | TrailingBytes nat
  | MetaInfoError string
  | MagnetError string
  | MerkleError string
  | IntegerOverflow
  | UnexpectedEof
  | StepLimit

type_synonym 'a meta_result = "meta_error + 'a"

text \<open>\<open>BTreeMap::insert\<close> and \<open>BTreeMap::get\<close>.\<close>

fun btree_insert :: "'k::linorder \<Rightarrow> 'v \<Rightarrow> ('k \<times> 'v) list \<Rightarrow> ('k \<times> 'v) list" where
  "btree_insert k v [] = [(k, v)]"
| "btree_insert k v ((a, b) # m) =
     (if k < a then (k, v) # (a, b) # m
      else if k = a then (k, v) # m
      else (a, b) # btree_insert k v m)"

definition btree_get :: "'k \<Rightarrow> ('k \<times> 'v) list \<Rightarrow> 'v option" where
  "btree_get k m = map_of m k"

fun as_int :: "bvalue \<Rightarrow> int option" where
  "as_int (VInt n) = Some n"
| "as_int _ = None"

fun as_bytes :: "bvalue \<Rightarrow> bytes option" where
  "as_bytes (VBytes b) = Some b"
| "as_bytes _ = None"

fun as_list :: "bvalue \<Rightarrow> bvalue list option" where
  "as_list (VList l) = Some l"
| "as_list _ = None"

fun as_dict :: "bvalue \<Rightarrow> (bytes \<times> bvalue) list option" where
  "as_dict (VDict d) = Some d"
| "as_dict _ = None"

definition dict_get :: "bvalue \<Rightarrow> bytes \<Rightarrow> bvalue option" where
  "dict_get v key = (case as_dict v of None \<Rightarrow> None | Some d \<Rightarrow> btree_get key d)"

subsection \<open>Decimal text\<close>

definition is_ascii_digit :: "u8 \<Rightarrow> bool" where
  "is_ascii_digit b \<longleftrightarrow> 48 \<le> b \<and> b \<le> 57"

fun to_string_nat :: "nat \<Rightarrow> bytes" where
  "to_string_nat n = (if n < 10 then [word_of_nat (48 + n)]
     else to_string_nat (n div 10) @ [word_of_nat (48 + n mod 10)])"

declare to_string_nat.simps [simp del]

definition to_string_int :: "int \<Rightarrow> bytes" where
  "to_string_int n = (if n < 0 then 45 # to_string_nat (nat (- n)) else to_string_nat (nat n))"

definition digits_value :: "bytes \<Rightarrow> nat" where
  "digits_value ds = foldl (\<lambda>a d. a * 10 + (unat d - 48)) 0 ds"

subsection \<open>Encoder\<close>

definition encode_bytes :: "bytes \<Rightarrow> bytes" where
  "encode_bytes b = to_string_nat (length b) @ [58] @ b"

fun encode :: "bvalue \<Rightarrow> bytes" where
  "encode (VInt n) = [105] @ to_string_int n @ [101]"
| "encode (VBytes b) = encode_bytes b"
| "encode (VList items) = [108] @ concat (map encode items) @ [101]"
| "encode (VDict m) = [100] @ concat (map (\<lambda>(k, v). encode_bytes k @ encode v) m) @ [101]"

subsection \<open>Decoder\<close>

definition peek :: "bytes \<Rightarrow> nat \<Rightarrow> u8 meta_result" where
  "peek data pos = (if pos < length data then Inr (data ! pos) else Inl UnexpectedEof)"

text \<open>\<open>skip_digits data pos\<close> is where the digit run that starts at \<open>pos\<close> ends.\<close>

definition skip_digits :: "bytes \<Rightarrow> nat \<Rightarrow> nat" where
  "skip_digits data pos = pos + length (takeWhile is_ascii_digit (drop pos data))"

definition parse_int :: "bytes \<Rightarrow> nat \<Rightarrow> (bvalue \<times> nat) meta_result" where
  "parse_int data pos =
     (let start = pos in
      case peek data pos of Inl e \<Rightarrow> Inl e | Inr c \<Rightarrow>
      if c \<noteq> 105 then Inl (BencodeError start (''expected '' @ [CHR 0x27] @ ''i'' @ [CHR 0x27])) else
      let num_start = pos + 1 in
      case peek data num_start of Inl e \<Rightarrow> Inl e | Inr c \<Rightarrow>
      let neg = (c = 45); digits_start = (if neg then num_start + 1 else num_start) in
      if digits_start \<ge> length data then Inl UnexpectedEof else
      let p = skip_digits data digits_start in
      if p \<ge> length data \<or> data ! p \<noteq> 101 then Inl (BencodeError start ''unterminated integer'') else
      let digits = slice digits_start p data in
      if digits = [] then Inl (BencodeError start ''empty integer'')
      else if length digits > 1 \<and> digits ! 0 = 48 then Inl (BencodeError start ''leading zero in integer'')
      else if neg \<and> digits = [48] then Inl (BencodeError start ''negative zero'')
      else
        let n = (if neg then - int (digits_value digits) else int (digits_value digits)) in
        if i64_min \<le> n \<and> n \<le> i64_max then Inr (VInt n, p + 1) else Inl IntegerOverflow)"

text \<open>The loop of \<open>parse_bytes\<close> that reads the length up to the colon.\<close>

function parse_len :: "bytes \<Rightarrow> nat \<Rightarrow> nat \<Rightarrow> nat \<Rightarrow> bool \<Rightarrow> (nat \<times> bool \<times> nat) meta_result" where
  "parse_len data start pos len saw =
     (if pos \<ge> length data then Inl UnexpectedEof
      else
        let b = data ! pos; pos' = pos + 1 in
        if b = 58 then Inr (len, saw, pos')
        else if \<not> is_ascii_digit b then Inl (BencodeError start ''bad string length'')
        else if \<not> saw \<and> b = 48 then
          (case peek data pos' of
             Inl e \<Rightarrow> Inl e
           | Inr nx \<Rightarrow>
               if nx \<noteq> 58 \<and> is_ascii_digit nx
               then Inl (BencodeError start ''leading zero in string length'')
               else parse_len data start pos' len True)
        else if len * 10 > usize_max \<or> len * 10 + (unat b - 48) > usize_max
        then Inl (BencodeError start ''string length overflow'')
        else parse_len data start pos' (len * 10 + (unat b - 48)) True)"
  by pat_completeness auto
termination by (relation "measure (\<lambda>(data, start, pos, len, saw). length data - pos)") auto

declare parse_len.simps [simp del]

definition parse_bytes :: "bytes \<Rightarrow> nat \<Rightarrow> (bytes \<times> nat) meta_result" where
  "parse_bytes data pos =
     (let start = pos in
      case parse_len data start pos 0 False of
        Inl e \<Rightarrow> Inl e
      | Inr (len, saw_digit, p) \<Rightarrow>
          if \<not> saw_digit then Inl (BencodeError start ''missing string length'')
          else if p + len > usize_max then Inl (BencodeError start ''string length overflow'')
          else if p + len > length data then Inl UnexpectedEof
          else Inr (slice p (p + len) data, p + len))"

definition hex_digit :: "nat \<Rightarrow> char" where
  "hex_digit n = ''0123456789abcdef'' ! n"

definition unexpected_byte :: "u8 \<Rightarrow> string" where
  "unexpected_byte b = ''unexpected byte 0x'' @ [hex_digit (unat b div 16), hex_digit (unat b mod 16)]"

fun parse_value :: "nat \<Rightarrow> bytes \<Rightarrow> nat \<Rightarrow> (bvalue \<times> nat) meta_result"
  and list_loop :: "nat \<Rightarrow> bytes \<Rightarrow> nat \<Rightarrow> bvalue list \<Rightarrow> (bvalue list \<times> nat) meta_result"
  and dict_loop :: "nat \<Rightarrow> bytes \<Rightarrow> nat \<Rightarrow> (bytes \<times> bvalue) list
        \<Rightarrow> ((bytes \<times> bvalue) list \<times> nat) meta_result"
where
  "parse_value 0 data pos = Inl StepLimit"
| "parse_value (Suc fuel) data pos =
     (case peek data pos of Inl e \<Rightarrow> Inl e | Inr c \<Rightarrow>
      if c = 105 then parse_int data pos
      else if c = 108 then
        (case list_loop fuel data (pos + 1) [] of Inl e \<Rightarrow> Inl e | Inr (items, p) \<Rightarrow> Inr (VList items, p))
      else if c = 100 then
        (case dict_loop fuel data (pos + 1) [] of Inl e \<Rightarrow> Inl e | Inr (m, p) \<Rightarrow> Inr (VDict m, p))
      else if is_ascii_digit c then
        (case parse_bytes data pos of Inl e \<Rightarrow> Inl e | Inr (b, p) \<Rightarrow> Inr (VBytes b, p))
      else Inl (BencodeError pos (unexpected_byte c)))"
| "list_loop 0 data pos items = Inl StepLimit"
| "list_loop (Suc fuel) data pos items =
     (case peek data pos of Inl e \<Rightarrow> Inl e | Inr c \<Rightarrow>
      if c = 101 then Inr (items, pos + 1)
      else case parse_value fuel data pos of
             Inl e \<Rightarrow> Inl e
           | Inr (v, p) \<Rightarrow> list_loop fuel data p (items @ [v]))"
| "dict_loop 0 data pos m = Inl StepLimit"
| "dict_loop (Suc fuel) data pos m =
     (case peek data pos of Inl e \<Rightarrow> Inl e | Inr c \<Rightarrow>
      if c = 101 then Inr (m, pos + 1)
      else case parse_bytes data pos of
             Inl e \<Rightarrow> Inl e
           | Inr (key, p) \<Rightarrow>
               (case parse_value fuel data p of
                  Inl e \<Rightarrow> Inl e
                | Inr (v, p') \<Rightarrow> dict_loop fuel data p' (btree_insert key v m)))"

definition parse_fuel :: "bytes \<Rightarrow> nat" where
  "parse_fuel data = 2 * length data + 2"

definition decode_prefix :: "bytes \<Rightarrow> (bvalue \<times> nat) meta_result" where
  "decode_prefix data = parse_value (parse_fuel data) data 0"

definition decode :: "bytes \<Rightarrow> bvalue meta_result" where
  "decode data =
     (case decode_prefix data of
        Inl e \<Rightarrow> Inl e
      | Inr (v, consumed) \<Rightarrow>
          if consumed \<noteq> length data then Inl (TrailingBytes (length data - consumed)) else Inr v)"

definition skip_value :: "bytes \<Rightarrow> nat \<Rightarrow> nat meta_result" where
  "skip_value data pos =
     (case parse_value (parse_fuel data) data pos of Inl e \<Rightarrow> Inl e | Inr (v, p) \<Rightarrow> Inr p)"

text \<open>The scan of \<open>extract_dict_key_raw\<close>; every round consumes a key, so \<open>length data\<close> rounds
  are enough.\<close>

fun extract_loop :: "nat \<Rightarrow> bytes \<Rightarrow> bytes \<Rightarrow> nat \<Rightarrow> bytes option meta_result" where
  "extract_loop fuel data key pos =
     (if pos < length data then
        (if data ! pos = 101 then Inr None
         else case fuel of 0 \<Rightarrow> Inl StepLimit | Suc fuel' \<Rightarrow>
           (case parse_bytes data pos of Inl e \<Rightarrow> Inl e | Inr (k, value_start) \<Rightarrow>
            (case skip_value data value_start of Inl e \<Rightarrow> Inl e | Inr p \<Rightarrow>
             if k = key then Inr (Some (slice value_start p data))
             else extract_loop fuel' data key p)))
      else Inl UnexpectedEof)"

declare extract_loop.simps [simp del]

definition extract_dict_key_raw :: "bytes \<Rightarrow> bytes \<Rightarrow> bytes option meta_result" where
  "extract_dict_key_raw data key =
     (if data = [] then Inl UnexpectedEof
      else if data ! 0 \<noteq> 100 then Inl (BencodeError 0 ''expected dict'')
      else extract_loop (length data) data key 1)"

section \<open>Decimal text\<close>

lemma digits_value_append1: "digits_value (ds @ [d]) = digits_value ds * 10 + (unat d - 48)"
  by (simp add: digits_value_def)

lemma unat_digit: "n < 10 \<Longrightarrow> unat (word_of_nat (48 + n) :: u8) = 48 + n"
  by (simp add: unat_word_of_nat_u8 del: of_nat_add)

lemma is_ascii_digit_word: "n < 10 \<Longrightarrow> is_ascii_digit (word_of_nat (48 + n))"
  using unat_digit [of n] by (simp add: is_ascii_digit_def word_le_nat_alt)

lemma to_string_nat_induct [case_names small large]:
  assumes "\<And>n. n < 10 \<Longrightarrow> P n" and "\<And>n. \<not> n < 10 \<Longrightarrow> P (n div 10) \<Longrightarrow> P n"
  shows "P (n :: nat)"
  by (induction n rule: less_induct) (metis assms div_less_dividend less_numeral_extra(1)
      nat_neq_iff not_less0 one_less_numeral_iff semiring_norm(76) zero_less_numeral)

lemma digits_value_to_string: "digits_value (to_string_nat n) = n"
proof (induction n rule: to_string_nat_induct)
  case (small n)
  then show ?case
    by (subst to_string_nat.simps) (simp add: digits_value_def unat_digit del: of_nat_add)
next
  case (large n)
  have "n mod 10 < 10" by simp
  then show ?case using large
    by (subst to_string_nat.simps) (simp add: digits_value_append1 unat_digit del: of_nat_add)
qed

lemma to_string_nat_digits: "\<forall>d\<in>set (to_string_nat n). is_ascii_digit d"
proof (induction n rule: to_string_nat_induct)
  case (small n)
  then show ?case by (subst to_string_nat.simps) (simp add: is_ascii_digit_word del: of_nat_add)
next
  case (large n)
  have "n mod 10 < 10" by simp
  then show ?case using large
    by (subst to_string_nat.simps) (simp add: is_ascii_digit_word del: of_nat_add)
qed

lemma to_string_nat_nonempty [simp]: "to_string_nat n \<noteq> []"
  by (subst to_string_nat.simps) simp

lemma to_string_nat_0: "to_string_nat 0 = [48]"
  by (subst to_string_nat.simps) simp

lemma to_string_nat_hd: "0 < n \<Longrightarrow> hd (to_string_nat n) \<noteq> 48"
proof (induction n rule: to_string_nat_induct)
  case (small n)
  have "unat (word_of_nat (48 + n) :: u8) \<noteq> unat (48 :: u8)" using small unat_digit [of n] by simp
  then have "(word_of_nat (48 + n) :: u8) \<noteq> 48" by metis
  then show ?case using small by (subst to_string_nat.simps) (simp del: of_nat_add)
next
  case (large n)
  then show ?case by (subst to_string_nat.simps) simp
qed

lemma digit_not_colon: "is_ascii_digit d \<Longrightarrow> d \<noteq> 58 \<and> d \<noteq> 101 \<and> d \<noteq> 45 \<and> d \<noteq> 105 \<and> d \<noteq> 108 \<and> d \<noteq> 100"
  by (auto simp: is_ascii_digit_def word_le_nat_alt)

section \<open>Progress and fuel\<close>

lemma parse_len_progress:
  "parse_len data start pos len saw = Inr (n, b, p) \<Longrightarrow> pos < p \<and> p \<le> length data"
proof (induction data start pos len saw rule: parse_len.induct)
  case (1 data start pos len saw)
  show ?case
    using 1(3) 1(1,2)
    by (subst (asm) parse_len.simps) (fastforce simp: Let_def split: if_splits sum.splits)
qed

lemma parse_bytes_progress: "parse_bytes data pos = Inr (b, p) \<Longrightarrow> pos < p \<and> p \<le> length data"
  using parse_len_progress [of data pos pos 0 False]
  by (fastforce simp: parse_bytes_def Let_def split: sum.splits if_splits)

lemma parse_int_progress: "parse_int data pos = Inr (v, p) \<Longrightarrow> pos < p \<and> p \<le> length data"
  by (auto simp: parse_int_def Let_def skip_digits_def split: sum.splits if_splits)

text \<open>One round of each parser, as cases on its successful result.\<close>

lemma parse_value_ok_cases:
  assumes "parse_value (Suc fuel) data pos = Inr (v, p)"
  obtains (int) "parse_int data pos = Inr (v, p)"
    | (list) items where "v = VList items" "data ! pos = 108" "pos < length data" "list_loop fuel data (pos + 1) [] = Inr (items, p)"
    | (dict) m where "v = VDict m" "data ! pos = 100" "pos < length data" "dict_loop fuel data (pos + 1) [] = Inr (m, p)"
    | (bytes) b where "v = VBytes b" "parse_bytes data pos = Inr (b, p)"
  using assms by (auto simp: peek_def split: sum.splits if_splits)

lemma list_loop_ok_cases:
  assumes "list_loop (Suc fuel) data pos items = Inr (l, p)"
  obtains (stop) "pos < length data" "data ! pos = 101" "l = items" "p = pos + 1"
    | (step) v q where "pos < length data" "data ! pos \<noteq> 101" "parse_value fuel data pos = Inr (v, q)"
        "list_loop fuel data q (items @ [v]) = Inr (l, p)"
  using assms by (auto simp: peek_def split: sum.splits if_splits)

lemma dict_loop_ok_cases:
  assumes "dict_loop (Suc fuel) data pos m = Inr (d, p)"
  obtains (stop) "pos < length data" "data ! pos = 101" "d = m" "p = pos + 1"
    | (step) k q v q' where "pos < length data" "data ! pos \<noteq> 101" "parse_bytes data pos = Inr (k, q)"
        "parse_value fuel data q = Inr (v, q')" "dict_loop fuel data q' (btree_insert k v m) = Inr (d, p)"
  using assms by (auto simp: peek_def split: sum.splits if_splits)

lemma parse_progress_all:
  "(\<forall>pos v p. parse_value f data pos = Inr (v, p) \<longrightarrow> pos < p \<and> p \<le> length data)
   \<and> (\<forall>pos items l p. list_loop f data pos items = Inr (l, p) \<longrightarrow> pos < p \<and> p \<le> length data)
   \<and> (\<forall>pos m d p. dict_loop f data pos m = Inr (d, p) \<longrightarrow> pos < p \<and> p \<le> length data)"
proof (induction f)
  case 0
  then show ?case by simp
next
  case (Suc f)
  have V: "pos < p \<and> p \<le> length data" if "parse_value (Suc f) data pos = Inr (v, p)" for pos v p
    using that
  proof (cases rule: parse_value_ok_cases)
    case int
    then show ?thesis by (rule parse_int_progress)
  next
    case (list items)
    then have "pos + 1 < p \<and> p \<le> length data" using Suc by blast
    then show ?thesis by simp
  next
    case (dict m)
    then have "pos + 1 < p \<and> p \<le> length data" using Suc by blast
    then show ?thesis by simp
  next
    case (bytes b)
    then show ?thesis by (simp add: parse_bytes_progress)
  qed
  have L: "pos < p \<and> p \<le> length data" if "list_loop (Suc f) data pos items = Inr (l, p)" for pos items l p
    using that
  proof (cases rule: list_loop_ok_cases)
    case (step v q)
    then have "pos < q" "q < p \<and> p \<le> length data" using Suc by blast+
    then show ?thesis by simp
  qed simp
  have D: "pos < p \<and> p \<le> length data" if "dict_loop (Suc f) data pos m = Inr (d, p)" for pos m d p
    using that
  proof (cases rule: dict_loop_ok_cases)
    case (step k q v q')
    then have "pos < q" "q < q'" "q' < p \<and> p \<le> length data" using Suc parse_bytes_progress by blast+
    then show ?thesis by simp
  qed simp
  from V L D show ?case by blast
qed

lemma parse_value_progress: "parse_value f data pos = Inr (v, p) \<Longrightarrow> pos < p \<and> p \<le> length data"
  using parse_progress_all by blast

lemma parse_len_no_limit: "parse_len data start pos len saw \<noteq> Inl StepLimit"
proof (induction data start pos len saw rule: parse_len.induct)
  case (1 data start pos len saw)
  then show ?case
    by (subst parse_len.simps) (auto simp: Let_def peek_def split: sum.splits)
qed

lemma parse_bytes_no_limit: "parse_bytes data pos \<noteq> Inl StepLimit"
  using parse_len_no_limit [of data pos pos 0 False]
  by (auto simp: parse_bytes_def Let_def split: sum.splits)

lemma parse_int_no_limit: "parse_int data pos \<noteq> Inl StepLimit"
  by (auto simp: parse_int_def Let_def peek_def split: sum.splits)

text \<open>Two units of fuel per unread byte are enough for every parser.\<close>

lemma enough_fuel_all:
  "(\<forall>pos. 2 * (length data - pos) + 1 \<le> f \<longrightarrow> parse_value f data pos \<noteq> Inl StepLimit)
   \<and> (\<forall>pos items. 2 * (length data - pos) + 2 \<le> f \<longrightarrow> list_loop f data pos items \<noteq> Inl StepLimit)
   \<and> (\<forall>pos m. 2 * (length data - pos) + 2 \<le> f \<longrightarrow> dict_loop f data pos m \<noteq> Inl StepLimit)"
proof (induction f)
  case 0
  then show ?case by simp
next
  case (Suc f)
  have V: "parse_value (Suc f) data pos \<noteq> Inl StepLimit" if "2 * (length data - pos) + 1 \<le> Suc f" for pos
  proof (cases "pos < length data")
    case True
    then have "2 * (length data - (pos + 1)) + 2 \<le> f" using that by linarith
    then have "list_loop f data (pos + 1) [] \<noteq> Inl StepLimit" "dict_loop f data (pos + 1) [] \<noteq> Inl StepLimit"
      using Suc by blast+
    then show ?thesis using parse_int_no_limit [of data pos] parse_bytes_no_limit [of data pos]
      by (auto simp: peek_def split: sum.splits)
  qed (simp add: peek_def)
  have L: "list_loop (Suc f) data pos items \<noteq> Inl StepLimit" if "2 * (length data - pos) + 2 \<le> Suc f" for pos items
  proof (cases "pos < length data")
    case True
    have v: "parse_value f data pos \<noteq> Inl StepLimit" using Suc that by simp
    have "list_loop f data q (items @ [v]) \<noteq> Inl StepLimit" if "parse_value f data pos = Inr (v, q)" for v q
    proof -
      have "pos < q" using parse_value_progress that by blast
      then have "2 * (length data - q) + 2 \<le> f" using True \<open>2 * (length data - pos) + 2 \<le> Suc f\<close> by linarith
      then show ?thesis using Suc by blast
    qed
    with v show ?thesis by (auto simp: peek_def split: sum.splits)
  qed (simp add: peek_def)
  have D: "dict_loop (Suc f) data pos m \<noteq> Inl StepLimit" if "2 * (length data - pos) + 2 \<le> Suc f" for pos m
  proof (cases "pos < length data")
    case True
    have v: "parse_value f data q \<noteq> Inl StepLimit" if "parse_bytes data pos = Inr (k, q)" for k q
    proof -
      have "pos < q" using parse_bytes_progress that by blast
      then have "2 * (length data - q) + 1 \<le> f" using True \<open>2 * (length data - pos) + 2 \<le> Suc f\<close> by linarith
      then show ?thesis using Suc by blast
    qed
    have "dict_loop f data q' m' \<noteq> Inl StepLimit"
      if "parse_bytes data pos = Inr (k, q)" "parse_value f data q = Inr (v, q')" for k q v q' m'
    proof -
      have "pos < q" "q < q'" using parse_bytes_progress parse_value_progress that by blast+
      then have "2 * (length data - q') + 2 \<le> f" using True \<open>2 * (length data - pos) + 2 \<le> Suc f\<close> by linarith
      then show ?thesis using Suc by blast
    qed
    with v show ?thesis using parse_bytes_no_limit [of data pos]
      by (auto simp: peek_def split: sum.splits)
  qed (simp add: peek_def)
  from V L D show ?case by blast
qed

lemma enough_fuel: "2 * (length data - pos) + 1 \<le> f \<Longrightarrow> parse_value f data pos \<noteq> Inl StepLimit"
  using enough_fuel_all by blast

section \<open>Well-formed values\<close>

text \<open>Values the decoder can produce: integers in the \<open>i64\<close> range and strictly sorted keys.\<close>

fun wf_value :: "bvalue \<Rightarrow> bool" where
  "wf_value (VInt n) = (i64_min \<le> n \<and> n \<le> i64_max)"
| "wf_value (VBytes b) = True"
| "wf_value (VList l) = (\<forall>v\<in>set l. wf_value v)"
| "wf_value (VDict m) = (sorted_wrt (<) (map fst m) \<and> (\<forall>(k, v)\<in>set m. wf_value v))"

lemma btree_insert_keys: "set (map fst (btree_insert k v m)) = insert k (set (map fst m))"
  by (induction k v m rule: btree_insert.induct) auto

lemma btree_insert_sorted:
  "sorted_wrt (<) (map fst m) \<Longrightarrow> sorted_wrt (<) (map fst (btree_insert k v m))"
proof (induction k v m rule: btree_insert.induct)
  case (2 k v a b m)
  have "\<forall>x\<in>set (map fst (btree_insert k v m)). a < x" if "a < k"
    using 2(2) that unfolding btree_insert_keys by auto
  with 2 show ?case by (auto simp del: set_map dest: less_trans)
qed simp

lemma btree_insert_values: "(x, y) \<in> set (btree_insert k v m) \<Longrightarrow> (x, y) = (k, v) \<or> (x, y) \<in> set m"
  by (induction k v m rule: btree_insert.induct) (auto split: if_splits)

lemma btree_get_insert: "btree_get x (btree_insert k v m) = (if x = k then Some v else btree_get x m)"
  by (induction k v m rule: btree_insert.induct) (auto simp: btree_get_def)

lemma btree_insert_last: "(\<forall>x\<in>set (map fst m). x < k) \<Longrightarrow> btree_insert k v m = m @ [(k, v)]"
  by (induction k v m rule: btree_insert.induct) (auto simp: not_less_iff_gr_or_eq)

lemma btree_insert_wf:
  "wf_value (VDict m) \<Longrightarrow> wf_value v \<Longrightarrow> wf_value (VDict (btree_insert k v m))"
  using btree_insert_sorted [of m k v] btree_insert_values [of _ _ k v m] by fastforce

lemma parse_int_wf: "parse_int data pos = Inr (v, p) \<Longrightarrow> wf_value v"
  by (auto simp: parse_int_def Let_def split: sum.splits if_splits)

lemma parse_wf_all:
  "(\<forall>pos v p. parse_value f data pos = Inr (v, p) \<longrightarrow> wf_value v)
   \<and> (\<forall>pos items l p. list_loop f data pos items = Inr (l, p) \<longrightarrow> wf_value (VList items) \<longrightarrow> wf_value (VList l))
   \<and> (\<forall>pos m d p. dict_loop f data pos m = Inr (d, p) \<longrightarrow> wf_value (VDict m) \<longrightarrow> wf_value (VDict d))"
proof (induction f)
  case 0
  then show ?case by simp
next
  case (Suc f)
  have V: "wf_value v" if "parse_value (Suc f) data pos = Inr (v, p)" for pos v p
    using that
  proof (cases rule: parse_value_ok_cases)
    case int
    then show ?thesis by (rule parse_int_wf)
  next
    case (list items)
    moreover have "wf_value (VList [])" by simp
    ultimately show ?thesis using Suc by blast
  next
    case (dict m)
    moreover have "wf_value (VDict [])" by simp
    ultimately show ?thesis using Suc by blast
  qed simp
  have L: "wf_value (VList l)"
    if "list_loop (Suc f) data pos items = Inr (l, p)" and w: "wf_value (VList items)" for pos items l p
    using that(1)
  proof (cases rule: list_loop_ok_cases)
    case (step v q)
    then have "wf_value (VList (items @ [v]))" using Suc w by auto
    then show ?thesis using step Suc by blast
  qed (use w in simp)
  have D: "wf_value (VDict d)"
    if "dict_loop (Suc f) data pos m = Inr (d, p)" and w: "wf_value (VDict m)" for pos m d p
    using that(1)
  proof (cases rule: dict_loop_ok_cases)
    case (step k q v q')
    then have "wf_value (VDict (btree_insert k v m))" using Suc w btree_insert_wf by blast
    then show ?thesis using step Suc by blast
  qed (use w in simp)
  from V L D show ?case by blast
qed

lemma parse_value_wf: "parse_value f data pos = Inr (v, p) \<Longrightarrow> wf_value v"
  using parse_wf_all by blast

section \<open>Reading back what the encoder writes\<close>

lemma foldl_digits_mono: "(acc :: nat) \<le> foldl (\<lambda>a d. a * 10 + f d) acc ds"
proof (induction ds arbitrary: acc)
  case (Cons d ds)
  have "acc \<le> acc * 10 + f d" by simp
  also have "\<dots> \<le> foldl (\<lambda>a d. a * 10 + f d) (acc * 10 + f d) ds" by (rule Cons)
  finally show ?case by simp
qed simp

lemma parse_len_digits:
  assumes "\<forall>d\<in>set ds. is_ascii_digit d"
    and "foldl (\<lambda>a d. a * 10 + (unat d - 48)) acc ds \<le> usize_max"
  shows "parse_len (pre @ ds @ 58 # rest) start (length pre) acc True =
    Inr (foldl (\<lambda>a d. a * 10 + (unat d - 48)) acc ds, True, length pre + length ds + 1)"
  using assms
proof (induction ds arbitrary: pre acc)
  case Nil
  then show ?case by (subst parse_len.simps) simp
next
  case (Cons d ds)
  have d: "is_ascii_digit d" "d \<noteq> 58" using Cons.prems(1) digit_not_colon by auto
  have le: "acc * 10 + (unat d - 48) \<le> usize_max"
    using Cons.prems(2) foldl_digits_mono [of "acc * 10 + (unat d - 48)" "\<lambda>d. unat d - 48" ds] by simp
  have IH: "parse_len ((pre @ [d]) @ ds @ 58 # rest) start (length (pre @ [d])) (acc * 10 + (unat d - 48)) True =
    Inr (foldl (\<lambda>a d. a * 10 + (unat d - 48)) (acc * 10 + (unat d - 48)) ds, True,
      length (pre @ [d]) + length ds + 1)"
    using Cons.prems by (intro Cons.IH) auto
  show ?case
    using d le IH by (subst parse_len.simps) (simp add: Let_def)
qed

lemma parse_len_to_string:
  assumes "n \<le> usize_max"
  shows "parse_len (pre @ to_string_nat n @ 58 # rest) start (length pre) 0 False =
    Inr (n, True, length pre + length (to_string_nat n) + 1)"
proof (cases "n = 0")
  case True
  then show ?thesis
    using parse_len_digits [of "[]" 0 "pre @ [48]" rest start]
    by (subst parse_len.simps) (simp add: to_string_nat_0 is_ascii_digit_def peek_def nth_append Let_def)
next
  case False
  obtain d ds where ds: "to_string_nat n = d # ds" by (cases "to_string_nat n") auto
  have d: "is_ascii_digit d" "d \<noteq> 58" "d \<noteq> 48"
    using to_string_nat_digits [of n] to_string_nat_hd [of n] False ds digit_not_colon by auto
  have val: "foldl (\<lambda>a d. a * 10 + (unat d - 48)) (unat d - 48) ds = n"
    using digits_value_to_string [of n] by (simp add: ds digits_value_def)
  have le: "unat d - 48 \<le> usize_max"
    using val foldl_digits_mono [of "unat d - 48" "\<lambda>d. unat d - 48" ds] assms by simp
  have "parse_len ((pre @ [d]) @ ds @ 58 # rest) start (length (pre @ [d])) (unat d - 48) True =
    Inr (n, True, length (pre @ [d]) + length ds + 1)"
    using to_string_nat_digits [of n] val assms ds
    by (subst parse_len_digits) auto
  then show ?thesis
    using d le by (subst parse_len.simps) (simp add: ds Let_def)
qed

lemma parse_bytes_encode:
  assumes "length (pre @ encode_bytes b @ rest) \<le> usize_max"
  shows "parse_bytes (pre @ encode_bytes b @ rest) (length pre) =
    Inr (b, length pre + length (encode_bytes b))"
proof -
  have n: "length b \<le> usize_max" using assms by (simp add: encode_bytes_def)
  have p: "parse_len (pre @ to_string_nat (length b) @ 58 # (b @ rest)) (length pre) (length pre) 0 False =
    Inr (length b, True, length pre + length (to_string_nat (length b)) + 1)"
    by (rule parse_len_to_string [OF n])
  have sl: "slice (length pre + length (to_string_nat (length b)) + 1)
      (length pre + length (to_string_nat (length b)) + 1 + length b)
      (pre @ to_string_nat (length b) @ 58 # b @ rest) = b"
    by (simp add: slice_def)
  show ?thesis
    using p sl assms by (simp add: parse_bytes_def encode_bytes_def)
qed

lemma takeWhile_digits: "takeWhile is_ascii_digit (to_string_nat n @ 101 # rest) = to_string_nat n"
  using to_string_nat_digits [of n]
  by (subst takeWhile_append2) (auto simp: is_ascii_digit_def word_le_nat_alt)

lemma to_string_nat_leading:
  "\<not> (length (to_string_nat n) > 1 \<and> to_string_nat n ! 0 = 48)" "to_string_nat n = [48] \<longleftrightarrow> n = 0"
proof -
  show "\<not> (length (to_string_nat n) > 1 \<and> to_string_nat n ! 0 = 48)"
    using to_string_nat_hd [of n] to_string_nat_0 by (cases "n = 0") (auto simp: hd_conv_nth)
  show "to_string_nat n = [48] \<longleftrightarrow> n = 0"
    using to_string_nat_0 to_string_nat_hd [of n] by fastforce
qed

lemma parse_int_nonneg:
  assumes n: "int k \<le> i64_max"
  shows "parse_int (pre @ [105] @ to_string_nat k @ [101] @ rest) (length pre)
    = Inr (VInt (int k), length pre + 1 + length (to_string_nat k) + 1)"
proof -
  let ?data = "pre @ 105 # to_string_nat k @ 101 # rest"
  obtain d ds where ds: "to_string_nat k = d # ds" by (cases "to_string_nat k") auto
  have d: "d \<noteq> 45" using to_string_nat_digits [of k] ds digit_not_colon by auto
  have d1: "?data ! Suc (length pre) = d" by (simp add: nth_append ds)
  have sk: "skip_digits ?data (Suc (length pre)) = Suc (length pre) + length (to_string_nat k)"
    by (simp add: skip_digits_def takeWhile_digits)
  have sl: "slice (Suc (length pre)) (Suc (length pre) + length (to_string_nat k)) ?data = to_string_nat k"
    by (simp add: slice_def)
  have e: "?data ! (Suc (length pre) + length (to_string_nat k)) = 101"
    by (simp add: nth_append)
  show ?thesis
    using n d sk sl e to_string_nat_leading(1) [of k]
    by (simp add: parse_int_def peek_def Let_def d1 digits_value_to_string)
qed

lemma parse_int_neg:
  assumes n: "i64_min \<le> - int k" and k: "0 < k"
  shows "parse_int (pre @ [105] @ (45 # to_string_nat k) @ [101] @ rest) (length pre)
    = Inr (VInt (- int k), length pre + 1 + (1 + length (to_string_nat k)) + 1)"
proof -
  let ?data = "pre @ 105 # 45 # to_string_nat k @ 101 # rest"
  have d1: "?data ! Suc (length pre) = 45" by (simp add: nth_append)
  have sk: "skip_digits ?data (Suc (Suc (length pre))) = Suc (Suc (length pre)) + length (to_string_nat k)"
    by (simp add: skip_digits_def takeWhile_digits)
  have sl: "slice (Suc (Suc (length pre))) (Suc (Suc (length pre)) + length (to_string_nat k)) ?data = to_string_nat k"
    by (simp add: slice_def)
  have e: "?data ! (Suc (Suc (length pre)) + length (to_string_nat k)) = 101"
    by (simp add: nth_append)
  show ?thesis
    using n k sk sl e to_string_nat_leading [of k]
    by (simp add: parse_int_def peek_def Let_def d1 digits_value_to_string)
qed

lemma parse_int_encode:
  assumes "wf_value (VInt n)"
  shows "parse_int (pre @ encode (VInt n) @ rest) (length pre) = Inr (VInt n, length pre + length (encode (VInt n)))"
proof (cases "n < 0")
  case True
  then have "0 < nat (- n)" "i64_min \<le> - int (nat (- n))" using assms by auto
  from parse_int_neg [OF this(2,1), of pre rest] True show ?thesis
    by (simp add: to_string_int_def)
next
  case False
  then have "int (nat n) \<le> i64_max" using assms by auto
  from parse_int_nonneg [OF this, of pre rest] False show ?thesis
    by (simp add: to_string_int_def)
qed

lemma encode_bytes_hd: "\<exists>d ds. encode_bytes b = d # ds \<and> is_ascii_digit d"
  using to_string_nat_digits [of "length b"]
  by (cases "to_string_nat (length b)") (auto simp: encode_bytes_def)

lemma encode_hd:
  "\<exists>c cs. encode v = c # cs \<and> c \<noteq> 101 \<and>
     (case v of VInt n \<Rightarrow> c = 105 | VList l \<Rightarrow> c = 108 | VDict m \<Rightarrow> c = 100 | VBytes b \<Rightarrow> is_ascii_digit c)"
  using encode_bytes_hd digit_not_colon by (cases v) (auto, blast)

lemma encode_nonempty: "0 < length (encode v)"
  using encode_hd [of v] by auto

definition parses :: "bvalue \<Rightarrow> bool" where
  "parses v \<longleftrightarrow> (\<forall>f pre rest. length (pre @ encode v @ rest) \<le> usize_max \<longrightarrow> 2 * length (encode v) \<le> f \<longrightarrow>
     parse_value f (pre @ encode v @ rest) (length pre) = Inr (v, length pre + length (encode v)))"

lemma parsesD:
  "parses v \<Longrightarrow> length (pre @ encode v @ rest) \<le> usize_max \<Longrightarrow> 2 * length (encode v) \<le> f \<Longrightarrow>
     parse_value f (pre @ encode v @ rest) (length pre) = Inr (v, length pre + length (encode v))"
  by (simp add: parses_def)

lemma list_loop_encode:
  assumes "\<forall>v\<in>set vs. parses v"
    and "length (pre @ concat (map encode vs) @ 101 # rest) \<le> usize_max"
    and "2 * (length (concat (map encode vs)) + 1) \<le> f"
  shows "list_loop f (pre @ concat (map encode vs) @ 101 # rest) (length pre) acc
    = Inr (acc @ vs, length pre + length (concat (map encode vs)) + 1)"
  using assms
proof (induction vs arbitrary: pre acc f)
  case Nil
  then obtain f' where "f = Suc f'" by (cases f) auto
  then show ?case by (simp add: peek_def)
next
  case (Cons v vs)
  let ?tl = "concat (map encode vs) @ 101 # rest"
  obtain f' where f: "f = Suc f'" using Cons.prems(3) by (cases f) auto
  obtain c cs where c: "encode v = c # cs" "c \<noteq> 101" using encode_hd [of v] by blast
  have v: "parse_value f' (pre @ encode v @ ?tl) (length pre) = Inr (v, length pre + length (encode v))"
    using Cons.prems f encode_nonempty [of v] by (intro parsesD) auto
  have IH: "list_loop f' ((pre @ encode v) @ ?tl) (length (pre @ encode v)) (acc @ [v])
    = Inr ((acc @ [v]) @ vs, length (pre @ encode v) + length (concat (map encode vs)) + 1)"
    using Cons.prems f c(1) by (intro Cons.IH) auto
  show ?case
    using v IH c f by (simp add: peek_def nth_append)
qed

text \<open>
  \<open>reads raw v\<close>: the bytes \<open>raw\<close>, wherever they stand, are read as the value \<open>v\<close>. It holds of
  \<open>encode v\<close>, and below of any complete encoding of \<open>v\<close>, canonical or not.
\<close>

definition reads :: "bytes \<Rightarrow> bvalue \<Rightarrow> bool" where
  "reads raw v \<longleftrightarrow> (\<forall>f pre rest. length (pre @ raw @ rest) \<le> usize_max \<longrightarrow> 2 * length raw + 2 \<le> f \<longrightarrow>
     parse_value f (pre @ raw @ rest) (length pre) = Inr (v, length pre + length raw))"

lemma readsD:
  "reads raw v \<Longrightarrow> length (pre @ raw @ rest) \<le> usize_max \<Longrightarrow> 2 * length raw + 2 \<le> f \<Longrightarrow>
     parse_value f (pre @ raw @ rest) (length pre) = Inr (v, length pre + length raw)"
  by (simp add: reads_def)

lemma parses_reads: "parses v \<Longrightarrow> reads (encode v) v"
  by (simp add: parses_def reads_def)

text \<open>The body of a dictionary whose values are given as raw bytes.\<close>

definition raw_entries :: "(bytes \<times> bytes) list \<Rightarrow> bytes" where
  "raw_entries es = concat (map (\<lambda>(k, raw). encode_bytes k @ raw) es)"

lemma raw_entries_simps [simp]:
  "raw_entries [] = []" "raw_entries ((k, raw) # es) = encode_bytes k @ raw @ raw_entries es"
  "raw_entries (xs @ ys) = raw_entries xs @ raw_entries ys"
  by (simp_all add: raw_entries_def)

lemma dict_loop_raw:
  assumes "\<forall>(k, raw, v)\<in>set m. reads raw v" and "sorted_wrt (<) (map fst acc @ map fst m)"
    and "length (pre @ raw_entries (map (\<lambda>(k, raw, v). (k, raw)) m) @ 101 # rest) \<le> usize_max"
    and "2 * (length (raw_entries (map (\<lambda>(k, raw, v). (k, raw)) m)) + 1) \<le> f"
  shows "dict_loop f (pre @ raw_entries (map (\<lambda>(k, raw, v). (k, raw)) m) @ 101 # rest) (length pre) acc
    = Inr (acc @ map (\<lambda>(k, raw, v). (k, v)) m,
           length pre + length (raw_entries (map (\<lambda>(k, raw, v). (k, raw)) m)) + 1)"
  using assms
proof (induction m arbitrary: pre acc f)
  case Nil
  then obtain f' where "f = Suc f'" by (cases f) auto
  then show ?case by (simp add: peek_def)
next
  case (Cons krv m)
  obtain k raw v where kv: "krv = (k, raw, v)" by (cases krv) auto
  let ?es = "raw_entries (map (\<lambda>(k, raw, v). (k, raw)) m)"
  let ?tl = "?es @ 101 # rest"
  obtain f' where f: "f = Suc f'" using Cons.prems(4) by (cases f) auto
  obtain c cs where c: "encode_bytes k = c # cs" "c \<noteq> 101"
    using encode_bytes_hd [of k] digit_not_colon by auto
  have k: "parse_bytes (pre @ encode_bytes k @ raw @ ?tl) (length pre) = Inr (k, length pre + length (encode_bytes k))"
    using Cons.prems kv by (intro parse_bytes_encode) auto
  have v: "parse_value f' ((pre @ encode_bytes k) @ raw @ ?tl) (length (pre @ encode_bytes k))
    = Inr (v, length (pre @ encode_bytes k) + length raw)"
    using Cons.prems kv f c by (intro readsD) auto
  have ins: "btree_insert k v acc = acc @ [(k, v)]"
    using Cons.prems(2) kv by (intro btree_insert_last) (auto simp: sorted_wrt_append)
  have IH: "dict_loop f' ((pre @ encode_bytes k @ raw) @ ?tl) (length (pre @ encode_bytes k @ raw)) (acc @ [(k, v)])
    = Inr ((acc @ [(k, v)]) @ map (\<lambda>(k, raw, v). (k, v)) m, length (pre @ encode_bytes k @ raw) + length ?es + 1)"
    using Cons.prems f kv c(1) by (intro Cons.IH) auto
  show ?case
    using k v ins IH c f kv by (simp add: peek_def nth_append add.assoc)
qed

lemma raw_dict_reads:
  assumes "\<forall>(k, raw, v)\<in>set m. reads raw v" and "sorted_wrt (<) (map fst m)"
  shows "reads ([100] @ raw_entries (map (\<lambda>(k, raw, v). (k, raw)) m) @ [101])
    (VDict (map (\<lambda>(k, raw, v). (k, v)) m))"
  unfolding reads_def
proof (intro allI impI)
  let ?es = "raw_entries (map (\<lambda>(k, raw, v). (k, raw)) m)"
  fix f pre rest
  assume a: "length (pre @ ([100] @ ?es @ [101]) @ rest) \<le> usize_max"
    and b: "2 * length ([100] @ ?es @ [101]) + 2 \<le> f"
  then obtain f' where f: "f = Suc f'" by (cases f) auto
  show "parse_value f (pre @ ([100] @ ?es @ [101]) @ rest) (length pre)
      = Inr (VDict (map (\<lambda>(k, raw, v). (k, v)) m), length pre + length ([100] @ ?es @ [101]))"
    using dict_loop_raw [OF assms(1), of "[]" "pre @ [100]" rest f'] a b f assms(2)
    by (simp add: peek_def nth_append)
qed

lemma dict_entries_raw:
  "concat (map (\<lambda>(k, v). encode_bytes k @ encode v) m) =
     raw_entries (map (\<lambda>(k, raw, v). (k, raw)) (map (\<lambda>(k, v). (k, encode v, v)) m))"
  by (induction m) auto

lemma dict_loop_encode:
  assumes "\<forall>(k, v)\<in>set m. parses v" and "sorted_wrt (<) (map fst m)"
    and "length (pre @ concat (map (\<lambda>(k, v). encode_bytes k @ encode v) m) @ 101 # rest) \<le> usize_max"
    and "2 * (length (concat (map (\<lambda>(k, v). encode_bytes k @ encode v) m)) + 1) \<le> f"
  shows "dict_loop f (pre @ concat (map (\<lambda>(k, v). encode_bytes k @ encode v) m) @ 101 # rest) (length pre) []
    = Inr (m, length pre + length (concat (map (\<lambda>(k, v). encode_bytes k @ encode v) m)) + 1)"
proof -
  let ?m = "map (\<lambda>(k, v). (k, encode v, v)) m"
  have "\<forall>(k, raw, v)\<in>set ?m. reads raw v" using assms(1) parses_reads by auto
  moreover have "sorted_wrt (<) (map fst [] @ map fst ?m)"
    using assms(2) by (simp add: case_prod_unfold comp_def)
  moreover have "map (\<lambda>(k, raw, v). (k, v)) ?m = m" by (simp add: case_prod_unfold comp_def)
  ultimately show ?thesis
    using dict_loop_raw [of ?m "[]" pre rest f] assms(3,4) unfolding dict_entries_raw by simp
qed

lemma wf_parses: "wf_value v \<Longrightarrow> parses v"
proof (induction v)
  case (VInt n)
  show ?case
    unfolding parses_def
  proof (intro allI impI)
    fix f pre rest assume "2 * length (encode (VInt n)) \<le> f"
    then obtain f' where "f = Suc f'" using encode_nonempty [of "VInt n"] by (cases f) auto
    then show "parse_value f (pre @ encode (VInt n) @ rest) (length pre)
        = Inr (VInt n, length pre + length (encode (VInt n)))"
      using parse_int_encode [OF VInt] by (simp add: peek_def nth_append)
  qed
next
  case (VBytes b)
  obtain c cs where c: "encode_bytes b = c # cs" "is_ascii_digit c" using encode_bytes_hd by blast
  show ?case
    unfolding parses_def
  proof (intro allI impI)
    fix f pre rest assume a: "length (pre @ encode (VBytes b) @ rest) \<le> usize_max" "2 * length (encode (VBytes b)) \<le> f"
    then obtain f' where "f = Suc f'" using encode_nonempty [of "VBytes b"] by (cases f) auto
    then show "parse_value f (pre @ encode (VBytes b) @ rest) (length pre)
        = Inr (VBytes b, length pre + length (encode (VBytes b)))"
      using parse_bytes_encode [of pre b rest] a c digit_not_colon [OF c(2)] by (simp add: peek_def nth_append)
  qed
next
  case (VList l)
  then have all: "\<forall>v\<in>set l. parses v" by auto
  show ?case
    unfolding parses_def
  proof (intro allI impI)
    fix f pre rest assume a: "length (pre @ encode (VList l) @ rest) \<le> usize_max" "2 * length (encode (VList l)) \<le> f"
    then obtain f' where f: "f = Suc f'" by (cases f) auto
    show "parse_value f (pre @ encode (VList l) @ rest) (length pre)
        = Inr (VList l, length pre + length (encode (VList l)))"
      using list_loop_encode [OF all, of "pre @ [108]" rest f' "[]"] a f
      by (simp add: peek_def nth_append)
  qed
next
  case (VDict m)
  then have all: "\<forall>(k, v)\<in>set m. parses v" by fastforce
  show ?case
    unfolding parses_def
  proof (intro allI impI)
    fix f pre rest assume a: "length (pre @ encode (VDict m) @ rest) \<le> usize_max" "2 * length (encode (VDict m)) \<le> f"
    then obtain f' where f: "f = Suc f'" by (cases f) auto
    show "parse_value f (pre @ encode (VDict m) @ rest) (length pre)
        = Inr (VDict m, length pre + length (encode (VDict m)))"
      using dict_loop_encode [OF all, of "pre @ [100]" rest f'] a f VDict.prems
      by (simp add: peek_def nth_append)
  qed
qed

subsection \<open>A successful parse does not depend on what surrounds it\<close>

lemma parse_len_local:
  "parse_len data start pos len saw = Inr (n, b, p) \<Longrightarrow>
     parse_len (pre @ data @ rest) start' (length pre + pos) len saw = Inr (n, b, length pre + p)"
proof (induction data start pos len saw rule: parse_len.induct)
  case (1 data start pos len saw)
  have lt: "pos < length data" using 1(3) by (subst (asm) parse_len.simps) (simp split: if_splits)
  have nth: "(pre @ data @ rest) ! (length pre + i) = data ! i" if "i < length data" for i
    using that by (simp add: nth_append)
  let ?b = "data ! pos"
  consider (colon) "?b = 58" | (zero) "?b \<noteq> 58" "\<not> saw" "?b = 48" | (digit) "?b \<noteq> 58" "\<not> (\<not> saw \<and> ?b = 48)" by blast
  then show ?case
  proof cases
    case colon
    then show ?thesis using 1(3) lt nth [OF lt]
      by (subst (asm) parse_len.simps, subst parse_len.simps) (simp add: nth_append)
  next
    case zero
    have d: "is_ascii_digit ?b" using 1(3) lt zero by (subst (asm) parse_len.simps) (simp split: if_splits)
    have lt': "pos + 1 < length data"
      using 1(3) lt zero d by (subst (asm) parse_len.simps) (simp add: peek_def split: if_splits)
    have pk: "peek data (pos + 1) = Inr (data ! (pos + 1))" using lt' by (simp add: peek_def)
    have nx: "\<not> (data ! (pos + 1) \<noteq> 58 \<and> is_ascii_digit (data ! (pos + 1)))"
      and rec: "parse_len data start (pos + 1) len True = Inr (n, b, p)"
      using 1(3) lt zero d pk by (subst (asm) parse_len.simps; simp add: Let_def split: if_splits)+
    have "parse_len (pre @ data @ rest) start' (length pre + (pos + 1)) len True = Inr (n, b, length pre + p)"
      using 1(1) [of "data ! pos" "pos + 1" "data ! (pos + 1)"] lt zero d pk nx rec by simp
    moreover have "peek (pre @ data @ rest) (length pre + (pos + 1)) = Inr (data ! (pos + 1))"
      using lt' nth [OF lt'] by (simp add: peek_def nth_append)
    ultimately show ?thesis
      using lt nth [OF lt] zero d nx by (subst parse_len.simps) (simp add: Let_def)
  next
    case digit
    have d: "is_ascii_digit ?b" and ov: "\<not> (len * 10 > usize_max \<or> len * 10 + (unat ?b - 48) > usize_max)"
      and rec: "parse_len data start (pos + 1) (len * 10 + (unat ?b - 48)) True = Inr (n, b, p)"
      using 1(3) lt digit by (subst (asm) parse_len.simps; simp add: Let_def split: if_splits)+
    have "parse_len (pre @ data @ rest) start' (length pre + (pos + 1)) (len * 10 + (unat ?b - 48)) True
        = Inr (n, b, length pre + p)"
      using 1(2) [of "data ! pos" "pos + 1"] lt digit d ov rec by simp
    then show ?thesis
      using lt nth [OF lt] digit d ov by (subst parse_len.simps) (auto simp: Let_def)
  qed
qed

lemma slice_local: "q \<le> length data \<Longrightarrow> slice (length pre + p) (length pre + q) (pre @ data @ rest) = slice p q data"
  by (simp add: slice_def)

lemma parse_bytes_local:
  assumes "parse_bytes data pos = Inr (b, p)" and "length (pre @ data @ rest) \<le> usize_max"
  shows "parse_bytes (pre @ data @ rest) (length pre + pos) = Inr (b, length pre + p)"
proof -
  obtain n w q where l: "parse_len data pos pos 0 False = Inr (n, w, q)"
    using assms(1) by (cases "parse_len data pos pos 0 False") (auto simp: parse_bytes_def)
  then have q: "w" "q + n \<le> length data" "b = slice q (q + n) data" "p = q + n"
    using assms(1) by (auto simp: parse_bytes_def split: if_splits)
  have l': "parse_len (pre @ data @ rest) (length pre + pos) (length pre + pos) 0 False = Inr (n, w, length pre + q)"
    by (rule parse_len_local [OF l])
  have sl: "slice (length pre + q) (length pre + q + n) (pre @ data @ rest) = b"
    using slice_local [OF q(2), of pre q rest] q(3) by (simp add: add.assoc)
  show ?thesis
    using l' q(1,2,4) sl assms(2) by (simp add: parse_bytes_def)
qed

lemma takeWhile_local:
  "length (takeWhile P xs) < length xs \<Longrightarrow> takeWhile P (xs @ rest) = takeWhile P xs"
  by (induction xs) auto

lemma skip_digits_local:
  assumes "skip_digits data pos < length data"
  shows "skip_digits (pre @ data @ rest) (length pre + pos) = length pre + skip_digits data pos"
  using assms takeWhile_local [of is_ascii_digit "drop pos data" rest]
  by (simp add: skip_digits_def)

lemma parse_int_local:
  assumes "parse_int data pos = Inr (v, p)"
  shows "parse_int (pre @ data @ rest) (length pre + pos) = Inr (v, length pre + p)"
proof -
  let ?ds = "if data ! (pos + 1) = 45 then pos + 1 + 1 else pos + 1"
  have nth: "(pre @ data @ rest) ! (length pre + i) = data ! i" if "i < length data" for i
    using that by (simp add: nth_append)
  have lt: "pos + 1 < length data" "?ds < length data" "skip_digits data ?ds < length data"
    using assms by (auto simp: parse_int_def peek_def Let_def split: if_splits)
  have sk: "skip_digits (pre @ data @ rest) (length pre + ?ds) = length pre + skip_digits data ?ds"
    by (rule skip_digits_local [OF lt(3)])
  have sl: "slice (length pre + ?ds) (length pre + skip_digits data ?ds) (pre @ data @ rest)
      = slice ?ds (skip_digits data ?ds) data"
    using lt(3) by (intro slice_local) simp
  show ?thesis
    using assms lt sk sl nth [of pos] nth [of "pos + 1"] nth [OF lt(3)]
    by (auto simp: parse_int_def peek_def Let_def add.assoc split: if_splits)
qed

lemma parse_local_all:
  assumes "length (pre @ data @ rest) \<le> usize_max"
  shows "(\<forall>pos v p f'. parse_value f data pos = Inr (v, p) \<longrightarrow> f \<le> f' \<longrightarrow>
      parse_value f' (pre @ data @ rest) (length pre + pos) = Inr (v, length pre + p))
   \<and> (\<forall>pos items l p f'. list_loop f data pos items = Inr (l, p) \<longrightarrow> f \<le> f' \<longrightarrow>
      list_loop f' (pre @ data @ rest) (length pre + pos) items = Inr (l, length pre + p))
   \<and> (\<forall>pos m d p f'. dict_loop f data pos m = Inr (d, p) \<longrightarrow> f \<le> f' \<longrightarrow>
      dict_loop f' (pre @ data @ rest) (length pre + pos) m = Inr (d, length pre + p))"
proof (induction f)
  case 0
  then show ?case by simp
next
  case (Suc f)
  have nth: "(pre @ data @ rest) ! (length pre + i) = data ! i" if "i < length data" for i
    using that by (simp add: nth_append)
  have V: "parse_value f' (pre @ data @ rest) (length pre + pos) = Inr (v, length pre + p)"
    if pv: "parse_value (Suc f) data pos = Inr (v, p)" and ff: "Suc f \<le> f'" for pos v p f'
  proof -
    obtain g where g: "f' = Suc g" "f \<le> g" using ff by (cases f') auto
    have lt: "pos < length data" using parse_value_progress [OF pv] by simp
    have pk: "peek (pre @ data @ rest) (length pre + pos) = peek data pos"
      using lt nth [OF lt] by (simp add: peek_def)
    have L: "list_loop g (pre @ data @ rest) (length pre + pos + 1) [] = Inr (l, length pre + q)"
      if "list_loop f data (pos + 1) [] = Inr (l, q)" for l q
      unfolding add.assoc using Suc that g(2) by blast
    have D: "dict_loop g (pre @ data @ rest) (length pre + pos + 1) [] = Inr (l, length pre + q)"
      if "dict_loop f data (pos + 1) [] = Inr (l, q)" for l q
      unfolding add.assoc using Suc that g(2) by blast
    show ?thesis
      using pv pk g L D parse_int_local [of data pos _ _ pre rest]
        parse_bytes_local [of data pos _ _ pre rest] assms
      by (auto split: sum.splits if_splits)
  qed
  have LL: "list_loop f' (pre @ data @ rest) (length pre + pos) items = Inr (l, length pre + p)"
    if lp: "list_loop (Suc f) data pos items = Inr (l, p)" and ff: "Suc f \<le> f'" for pos items l p f'
  proof -
    obtain g where g: "f' = Suc g" "f \<le> g" using ff by (cases f') auto
    show ?thesis using lp
    proof (cases rule: list_loop_ok_cases)
      case stop
      then show ?thesis using g nth [of pos] by (simp add: peek_def)
    next
      case (step v q)
      have "parse_value g (pre @ data @ rest) (length pre + pos) = Inr (v, length pre + q)"
        "list_loop g (pre @ data @ rest) (length pre + q) (items @ [v]) = Inr (l, length pre + p)"
        using Suc step g(2) by blast+
      then show ?thesis using g step nth [of pos] by (simp add: peek_def)
    qed
  qed
  have DD: "dict_loop f' (pre @ data @ rest) (length pre + pos) m = Inr (d, length pre + p)"
    if lp: "dict_loop (Suc f) data pos m = Inr (d, p)" and ff: "Suc f \<le> f'" for pos m d p f'
  proof -
    obtain g where g: "f' = Suc g" "f \<le> g" using ff by (cases f') auto
    show ?thesis using lp
    proof (cases rule: dict_loop_ok_cases)
      case stop
      then show ?thesis using g nth [of pos] by (simp add: peek_def)
    next
      case (step k q v q')
      have "parse_bytes (pre @ data @ rest) (length pre + pos) = Inr (k, length pre + q)"
        using step(3) assms by (rule parse_bytes_local)
      moreover have "parse_value g (pre @ data @ rest) (length pre + q) = Inr (v, length pre + q')"
        "dict_loop g (pre @ data @ rest) (length pre + q') (btree_insert k v m) = Inr (d, length pre + p)"
        using Suc step g(2) by blast+
      ultimately show ?thesis using g step nth [of pos] by (simp add: peek_def)
    qed
  qed
  from V LL DD show ?case by blast
qed

lemma decode_reads:
  assumes "decode raw = Inr v"
  shows "reads raw v"
  unfolding reads_def
proof (intro allI impI)
  fix f pre rest
  assume a: "length (pre @ raw @ rest) \<le> usize_max" and b: "2 * length raw + 2 \<le> f"
  have "parse_value (parse_fuel raw) raw 0 = Inr (v, length raw)"
    using assms by (auto simp: decode_def decode_prefix_def split: sum.splits if_splits)
  moreover have "parse_fuel raw \<le> f" using b by (simp add: parse_fuel_def)
  ultimately have "parse_value f (pre @ raw @ rest) (length pre + 0) = Inr (v, length pre + length raw)"
    using parse_local_all [OF a, of "parse_fuel raw"] by blast
  then show "parse_value f (pre @ raw @ rest) (length pre) = Inr (v, length pre + length raw)" by simp
qed

lemma parse_encoded:
  assumes "wf_value v" and "length (pre @ encode v @ rest) \<le> usize_max"
  shows "parse_value (parse_fuel (pre @ encode v @ rest)) (pre @ encode v @ rest) (length pre)
    = Inr (v, length pre + length (encode v))"
  by (rule parsesD [OF wf_parses [OF assms(1)] assms(2)]) (simp add: parse_fuel_def)

lemma skip_encoded:
  "wf_value v \<Longrightarrow> length (pre @ encode v @ rest) \<le> usize_max \<Longrightarrow>
     skip_value (pre @ encode v @ rest) (length pre) = Inr (length pre + length (encode v))"
  by (simp add: skip_value_def parse_encoded)

lemma extract_loop_raw:
  assumes "\<forall>(k, raw)\<in>set es. \<exists>v. reads raw v"
    and "length (pre @ raw_entries es @ 101 # rest) \<le> usize_max" and "length es \<le> f"
  shows "extract_loop f (pre @ raw_entries es @ 101 # rest) key (length pre) = Inr (map_of es key)"
  using assms
proof (induction es arbitrary: pre f)
  case Nil
  then show ?case by (subst extract_loop.simps) simp
next
  case (Cons kr es)
  obtain k raw where kr: "kr = (k, raw)" by fastforce
  obtain v where rd: "reads raw v" using Cons.prems(1) kr by auto
  let ?tl = "raw_entries es @ 101 # rest"
  obtain f' where f: "f = Suc f'" using Cons.prems(3) by (cases f) auto
  obtain c cs where c: "encode_bytes k = c # cs" "c \<noteq> 101"
    using encode_bytes_hd [of k] digit_not_colon by auto
  have k: "parse_bytes (pre @ encode_bytes k @ raw @ ?tl) (length pre) = Inr (k, length pre + length (encode_bytes k))"
    using Cons.prems kr by (intro parse_bytes_encode) auto
  have "parse_value (parse_fuel ((pre @ encode_bytes k) @ raw @ ?tl)) ((pre @ encode_bytes k) @ raw @ ?tl)
      (length (pre @ encode_bytes k)) = Inr (v, length (pre @ encode_bytes k) + length raw)"
    using Cons.prems kr by (intro readsD [OF rd]) (auto simp: parse_fuel_def)
  then have v: "skip_value ((pre @ encode_bytes k) @ raw @ ?tl) (length (pre @ encode_bytes k))
    = Inr (length (pre @ encode_bytes k) + length raw)"
    by (simp add: skip_value_def)
  have sl: "slice (length pre + length (encode_bytes k)) (length pre + length (encode_bytes k) + length raw)
      (pre @ encode_bytes k @ raw @ ?tl) = raw"
    by (simp add: slice_def)
  have IH: "extract_loop f' ((pre @ encode_bytes k @ raw) @ ?tl) key (length (pre @ encode_bytes k @ raw))
    = Inr (map_of es key)"
    using Cons.prems f kr by (intro Cons.IH) auto
  show ?case
    using k v sl IH c f kr by (subst extract_loop.simps) (auto simp: nth_append add.assoc)
qed

lemma raw_entries_length_ge: "length es \<le> length (raw_entries es)"
proof (induction es)
  case (Cons kr es)
  obtain c cs where "encode_bytes (fst kr) = c # cs" using encode_bytes_hd by blast
  with Cons show ?case by (cases kr) simp
qed simp

lemma extract_raw:
  assumes "\<forall>(k, raw)\<in>set es. \<exists>v. reads raw v" and "length ([100] @ raw_entries es @ [101]) \<le> usize_max"
  shows "extract_dict_key_raw ([100] @ raw_entries es @ [101]) key = Inr (map_of es key)"
  using extract_loop_raw [OF assms(1), of "[100]" "[]" "length ([100] @ raw_entries es @ [101])" key]
    assms(2) raw_entries_length_ge [of es]
  by (simp add: extract_dict_key_raw_def)

lemma encode_dict_raw: "encode (VDict m) = [100] @ raw_entries (map (\<lambda>(k, v). (k, encode v)) m) @ [101]"
  by (induction m) auto

lemma map_of_map_snd: "map_of (map (\<lambda>(k, v). (k, f v)) m) key = map_option f (map_of m key)"
  by (induction m) auto

lemma map_btree_insert:
  "map (\<lambda>(k, v). (k, f v)) (btree_insert key x m) = btree_insert key (f x) (map (\<lambda>(k, v). (k, f v)) m)"
  by (induction key x m rule: btree_insert.induct) auto

lemma extract_encoded:
  assumes "wf_value (VDict m)" and "length (encode (VDict m)) \<le> usize_max"
  shows "extract_dict_key_raw (encode (VDict m)) key = Inr (map_option encode (btree_get key m))"
proof -
  have "\<forall>(k, raw)\<in>set (map (\<lambda>(k, v). (k, encode v)) m). \<exists>v. reads raw v"
    using assms(1) wf_parses parses_reads by fastforce
  then show ?thesis
    using extract_raw [of "map (\<lambda>(k, v). (k, encode v)) m" key] assms(2)
    unfolding encode_dict_raw by (simp add: map_of_map_snd btree_get_def)
qed

section \<open>The codec as an interface\<close>

text \<open>
  What the callers of the codec rely on: a value that is written is read back, with the number of
  bytes it occupies, whatever follows it. \<open>ok\<close> is the set of values the code can hold.
\<close>

locale prefix_codec =
  fixes ok :: "'v \<Rightarrow> bool"
    and enc :: "'v \<Rightarrow> bytes"
    and dec :: "bytes \<Rightarrow> ('e + 'v \<times> nat)"
    and bound :: nat
  assumes dec_enc: "ok v \<Longrightarrow> length (enc v @ rest) \<le> bound \<Longrightarrow> dec (enc v @ rest) = Inr (v, length (enc v))"
begin

lemma enc_inj: "ok v \<Longrightarrow> ok w \<Longrightarrow> length (enc v) \<le> bound \<Longrightarrow> enc v = enc w \<Longrightarrow> v = w"
  using dec_enc [of v "[]"] dec_enc [of w "[]"] by auto

lemma enc_prefix_free:
  assumes "ok v" "ok w" "enc w = enc v @ rest" "length (enc w) \<le> bound"
  shows "v = w \<and> rest = []"
  using dec_enc [OF assms(1), of rest] dec_enc [OF assms(2), of "[]"] assms(3,4) by auto

end

interpretation bencode: prefix_codec wf_value encode decode_prefix usize_max
proof
  fix v rest assume "wf_value v" and "length (encode v @ rest) \<le> usize_max"
  then show "decode_prefix (encode v @ rest) = Inr (v, length (encode v))"
    using parse_encoded [of v "[]" rest] by (simp add: decode_prefix_def)
qed

section \<open>Properties\<close>

text \<open>The step limit is never the answer, and what is accepted is a well-formed value within the input.\<close>

lemma decode_total:
  "decode data \<noteq> Inl StepLimit \<and> decode_prefix data \<noteq> Inl StepLimit
   \<and> (case decode_prefix data of Inl e \<Rightarrow> True | Inr (v, n) \<Rightarrow> wf_value v \<and> 0 < n \<and> n \<le> length data)"
proof -
  have p: "decode_prefix data \<noteq> Inl StepLimit"
    unfolding decode_prefix_def by (rule enough_fuel) (simp add: parse_fuel_def)
  then have "decode data \<noteq> Inl StepLimit"
    by (auto simp: decode_def split: sum.splits if_splits)
  moreover have "wf_value v \<and> 0 < n \<and> n \<le> length data" if "decode_prefix data = Inr (v, n)" for v n
    using that parse_value_wf parse_value_progress by (auto simp: decode_prefix_def)
  ultimately show ?thesis using p by (auto split: sum.splits)
qed

text \<open>C11: Decoding the encoding of any value with \<open>i64\<close> integers and sorted dictionary keys returns
  exactly that value, and consumes exactly its bytes when more input follows.\<close>

theorem decode_encode:
  assumes "wf_value v" and "length (encode v @ rest) \<le> usize_max"
  shows "decode_prefix (encode v @ rest) = Inr (v, length (encode v))
    \<and> decode (encode v) = Inr v"
  using bencode.dec_enc [OF assms] bencode.dec_enc [OF assms(1), of "[]"] assms(2)
  by (simp add: decode_def)

theorem decode_encode_witness:
  "decode_prefix (encode (VDict [([97], VInt (- 7)), ([98], VList [VBytes []])]) @ [1, 2])
     = Inr (VDict [([97], VInt (- 7)), ([98], VList [VBytes []])],
            length (encode (VDict [([97], VInt (- 7)), ([98], VList [VBytes []])])))"
  using decode_encode [of "VDict [([97], VInt (- 7)), ([98], VList [VBytes []])]" "[1, 2]"]
  by (simp add: encode_bytes_def to_string_int_def to_string_nat.simps)

text \<open>C27: Extracting a key from an encoded dictionary returns exactly the bytes the encoder wrote for
  that key's value, and nothing when the key is absent; so the info hash is taken over the original
  bytes.\<close>

theorem extract_dict_key_raw_encode:
  assumes "wf_value (VDict m)" and "length (encode (VDict m)) \<le> usize_max"
  shows "extract_dict_key_raw (encode (VDict m)) key = Inr (map_option encode (btree_get key m))"
  using assms by (rule extract_encoded)

theorem extract_dict_key_raw_encode_witness:
  "extract_dict_key_raw (encode (VDict [([97], VInt 1), ([98], VList [])])) [98] = Inr (Some [108, 101])"
  using extract_dict_key_raw_encode [of "[([97], VInt 1), ([98], VList [])]" "[98]"]
  by (simp add: encode_bytes_def to_string_int_def to_string_nat.simps btree_get_def)

end
