(* ===== verification/Metainfo.thy ===== *)
theory Metainfo
  imports Bencode Utf8
begin

text \<open>
  Torrent files and info dictionaries (\<^verbatim>\<open>wt-meta/src/metainfo.rs\<close>, with the data types of
  \<^verbatim>\<open>wt-types/src/lib.rs\<close>): parsing and writing of \<open>MetaInfo\<close> and \<open>Info\<close>, the BEP 52 file
  tree, and the splice of raw bytes that keeps the info hash. A \<open>String\<close> is its UTF-8 bytes.
\<close>

section \<open>Data types\<close>

record file_info =
  path :: "bytes list"
  flength :: int
  torrent_offset :: int
  attr :: bytes
  pieces_root :: "bytes option"

record info =
  iname :: bytes
  piece_length :: int
  pieces :: bytes
  files :: "file_info list"
  single_file :: bool
  is_private :: "bool option"
  source :: bytes
  meta_version :: int
  file_tree_raw :: "bytes option"

record meta_info =
  info_bytes :: bytes
  announce :: bytes
  announce_list :: "bytes list list"
  mnodes :: "bytes list"
  creation_date :: int
  comment :: bytes
  created_by :: bytes
  encoding :: bytes
  url_list :: "bytes list"
  piece_layers :: "(bytes \<times> bytes) list"

record piece =
  pindex :: nat
  poffset :: int
  plength :: int

definition default_info :: info where
  "default_info = \<lparr>iname = [], piece_length = 0, pieces = [], files = [], single_file = False,
     is_private = None, source = [], meta_version = 0, file_tree_raw = None\<rparr>"

definition is_padding :: "file_info \<Rightarrow> bool" where
  "is_padding f = (112 \<in> set (attr f))"

definition total_length :: "info \<Rightarrow> int" where
  "total_length i = foldl (\<lambda>a f. wrap_i64 (a + flength f)) 0 (files i)"

definition num_pieces :: "info \<Rightarrow> nat" where
  "num_pieces i =
     (let total = total_length i in
      if piece_length i \<le> 0 \<or> total \<le> 0 then 0
      else as_u32 (div_i64 (wrap_i64 (wrap_i64 (total + piece_length i) - 1)) (piece_length i)))"

definition piece_of :: "info \<Rightarrow> nat \<Rightarrow> piece" where
  "piece_of i index =
     (let offset = wrap_i64 (int index * piece_length i);
          len = clamp 0 (piece_length i) (wrap_i64 (total_length i - offset))
      in \<lparr>pindex = index, poffset = offset, plength = len\<rparr>)"

definition piece_hash_v1 :: "info \<Rightarrow> nat \<Rightarrow> bytes option" where
  "piece_hash_v1 i index =
     (let start = index * 20 in
      if start + 20 \<le> length (pieces i) then Some (slice start (start + 20) (pieces i)) else None)"

definition has_v1 :: "info \<Rightarrow> bool" where
  "has_v1 i \<longleftrightarrow> pieces i \<noteq> []"

definition has_v2 :: "info \<Rightarrow> bool" where
  "has_v2 i \<longleftrightarrow> meta_version i = 2"

section \<open>Lenient readers\<close>

fun value_to_string_lenient :: "bvalue \<Rightarrow> bytes option" where
  "value_to_string_lenient (VBytes b) = Some (from_utf8_lossy b)"
| "value_to_string_lenient (VInt n) = Some (to_string_int n)"
| "value_to_string_lenient _ = None"

definition unwrap_or_default :: "bytes option \<Rightarrow> bytes" where
  "unwrap_or_default s = (case s of Some b \<Rightarrow> b | None \<Rightarrow> [])"

text \<open>\<open>if let Some(v) = dict.get(key) { field = value_to_string_lenient(v).unwrap_or_default() }\<close>.\<close>

definition string_field :: "(bytes \<times> bvalue) list \<Rightarrow> string \<Rightarrow> bytes" where
  "string_field d key =
     (case btree_get (ascii key) d of
        Some v \<Rightarrow> unwrap_or_default (value_to_string_lenient v)
      | None \<Rightarrow> [])"

definition parse_announce_list :: "bvalue \<Rightarrow> bytes list list" where
  "parse_announce_list v =
     (case as_list v of
        None \<Rightarrow> []
      | Some l \<Rightarrow> List.map_filter (\<lambda>tier. case as_list tier of
            None \<Rightarrow> None
          | Some tier_list \<Rightarrow> Some (List.map_filter value_to_string_lenient tier_list)) l)"

fun parse_url_list :: "bvalue \<Rightarrow> bytes list" where
  "parse_url_list (VBytes b) = (case value_to_string_lenient (VBytes b) of Some s \<Rightarrow> [s] | None \<Rightarrow> [])"
| "parse_url_list (VList items) = List.map_filter value_to_string_lenient items"
| "parse_url_list _ = []"

fun node_of_item :: "bvalue \<Rightarrow> bytes option" where
  "node_of_item (VBytes b) = Some (from_utf8_lossy b)"
| "node_of_item (VList pair) =
     (if length pair \<ge> 2 then
        (case value_to_string_lenient (pair ! 0) of
           None \<Rightarrow> None
         | Some host \<Rightarrow>
             (case pair ! 1 of
                VInt n \<Rightarrow> Some (host @ [58] @ to_string_int n)
              | VBytes b \<Rightarrow> Some (host @ [58] @ from_utf8_lossy b)
              | _ \<Rightarrow> None))
      else None)"
| "node_of_item _ = None"

fun parse_nodes_lenient :: "bvalue \<Rightarrow> bytes list" where
  "parse_nodes_lenient (VBytes b) =
     (if b = [] then [] else case value_to_string_lenient (VBytes b) of Some s \<Rightarrow> [s] | None \<Rightarrow> [])"
| "parse_nodes_lenient (VList items) = List.map_filter node_of_item items"
| "parse_nodes_lenient _ = []"

definition parse_piece_layers :: "bvalue \<Rightarrow> (bytes \<times> bytes) list" where
  "parse_piece_layers v =
     (case as_dict v of
        None \<Rightarrow> []
      | Some d \<Rightarrow> List.map_filter (\<lambda>(k, val). if length k \<noteq> 32 then None
          else case val of VBytes b \<Rightarrow> Some (k, b) | _ \<Rightarrow> None) d)"

definition list_of_strings :: "bvalue \<Rightarrow> bytes list option" where
  "list_of_strings v = (case as_list v of None \<Rightarrow> None | Some l \<Rightarrow> Some (List.map_filter value_to_string_lenient l))"

definition path_from_file_dict :: "(bytes \<times> bvalue) list \<Rightarrow> bytes list" where
  "path_from_file_dict d =
     (let fallback = (case btree_get (ascii ''path'') d of
            Some v \<Rightarrow> (case list_of_strings v of Some p \<Rightarrow> p | None \<Rightarrow> [])
          | None \<Rightarrow> [])
      in case btree_get (ascii ''path.utf-8'') d of
           Some v \<Rightarrow> (case list_of_strings v of Some p \<Rightarrow> (if p \<noteq> [] then p else fallback) | None \<Rightarrow> fallback)
         | None \<Rightarrow> fallback)"

definition int_field :: "(bytes \<times> bvalue) list \<Rightarrow> string \<Rightarrow> int" where
  "int_field d key =
     (case btree_get (ascii key) d of
        Some v \<Rightarrow> (case as_int v of Some n \<Rightarrow> n | None \<Rightarrow> 0)
      | None \<Rightarrow> 0)"

fun v1_files_loop :: "bvalue list \<Rightarrow> int \<Rightarrow> file_info list meta_result" where
  "v1_files_loop [] offset = Inr []"
| "v1_files_loop (item # items) offset =
     (case as_dict item of
        None \<Rightarrow> Inl (MetaInfoError ''file entry is not a dict'')
      | Some d \<Rightarrow>
          let len = int_field d ''length'';
              f = \<lparr>path = path_from_file_dict d, flength = len, torrent_offset = offset,
                   attr = string_field d ''attr'', pieces_root = None\<rparr>
          in case v1_files_loop items (wrap_i64 (offset + len)) of Inl e \<Rightarrow> Inl e | Inr fs \<Rightarrow> Inr (f # fs))"

definition parse_v1_files :: "bvalue \<Rightarrow> file_info list meta_result" where
  "parse_v1_files v =
     (case as_list v of
        None \<Rightarrow> Inl (MetaInfoError ''files is not a list'')
      | Some l \<Rightarrow> v1_files_loop l 0)"

section \<open>File tree (BEP 52)\<close>

definition leaf_props :: "(bytes \<times> bvalue) list \<Rightarrow> int \<times> bytes option" where
  "leaf_props d =
     (case btree_get [] d of
        Some (VDict pd) \<Rightarrow>
          (int_field pd ''length'',
           case btree_get (ascii ''pieces root'') pd of
             Some x \<Rightarrow> (case as_bytes x of Some b \<Rightarrow> if length b = 32 then Some b else None | None \<Rightarrow> None)
           | None \<Rightarrow> None)
      | _ \<Rightarrow> (0, None))"

definition advance :: "int \<Rightarrow> int \<Rightarrow> int \<Rightarrow> int" where
  "advance piece_len offset len =
     (if piece_len > 0
      then wrap_i64 (offset + wrap_i64 (div_i64 (wrap_i64 (wrap_i64 (len + piece_len) - 1)) piece_len * piece_len))
      else wrap_i64 (offset + len))"

fun walk_file_tree :: "bvalue \<Rightarrow> bytes list \<Rightarrow> int \<Rightarrow> int \<times> file_info list \<Rightarrow> (int \<times> file_info list) meta_result"
  and walk_children :: "(bytes \<times> bvalue) list \<Rightarrow> bytes list \<Rightarrow> int \<Rightarrow> int \<times> file_info list
        \<Rightarrow> (int \<times> file_info list) meta_result"
where
  "walk_file_tree (VDict d) p piece_len (offset, out) =
     (if \<forall>k\<in>set (map fst d). k = [] then
        (let (len, root) = leaf_props d in
         Inr (advance piece_len offset len,
              out @ [\<lparr>path = p, flength = len, torrent_offset = offset, attr = [], pieces_root = root\<rparr>]))
      else walk_children d p piece_len (offset, out))"
| "walk_file_tree v p piece_len st = Inl (MetaInfoError ''file tree node is not a dict'')"
| "walk_children [] p piece_len st = Inr st"
| "walk_children ((k, child) # d) p piece_len st =
     (if k = [] then walk_children d p piece_len st
      else case walk_file_tree child (p @ [from_utf8_lossy k]) piece_len st of
             Inl e \<Rightarrow> Inl e
           | Inr st' \<Rightarrow> walk_children d p piece_len st')"

definition parse_file_tree :: "bvalue \<Rightarrow> int \<Rightarrow> file_info list meta_result" where
  "parse_file_tree tree piece_len =
     (case walk_file_tree tree [] piece_len (0, []) of Inl e \<Rightarrow> Inl e | Inr (offset, out) \<Rightarrow> Inr out)"

definition leaf_value :: "file_info \<Rightarrow> bvalue" where
  "leaf_value fi =
     (let props = btree_insert (ascii ''length'') (VInt (flength fi)) [];
          props = (case pieces_root fi of
                     Some pr \<Rightarrow> btree_insert (ascii ''pieces root'') (VBytes pr) props | None \<Rightarrow> props)
      in VDict (btree_insert [] (VDict props) []))"

fun insert_file_tree_path :: "(bytes \<times> bvalue) list \<Rightarrow> bytes list \<Rightarrow> file_info
    \<Rightarrow> (bytes \<times> bvalue) list meta_result" where
  "insert_file_tree_path dir [] fi = Inl (MetaInfoError ''empty path in multi-file tree'')"
| "insert_file_tree_path dir [key] fi = Inr (btree_insert key (leaf_value fi) dir)"
| "insert_file_tree_path dir (key # p) fi =
     (case (case btree_get key dir of Some e \<Rightarrow> e | None \<Rightarrow> VDict []) of
        VDict d \<Rightarrow>
          (case insert_file_tree_path d p fi of
             Inl e \<Rightarrow> Inl e
           | Inr child \<Rightarrow> Inr (btree_insert key (VDict child) dir))
      | _ \<Rightarrow> Inl (MetaInfoError ''file tree conflict''))"

fun build_file_tree_loop :: "file_info list \<Rightarrow> (bytes \<times> bvalue) list \<Rightarrow> bvalue meta_result" where
  "build_file_tree_loop [] root = Inr (VDict root)"
| "build_file_tree_loop (fi # fis) root =
     (if is_padding fi then build_file_tree_loop fis root
      else if path fi = [] then Inr (leaf_value fi)
      else case insert_file_tree_path root (path fi) fi of
             Inl e \<Rightarrow> Inl e
           | Inr root' \<Rightarrow> build_file_tree_loop fis root')"

definition build_file_tree_value :: "file_info list \<Rightarrow> bvalue meta_result" where
  "build_file_tree_value fis = build_file_tree_loop fis []"

section \<open>Writing a dictionary around raw bytes\<close>

fun raw_key_loop :: "(bytes \<times> bvalue) list \<Rightarrow> bytes \<Rightarrow> bytes \<Rightarrow> bool \<Rightarrow> bytes" where
  "raw_key_loop [] raw_key raw inserted = (if \<not> inserted then encode_bytes raw_key @ raw else [])"
| "raw_key_loop ((k, v) # d) raw_key raw inserted =
     (let now = \<not> inserted \<and> k > raw_key;
          before = (if now then encode_bytes raw_key @ raw else []);
          inserted' = (inserted \<or> now)
      in if k = raw_key
         then before @ encode_bytes raw_key @ raw @ raw_key_loop d raw_key raw True
         else before @ encode_bytes k @ encode v @ raw_key_loop d raw_key raw inserted')"

definition encode_dict_with_raw_key :: "(bytes \<times> bvalue) list \<Rightarrow> bytes \<Rightarrow> bytes \<Rightarrow> bytes" where
  "encode_dict_with_raw_key d raw_key raw = [100] @ raw_key_loop d raw_key raw False @ [101]"

definition encode_dict_with_raw_info :: "(bytes \<times> bvalue) list \<Rightarrow> bytes \<Rightarrow> bytes" where
  "encode_dict_with_raw_info d ib = [100] @ raw_key_loop d (ascii ''info'') ib False @ [101]"

section \<open>Torrent files\<close>

definition parse_metainfo :: "bytes \<Rightarrow> meta_info meta_result" where
  "parse_metainfo data =
     (case decode data of Inl e \<Rightarrow> Inl e | Inr root \<Rightarrow>
      case as_dict root of None \<Rightarrow> Inl (MetaInfoError ''top-level value is not a dict'') | Some dict \<Rightarrow>
      case extract_dict_key_raw data (ascii ''info'') of Inl e \<Rightarrow> Inl e | Inr raw \<Rightarrow>
      Inr \<lparr>info_bytes = unwrap_or_default raw,
           announce = string_field dict ''announce'',
           announce_list = (case btree_get (ascii ''announce-list'') dict of
              Some v \<Rightarrow> parse_announce_list v | None \<Rightarrow> []),
           mnodes = (case btree_get (ascii ''nodes'') dict of Some v \<Rightarrow> parse_nodes_lenient v | None \<Rightarrow> []),
           creation_date = int_field dict ''creation date'',
           comment = string_field dict ''comment'',
           created_by = string_field dict ''created by'',
           encoding = string_field dict ''encoding'',
           url_list = (case btree_get (ascii ''url-list'') dict of Some v \<Rightarrow> parse_url_list v | None \<Rightarrow> []),
           piece_layers = (case btree_get (ascii ''piece layers'') dict of
              Some v \<Rightarrow> parse_piece_layers v | None \<Rightarrow> [])\<rparr>)"

definition insert_if :: "bool \<Rightarrow> string \<Rightarrow> bvalue \<Rightarrow> (bytes \<times> bvalue) list \<Rightarrow> (bytes \<times> bvalue) list" where
  "insert_if c key v d = (if c then btree_insert (ascii key) v d else d)"

definition metainfo_dict :: "meta_info \<Rightarrow> (bytes \<times> bvalue) list" where
  "metainfo_dict mi =
     (let d = [];
          d = insert_if (announce mi \<noteq> []) ''announce'' (VBytes (announce mi)) d;
          d = insert_if (announce_list mi \<noteq> []) ''announce-list''
                (VList (map (\<lambda>tier. VList (map VBytes tier)) (announce_list mi))) d;
          d = insert_if (comment mi \<noteq> []) ''comment'' (VBytes (comment mi)) d;
          d = insert_if (created_by mi \<noteq> []) ''created by'' (VBytes (created_by mi)) d;
          d = insert_if (creation_date mi \<noteq> 0) ''creation date'' (VInt (creation_date mi)) d;
          d = insert_if (encoding mi \<noteq> []) ''encoding'' (VBytes (encoding mi)) d;
          d = insert_if (mnodes mi \<noteq> []) ''nodes'' (VList (map VBytes (mnodes mi))) d;
          d = insert_if (piece_layers mi \<noteq> []) ''piece layers''
                (VDict (foldl (\<lambda>pl (root, layer). btree_insert root (VBytes layer) pl) [] (piece_layers mi))) d;
          d = insert_if (url_list mi \<noteq> []) ''url-list''
                (if length (url_list mi) = 1 then VBytes (url_list mi ! 0)
                 else VList (map VBytes (url_list mi))) d
      in d)"

definition encode_metainfo :: "meta_info \<Rightarrow> bytes meta_result" where
  "encode_metainfo mi =
     (if info_bytes mi = [] then Inl (MetaInfoError ''marshalled InfoBytes should not be zero-length'')
      else Inr (encode_dict_with_raw_info (metainfo_dict mi) (info_bytes mi)))"

section \<open>Info dictionaries\<close>

definition parse_private :: "bvalue \<Rightarrow> bool option" where
  "parse_private v =
     (case v of VInt n \<Rightarrow> Some (n \<noteq> 0)
      | VBytes b \<Rightarrow> Some (b \<noteq> ascii ''0'' \<and> b \<noteq> [])
      | _ \<Rightarrow> None)"

definition parse_info_fields :: "(bytes \<times> bvalue) list \<Rightarrow> info" where
  "parse_info_fields dict =
     (let nm = string_field dict ''name'';
          nm = (case btree_get (ascii ''name.utf-8'') dict of
                  Some v \<Rightarrow> (case value_to_string_lenient v of Some n \<Rightarrow> if n \<noteq> [] then n else nm | None \<Rightarrow> nm)
                | None \<Rightarrow> nm)
      in default_info\<lparr>iname := nm,
           piece_length := int_field dict ''piece length'',
           pieces := (case btree_get (ascii ''pieces'') dict of
              Some v \<Rightarrow> unwrap_or_default (as_bytes v) | None \<Rightarrow> []),
           is_private := (case btree_get (ascii ''private'') dict of Some v \<Rightarrow> parse_private v | None \<Rightarrow> None),
           source := string_field dict ''source'',
           meta_version := int_field dict ''meta version''\<rparr>)"

definition parse_info_files :: "(bytes \<times> bvalue) list \<Rightarrow> info \<Rightarrow> info meta_result" where
  "parse_info_files dict i =
     (if meta_version i = 2 then
        (case file_tree_raw i of
           None \<Rightarrow> Inr i
         | Some raw \<Rightarrow>
             (case decode raw of Inl e \<Rightarrow> Inl e | Inr tree \<Rightarrow>
              case parse_file_tree tree (piece_length i) of Inl e \<Rightarrow> Inl e | Inr fs \<Rightarrow>
              Inr (i\<lparr>files := fs, single_file := (length fs = 1 \<and> path (fs ! 0) = [])\<rparr>)))
      else case btree_get (ascii ''files'') dict of
        Some files_v \<Rightarrow>
          (case parse_v1_files files_v of Inl e \<Rightarrow> Inl e | Inr fs \<Rightarrow> Inr (i\<lparr>single_file := False, files := fs\<rparr>))
      | None \<Rightarrow>
          Inr (i\<lparr>single_file := True,
                 files := [\<lparr>path = [], flength = int_field dict ''length'', torrent_offset = 0,
                            attr = string_field dict ''attr'', pieces_root = None\<rparr>]\<rparr>))"

definition parse_info :: "bytes \<Rightarrow> info meta_result" where
  "parse_info ib =
     (case decode ib of Inl e \<Rightarrow> Inl e | Inr root \<Rightarrow>
      case as_dict root of None \<Rightarrow> Inl (MetaInfoError ''info is not a dict'') | Some dict \<Rightarrow>
      let i = parse_info_fields dict in
      if piece_length i < 0 then Inl (MetaInfoError ''negative piece length'')
      else if length (pieces i) mod 20 \<noteq> 0
      then Inl (MetaInfoError ''pieces length is not a multiple of 20'')
      else case extract_dict_key_raw ib (ascii ''file tree'') of Inl e \<Rightarrow> Inl e | Inr raw \<Rightarrow>
      parse_info_files dict (i\<lparr>file_tree_raw := raw\<rparr>))"

definition file_value :: "file_info \<Rightarrow> bvalue" where
  "file_value fi =
     (let fd = insert_if (attr fi \<noteq> []) ''attr'' (VBytes (attr fi)) [];
          fd = btree_insert (ascii ''length'') (VInt (flength fi)) fd;
          fd = btree_insert (ascii ''path'') (VList (map VBytes (path fi))) fd
      in VDict fd)"

definition info_dict :: "info \<Rightarrow> bvalue option \<Rightarrow> (bytes \<times> bvalue) list" where
  "info_dict i tree =
     (let d = [];
          d = (case files i of
                 fi # _ \<Rightarrow> insert_if (single_file i \<and> attr fi \<noteq> []) ''attr'' (VBytes (attr fi)) d
               | [] \<Rightarrow> d);
          d = (case tree of Some t \<Rightarrow> btree_insert (ascii ''file tree'') t d | None \<Rightarrow> d);
          d = insert_if (\<not> single_file i \<and> meta_version i \<noteq> 2 \<and> files i \<noteq> []) ''files''
                (VList (map file_value (files i))) d;
          d = insert_if (single_file i) ''length''
                (VInt (case files i of fi # _ \<Rightarrow> flength fi | [] \<Rightarrow> 0)) d;
          d = insert_if (meta_version i \<noteq> 0) ''meta version'' (VInt (meta_version i)) d;
          d = btree_insert (ascii ''name'') (VBytes (iname i)) d;
          d = btree_insert (ascii ''piece length'') (VInt (piece_length i)) d;
          d = insert_if (pieces i \<noteq> [] \<or> meta_version i \<noteq> 2) ''pieces'' (VBytes (pieces i)) d;
          d = (case is_private i of
                 Some p \<Rightarrow> btree_insert (ascii ''private'') (VInt (if p then 1 else 0)) d | None \<Rightarrow> d);
          d = insert_if (source i \<noteq> []) ''source'' (VBytes (source i)) d
      in d)"

definition encode_info :: "info \<Rightarrow> bytes meta_result" where
  "encode_info i =
     (case file_tree_raw i of
        Some raw \<Rightarrow> Inr (encode_dict_with_raw_key (info_dict i None) (ascii ''file tree'') raw)
      | None \<Rightarrow>
          if meta_version i = 2 then
            (case build_file_tree_value (files i) of
               Inl e \<Rightarrow> Inl e
             | Inr tree \<Rightarrow> Inr (encode (VDict (info_dict i (Some tree)))))
          else Inr (encode (VDict (info_dict i None))))"

text \<open>The digests are parameters: \<open>sha1\<close> and \<open>sha256\<close> are third-party crates.\<close>

definition info_hash_v1 :: "(bytes \<Rightarrow> bytes) \<Rightarrow> bytes \<Rightarrow> bytes" where
  "info_hash_v1 sha1 ib = sha1 ib"

definition info_hash_v2 :: "(bytes \<Rightarrow> bytes) \<Rightarrow> bytes \<Rightarrow> bytes" where
  "info_hash_v2 sha256 ib = sha256 ib"

definition parse_torrent :: "bytes \<Rightarrow> (meta_info \<times> info) meta_result" where
  "parse_torrent data =
     (case parse_metainfo data of Inl e \<Rightarrow> Inl e | Inr mi \<Rightarrow>
      case parse_info (info_bytes mi) of Inl e \<Rightarrow> Inl e | Inr i \<Rightarrow> Inr (mi, i))"

function choose_loop :: "int \<Rightarrow> int \<Rightarrow> int" where
  "choose_loop piece_len pcs =
     (if pcs \<ge> 2048 then choose_loop (piece_len * 2) (pcs div 2) else piece_len)"
  by pat_completeness auto
termination by (relation "measure (\<lambda>(piece_len, pcs). nat pcs)") auto

declare choose_loop.simps [simp del]

definition choose_piece_length :: "int \<Rightarrow> int" where
  "choose_piece_length total_len = choose_loop 16384 (div_i64 total_len 16384)"

section \<open>Splicing raw bytes keeps them\<close>

lemma raw_key_loop_inserted:
  "raw_key \<notin> set (map fst d) \<Longrightarrow>
     raw_key_loop d raw_key raw True = raw_entries (map (\<lambda>(k, v). (k, encode v)) d)"
  by (induction d) auto

lemma raw_key_loop_entries:
  "sorted_wrt (<) (map fst d) \<Longrightarrow>
     raw_key_loop d raw_key raw False = raw_entries (btree_insert raw_key raw (map (\<lambda>(k, v). (k, encode v)) d))"
proof (induction d)
  case (Cons kv d)
  obtain k v where kv: "kv = (k, v)" by fastforce
  have later: "\<forall>x\<in>set (map fst d). k < x" using Cons.prems kv by auto
  consider (lt) "raw_key < k" | (eq) "raw_key = k" | (gt) "k < raw_key" by fastforce
  then show ?case
  proof cases
    case lt
    then have "raw_key \<notin> set (map fst d)" using later by fastforce
    with lt kv show ?thesis by (auto simp: raw_key_loop_inserted Let_def)
  next
    case eq
    then have "raw_key \<notin> set (map fst d)" using later by fastforce
    with eq kv show ?thesis by (simp add: raw_key_loop_inserted)
  next
    case gt
    then have "\<not> raw_key < k" "raw_key \<noteq> k" by auto
    with gt kv Cons show ?thesis by simp
  qed
qed simp

text \<open>The triples the parser lemma of theory \<open>Bencode\<close> needs, for a dictionary with one raw entry.\<close>

lemma spliced_reads:
  fixes key :: bytes
  assumes wf: "wf_value (VDict d)" and raw: "decode raw = Inr v"
  defines "es \<equiv> btree_insert key raw (map (\<lambda>(k, v). (k, encode v)) d)"
  shows "reads ([100] @ raw_entries es @ [101]) (VDict (btree_insert key v d))"
    and "\<forall>(k, r)\<in>set es. \<exists>v. reads r v"
proof -
  let ?m = "btree_insert key (raw, v) (map (\<lambda>(k, v). (k, (encode v, v))) d)"
  have st: "sorted_wrt (<) (map fst d)" using wf by simp
  then have "sorted_wrt (<) (map fst (map (\<lambda>(k, v). (k, (encode v, v))) d))"
    by (simp add: case_prod_unfold comp_def)
  then have sm: "sorted_wrt (<) (map fst ?m)" by (rule btree_insert_sorted)
  have rd: "\<forall>(k, r, v)\<in>set ?m. reads r v"
  proof (clarify)
    fix k r w assume "(k, r, w) \<in> set ?m"
    from btree_insert_values [OF this]
    consider "r = raw" "w = v" | x where "(k, x) \<in> set d" "r = encode x" "w = x" by auto
    then show "reads r w"
      using decode_reads [OF raw] wf wf_parses parses_reads by cases fastforce+
  qed
  have e1: "map (\<lambda>(k, raw, v). (k, raw)) ?m = es"
    using map_btree_insert [of fst key "(raw, v)" "map (\<lambda>(k, v). (k, (encode v, v))) d"]
    by (simp add: es_def case_prod_unfold comp_def)
  have e2: "map (\<lambda>(k, raw, v). (k, v)) ?m = btree_insert key v d"
    using map_btree_insert [of snd key "(raw, v)" "map (\<lambda>(k, v). (k, (encode v, v))) d"]
    by (simp add: case_prod_unfold comp_def)
  show "reads ([100] @ raw_entries es @ [101]) (VDict (btree_insert key v d))"
    using raw_dict_reads [OF rd sm] unfolding e1 e2 .
  show "\<forall>(k, r)\<in>set es. \<exists>v. reads r v"
    using rd unfolding e1 [symmetric] by fastforce
qed

lemma reads_decode:
  assumes "reads raw v" and "length raw \<le> usize_max"
  shows "decode raw = Inr v"
  using readsD [OF assms(1), of "[]" "[]" "parse_fuel raw"] assms(2)
  by (simp add: decode_def decode_prefix_def parse_fuel_def del: parse_value.simps)

lemma spliced_dict:
  assumes wf: "wf_value (VDict d)" and raw: "decode raw = Inr v"
    and len: "length (encode_dict_with_raw_key d key raw) \<le> usize_max"
  shows "decode (encode_dict_with_raw_key d key raw) = Inr (VDict (btree_insert key v d))"
    and "extract_dict_key_raw (encode_dict_with_raw_key d key raw) k =
      Inr (btree_get k (btree_insert key raw (map (\<lambda>(k, v). (k, encode v)) d)))"
proof -
  have st: "sorted_wrt (<) (map fst d)" using wf by simp
  have e: "encode_dict_with_raw_key d key raw =
      [100] @ raw_entries (btree_insert key raw (map (\<lambda>(k, v). (k, encode v)) d)) @ [101]"
    by (simp add: encode_dict_with_raw_key_def raw_key_loop_entries [OF st])
  note sp = spliced_reads [OF wf raw, of key]
  show "decode (encode_dict_with_raw_key d key raw) = Inr (VDict (btree_insert key v d))"
    unfolding e by (rule reads_decode [OF sp(1)]) (use len e in simp)
  show "extract_dict_key_raw (encode_dict_with_raw_key d key raw) k =
      Inr (btree_get k (btree_insert key raw (map (\<lambda>(k, v). (k, encode v)) d)))"
    unfolding e btree_get_def by (rule extract_raw [OF sp(2)]) (use len e in simp)
qed

lemma encode_dict_with_raw_info_key: "encode_dict_with_raw_info d ib = encode_dict_with_raw_key d (ascii ''info'') ib"
  by (simp add: encode_dict_with_raw_info_def encode_dict_with_raw_key_def)

section \<open>Lookups in the dictionaries the writers build\<close>

lemma btree_get_insert_if:
  "btree_get (ascii k) (insert_if c key v d) = (if c \<and> k = key then Some v else btree_get (ascii k) d)"
  by (simp add: insert_if_def btree_get_insert)

lemma insert_if_wf: "wf_value (VDict d) \<Longrightarrow> (c \<Longrightarrow> wf_value v) \<Longrightarrow> wf_value (VDict (insert_if c key v d))"
  by (simp add: insert_if_def btree_insert_wf del: wf_value.simps)

lemma wf_empty_dict: "wf_value (VDict [])"
  by simp

lemma wf_bytes_list: "wf_value (VList (map VBytes l))"
  by simp

lemma map_filter_strings:
  "\<forall>s\<in>set l. valid_utf8 s \<Longrightarrow> List.map_filter value_to_string_lenient (map VBytes l) = l"
  by (induction l) (auto simp: List.map_filter_simps lossy_valid)

lemma map_filter_nodes:
  "\<forall>s\<in>set l. valid_utf8 s \<Longrightarrow> List.map_filter node_of_item (map VBytes l) = l"
  by (induction l) (auto simp: List.map_filter_simps lossy_valid)

lemma map_filter_tiers:
  "\<forall>t\<in>set l. \<forall>s\<in>set t. valid_utf8 s \<Longrightarrow> parse_announce_list (VList (map (\<lambda>t. VList (map VBytes t)) l)) = l"
  by (induction l) (auto simp: parse_announce_list_def List.map_filter_simps map_filter_strings)

lemma foldl_btree_insert_sorted:
  "sorted_wrt (<) (map fst acc @ map fst l) \<Longrightarrow>
     foldl (\<lambda>pl (k, x). btree_insert k (f x) pl) (map (\<lambda>(k, x). (k, f x)) acc) l = map (\<lambda>(k, x). (k, f x)) (acc @ l)"
proof (induction l arbitrary: acc)
  case (Cons kx l)
  obtain k x where kx: "kx = (k, x)" by fastforce
  have "btree_insert k (f x) (map (\<lambda>(k, x). (k, f x)) acc) = map (\<lambda>(k, x). (k, f x)) (acc @ [(k, x)])"
    using Cons.prems kx by (subst btree_insert_last) (auto simp: sorted_wrt_append)
  then show ?case using Cons.IH [of "acc @ [(k, x)]"] Cons.prems kx by simp
qed simp

lemma layers_read:
  assumes "\<forall>(k, x)\<in>set l. length k = 32"
  shows "parse_piece_layers (VDict (map (\<lambda>(k, x). (k, VBytes x)) l)) = l"
  using assms by (induction l) (auto simp: parse_piece_layers_def List.map_filter_simps)

text \<open>The torrent files the writer can reproduce: text is UTF-8, layers are sorted by their 32-byte
  roots, the date is an \<open>i64\<close> and the info bytes are one complete bencoded value.\<close>

definition metainfo_ok :: "meta_info \<Rightarrow> bool" where
  "metainfo_ok mi \<longleftrightarrow>
     (\<exists>v. decode (info_bytes mi) = Inr v)
     \<and> valid_utf8 (announce mi) \<and> valid_utf8 (comment mi) \<and> valid_utf8 (created_by mi) \<and> valid_utf8 (encoding mi)
     \<and> (\<forall>t\<in>set (announce_list mi). \<forall>s\<in>set t. valid_utf8 s)
     \<and> (\<forall>s\<in>set (mnodes mi). valid_utf8 s) \<and> (\<forall>s\<in>set (url_list mi). valid_utf8 s)
     \<and> i64_min \<le> creation_date mi \<and> creation_date mi \<le> i64_max
     \<and> sorted_wrt (<) (map fst (piece_layers mi)) \<and> (\<forall>(k, x)\<in>set (piece_layers mi). length k = 32)"

lemma layers_dict:
  "sorted_wrt (<) (map fst l) \<Longrightarrow>
     foldl (\<lambda>pl (root, layer). btree_insert root (VBytes layer) pl) [] l = map (\<lambda>(k, x). (k, VBytes x)) l"
  using foldl_btree_insert_sorted [of "[]" l VBytes] by simp

lemma metainfo_dict_wf:
  assumes "metainfo_ok mi"
  shows "wf_value (VDict (metainfo_dict mi))"
proof -
  have layers: "wf_value (VDict (foldl (\<lambda>pl (root, layer). btree_insert root (VBytes layer) pl) [] (piece_layers mi)))"
  proof -
    have st: "sorted_wrt (<) (map fst (piece_layers mi))" using assms by (simp add: metainfo_ok_def)
    then show ?thesis unfolding layers_dict [OF st] by (auto simp: case_prod_unfold comp_def)
  qed
  show ?thesis
    unfolding metainfo_dict_def Let_def
    by (intro insert_if_wf wf_empty_dict layers) (use assms in \<open>auto simp: metainfo_ok_def\<close>)
qed

lemma btree_get_Nil: "btree_get k [] = None"
  by (simp add: btree_get_def)

lemma string_field_insert:
  "string_field (btree_insert (ascii k) v d) key = (if key = k then unwrap_or_default (value_to_string_lenient v)
     else string_field d key)"
  "string_field (insert_if c k v d) key = (if c \<and> key = k then unwrap_or_default (value_to_string_lenient v)
     else string_field d key)"
  "string_field [] key = []"
  by (auto simp: string_field_def btree_get_insert insert_if_def btree_get_Nil)

lemma int_field_insert:
  "int_field (btree_insert (ascii k) v d) key = (if key = k then (case as_int v of Some n \<Rightarrow> n | None \<Rightarrow> 0)
     else int_field d key)"
  "int_field (insert_if c k v d) key = (if c \<and> key = k then (case as_int v of Some n \<Rightarrow> n | None \<Rightarrow> 0)
     else int_field d key)"
  "int_field [] key = 0"
  by (auto simp: int_field_def btree_get_insert insert_if_def btree_get_Nil)

lemmas field_simps' = string_field_insert int_field_insert btree_get_insert_if btree_get_insert btree_get_Nil

lemma metainfo_fields:
  fixes mi v
  defines "d \<equiv> btree_insert (ascii ''info'') v (metainfo_dict mi)"
  assumes ok: "metainfo_ok mi"
  shows "string_field d ''announce'' = announce mi" "string_field d ''comment'' = comment mi"
    "string_field d ''created by'' = created_by mi" "string_field d ''encoding'' = encoding mi"
    "int_field d ''creation date'' = creation_date mi"
    "(case btree_get (ascii ''announce-list'') d of Some v \<Rightarrow> parse_announce_list v | None \<Rightarrow> []) = announce_list mi"
    "(case btree_get (ascii ''nodes'') d of Some v \<Rightarrow> parse_nodes_lenient v | None \<Rightarrow> []) = mnodes mi"
    "(case btree_get (ascii ''piece layers'') d of Some v \<Rightarrow> parse_piece_layers v | None \<Rightarrow> []) = piece_layers mi"
proof -
  note defs = d_def metainfo_dict_def Let_def field_simps' unwrap_or_default_def
  show "string_field d ''announce'' = announce mi" "string_field d ''comment'' = comment mi"
    "string_field d ''created by'' = created_by mi" "string_field d ''encoding'' = encoding mi"
    using ok by (simp_all add: defs metainfo_ok_def lossy_valid)
  show "int_field d ''creation date'' = creation_date mi" by (simp add: defs)
  show "(case btree_get (ascii ''announce-list'') d of Some v \<Rightarrow> parse_announce_list v | None \<Rightarrow> []) = announce_list mi"
    using ok map_filter_tiers by (simp add: defs metainfo_ok_def)
  show "(case btree_get (ascii ''nodes'') d of Some v \<Rightarrow> parse_nodes_lenient v | None \<Rightarrow> []) = mnodes mi"
    using ok by (simp add: defs metainfo_ok_def map_filter_nodes)
  show "(case btree_get (ascii ''piece layers'') d of Some v \<Rightarrow> parse_piece_layers v | None \<Rightarrow> []) = piece_layers mi"
    using ok layers_dict [of "piece_layers mi"] layers_read [of "piece_layers mi"]
    by (simp add: defs metainfo_ok_def)
qed

lemma metainfo_url_list:
  assumes ok: "metainfo_ok mi"
  shows "(case btree_get (ascii ''url-list'') (btree_insert (ascii ''info'') v (metainfo_dict mi)) of
      Some v \<Rightarrow> parse_url_list v | None \<Rightarrow> []) = url_list mi"
proof -
  have u: "\<forall>s\<in>set (url_list mi). valid_utf8 s" using ok by (simp add: metainfo_ok_def)
  consider "url_list mi = []" | s where "url_list mi = [s]" | "length (url_list mi) \<noteq> 1" "url_list mi \<noteq> []"
    by (cases "url_list mi" rule: list.exhaust; cases "tl (url_list mi)") auto
  then show ?thesis
    using u by cases (simp_all add: metainfo_dict_def Let_def field_simps' lossy_valid map_filter_strings)
qed

section \<open>Info dictionaries\<close>

fun offsets_ok :: "int \<Rightarrow> file_info list \<Rightarrow> bool" where
  "offsets_ok off [] = True"
| "offsets_ok off (f # fs) = (torrent_offset f = off \<and> offsets_ok (wrap_i64 (off + flength f)) fs)"

definition file_ok :: "file_info \<Rightarrow> bool" where
  "file_ok f \<longleftrightarrow> (\<forall>s\<in>set (path f). valid_utf8 s) \<and> valid_utf8 (attr f) \<and> pieces_root f = None
     \<and> i64_min \<le> flength f \<and> flength f \<le> i64_max"

text \<open>Version 1 infos as the parser produces them: a single file has the empty path, several files
  lie one after the other.\<close>

definition info_v1_ok :: "info \<Rightarrow> bool" where
  "info_v1_ok i \<longleftrightarrow>
     meta_version i \<noteq> 2 \<and> i64_min \<le> meta_version i \<and> meta_version i \<le> i64_max \<and> file_tree_raw i = None
     \<and> valid_utf8 (iname i) \<and> valid_utf8 (source i) \<and> length (pieces i) mod 20 = 0
     \<and> 0 \<le> piece_length i \<and> piece_length i \<le> i64_max
     \<and> (\<forall>f\<in>set (files i). file_ok f) \<and> files i \<noteq> [] \<and> offsets_ok 0 (files i)
     \<and> (single_file i \<longrightarrow> length (files i) = 1 \<and> path (hd (files i)) = [])"

text \<open>Version 2 infos as the parser produces them: the files are those of the raw file tree.\<close>

definition info_v2_ok :: "info \<Rightarrow> bool" where
  "info_v2_ok i \<longleftrightarrow>
     meta_version i = 2
     \<and> (\<exists>raw tree. file_tree_raw i = Some raw \<and> decode raw = Inr tree \<and> parse_file_tree tree (piece_length i) = Inr (files i))
     \<and> single_file i = (length (files i) = 1 \<and> path (files i ! 0) = [])
     \<and> valid_utf8 (iname i) \<and> valid_utf8 (source i) \<and> length (pieces i) mod 20 = 0
     \<and> 0 \<le> piece_length i \<and> piece_length i \<le> i64_max
     \<and> (\<forall>f\<in>set (files i). i64_min \<le> flength f \<and> flength f \<le> i64_max)"

definition info_ok :: "info \<Rightarrow> bool" where
  "info_ok i \<longleftrightarrow> info_v1_ok i \<or> info_v2_ok i"

lemma info_ok_common:
  assumes "info_ok i"
  shows "valid_utf8 (iname i)" "valid_utf8 (source i)" "length (pieces i) mod 20 = 0" "0 \<le> piece_length i"
    "piece_length i \<le> i64_max" "i64_min \<le> meta_version i" "meta_version i \<le> i64_max"
    "\<forall>f\<in>set (files i). i64_min \<le> flength f \<and> flength f \<le> i64_max"
    "meta_version i \<noteq> 2 \<longrightarrow> (\<forall>f\<in>set (files i). file_ok f)"
  using assms by (auto simp: info_ok_def info_v1_ok_def info_v2_ok_def file_ok_def)

lemma file_value_wf: "file_ok f \<Longrightarrow> wf_value (file_value f)"
  unfolding file_value_def Let_def
  by (intro btree_insert_wf insert_if_wf wf_empty_dict) (auto simp: file_ok_def)

lemma info_dict_wf:
  assumes "info_ok i"
  shows "wf_value (VDict (info_dict i None))"
proof -
  note ok = info_ok_common [OF assms]
  have fv: "wf_value (VList (map file_value (files i)))" if "meta_version i \<noteq> 2"
    using ok(9) that file_value_wf by auto
  have pv: "wf_value (VDict (case is_private i of
      Some p \<Rightarrow> btree_insert (ascii ''private'') (VInt (if p then 1 else 0)) d | None \<Rightarrow> d))"
    if "wf_value (VDict d)" for d
    using that by (cases "is_private i") (auto simp del: wf_value.simps(4) intro!: btree_insert_wf)
  have av: "wf_value (VDict (case files i of
      fi # _ \<Rightarrow> insert_if (single_file i \<and> attr fi \<noteq> []) ''attr'' (VBytes (attr fi)) [] | [] \<Rightarrow> []))"
    by (cases "files i") (auto simp del: wf_value.simps(4) intro!: insert_if_wf wf_empty_dict)
  have lv: "wf_value (VInt (case files i of fi # _ \<Rightarrow> flength fi | [] \<Rightarrow> 0))"
    using ok(8) by (cases "files i") simp_all
  show ?thesis
    unfolding info_dict_def Let_def
    by (simp only: option.case, intro insert_if_wf pv btree_insert_wf av lv fv) (use ok in auto)
qed

lemma file_value_fields:
  assumes "file_ok f"
  shows "\<exists>d. file_value f = VDict d \<and> int_field d ''length'' = flength f \<and> string_field d ''attr'' = attr f
    \<and> path_from_file_dict d = path f"
  using assms
  by (auto simp: file_value_def file_ok_def Let_def field_simps' unwrap_or_default_def lossy_valid
      path_from_file_dict_def list_of_strings_def map_filter_strings)

lemma v1_files_read:
  assumes "\<forall>f\<in>set fs. file_ok f" and "offsets_ok off fs"
  shows "v1_files_loop (map file_value fs) off = Inr fs"
  using assms
proof (induction fs arbitrary: off)
  case (Cons f fs)
  obtain d where "file_value f = VDict d" "int_field d ''length'' = flength f"
    "string_field d ''attr'' = attr f" "path_from_file_dict d = path f"
    using file_value_fields [of f] Cons.prems by auto
  with Cons show ?case by (simp add: Let_def file_ok_def)
qed simp

lemma info_fields_read:
  assumes "info_ok i"
  shows "parse_info_fields (info_dict i None) =
    default_info\<lparr>iname := iname i, piece_length := piece_length i, pieces := pieces i,
      is_private := is_private i, source := source i, meta_version := meta_version i\<rparr>"
proof -
  note ok = info_ok_common [OF assms]
  have av: "btree_get (ascii k) (case files i of
        fi # _ \<Rightarrow> insert_if (single_file i \<and> attr fi \<noteq> []) ''attr'' (VBytes (attr fi)) [] | [] \<Rightarrow> []) = None"
    if "k \<noteq> ''attr''" for k
    using that by (cases "files i") (simp_all add: btree_get_insert_if btree_get_Nil)
  have pr: "btree_get (ascii k) (case is_private i of
        Some p \<Rightarrow> btree_insert (ascii ''private'') (VInt (if p then 1 else 0)) d | None \<Rightarrow> d)
      = (if k = ''private'' \<and> is_private i \<noteq> None then Some (VInt (if the (is_private i) then 1 else 0))
         else btree_get (ascii k) d)" for k d
    by (cases "is_private i") (auto simp: btree_get_insert)
  have sf: "string_field d k = (case btree_get (ascii k) d of
      Some v \<Rightarrow> unwrap_or_default (value_to_string_lenient v) | None \<Rightarrow> [])" for d k
    by (simp add: string_field_def)
  have nf: "int_field d k = (case btree_get (ascii k) d of
      Some v \<Rightarrow> (case as_int v of Some n \<Rightarrow> n | None \<Rightarrow> 0) | None \<Rightarrow> 0)" for d k
    by (simp add: int_field_def)
  show ?thesis
    using ok(1,2)
    by (cases "is_private i") (simp_all add: parse_info_fields_def info_dict_def Let_def sf nf pr av
        btree_get_insert_if btree_get_insert unwrap_or_default_def lossy_valid parse_private_def)
qed

lemma info_get:
  assumes "files i = f # fs"
  shows "btree_get (ascii ''files'') (info_dict i None) =
      (if \<not> single_file i \<and> meta_version i \<noteq> 2 then Some (VList (map file_value (files i))) else None)"
    and "btree_get (ascii ''length'') (info_dict i None) = (if single_file i then Some (VInt (flength f)) else None)"
    and "btree_get (ascii ''attr'') (info_dict i None) =
      (if single_file i \<and> attr f \<noteq> [] then Some (VBytes (attr f)) else None)"
    and "btree_get (ascii ''file tree'') (info_dict i None) = None"
  using assms by (cases "is_private i";
      simp add: info_dict_def Let_def btree_get_insert_if btree_get_insert btree_get_Nil)+

lemma info_v1_roundtrip:
  assumes ok: "info_v1_ok i" and len: "length (encode (VDict (info_dict i None))) \<le> usize_max"
  shows "parse_info (encode (VDict (info_dict i None))) = Inr i"
proof -
  let ?d = "info_dict i None"
  obtain f fs where f: "files i = f # fs" using ok by (cases "files i") (auto simp: info_v1_ok_def)
  have iok: "info_ok i" using ok by (simp add: info_ok_def)
  note wf = info_dict_wf [OF iok]
  have dec: "decode (encode (VDict ?d)) = Inr (VDict ?d)"
    using bencode.dec_enc [OF wf, of "[]"] len by (simp add: decode_def del: encode.simps)
  have ext: "extract_dict_key_raw (encode (VDict ?d)) (ascii ''file tree'') = Inr None"
    using extract_encoded [OF wf len] info_get(4) [OF f] by simp
  have fl: "file_ok f" "flength f = flength f" using ok f by (auto simp: info_v1_ok_def)
  have files: "parse_info_files ?d (default_info\<lparr>iname := iname i, piece_length := piece_length i,
      pieces := pieces i, is_private := is_private i, source := source i,
      meta_version := meta_version i\<rparr>) = Inr i"
  proof (cases "single_file i")
    case True
    then have "fs = []" "path f = []" "torrent_offset f = 0" "pieces_root f = None" "valid_utf8 (attr f)"
      using ok f by (auto simp: info_v1_ok_def file_ok_def)
    then show ?thesis
      using True ok f info_get [OF f]
      by (simp add: parse_info_files_def info_v1_ok_def default_info_def string_field_def int_field_def
          unwrap_or_default_def lossy_valid)
  next
    case False
    then have "v1_files_loop (map file_value (files i)) 0 = Inr (files i)"
      using ok by (intro v1_files_read) (auto simp: info_v1_ok_def)
    then show ?thesis
      using False ok info_get(1) [OF f]
      by (simp add: parse_info_files_def info_v1_ok_def default_info_def parse_v1_files_def)
  qed
  have fields: "0 \<le> piece_length i" "length (pieces i) mod 20 = 0" using ok by (auto simp: info_v1_ok_def)
  have "default_info\<lparr>iname := a, piece_length := b, pieces := c, is_private := d, source := e,
      meta_version := g, file_tree_raw := None\<rparr> = default_info\<lparr>iname := a, piece_length := b,
      pieces := c, is_private := d, source := e, meta_version := g\<rparr>" for a b c d e g
    by (simp add: default_info_def)
  with dec ext files fields show ?thesis
    by (simp add: parse_info_def info_fields_read [OF iok] Let_def)
qed

lemma parse_info_fields_tree: "parse_info_fields (btree_insert (ascii ''file tree'') t d) = parse_info_fields d"
  by (simp add: parse_info_fields_def field_simps' cong: option.case_cong)

lemma info_v2_roundtrip:
  assumes ok: "info_v2_ok i" and raw: "file_tree_raw i = Some raw"
    and len: "length (encode_dict_with_raw_key (info_dict i None) (ascii ''file tree'') raw) \<le> usize_max"
  shows "parse_info (encode_dict_with_raw_key (info_dict i None) (ascii ''file tree'') raw) = Inr i"
proof -
  have iok: "info_ok i" using ok by (simp add: info_ok_def)
  obtain tree where t: "decode raw = Inr tree" "parse_file_tree tree (piece_length i) = Inr (files i)"
    using ok raw by (auto simp: info_v2_ok_def)
  note sp = spliced_dict [OF info_dict_wf [OF iok] t(1) len]
  have ext: "extract_dict_key_raw (encode_dict_with_raw_key (info_dict i None) (ascii ''file tree'') raw) (ascii ''file tree'')
      = Inr (Some raw)"
    unfolding sp(2) by (simp add: btree_get_insert)
  have "parse_info_files d (default_info\<lparr>iname := iname i, piece_length := piece_length i, pieces := pieces i,
      is_private := is_private i, source := source i, meta_version := meta_version i, file_tree_raw := Some raw\<rparr>) = Inr i" for d
    using ok raw t by (simp add: parse_info_files_def info_v2_ok_def default_info_def)
  then show ?thesis
    using info_ok_common [OF iok]
    by (simp add: parse_info_def sp(1) ext parse_info_fields_tree info_fields_read [OF iok] Let_def)
qed

section \<open>Properties\<close>

text \<open>C15: A torrent file written from a \<open>MetaInfo\<close> is read back as the same \<open>MetaInfo\<close>. In particular
  the info dictionary comes back byte for byte, even when its encoding is not canonical, so the
  info hash of the written file is that of the original.\<close>

theorem metainfo_roundtrip:
  assumes ok: "metainfo_ok mi" and enc: "encode_metainfo mi = Inr data" and len: "length data \<le> usize_max"
  shows "parse_metainfo data = Inr mi"
proof -
  obtain v where v: "decode (info_bytes mi) = Inr v" using ok by (auto simp: metainfo_ok_def)
  have data: "data = encode_dict_with_raw_key (metainfo_dict mi) (ascii ''info'') (info_bytes mi)"
    using enc by (simp add: encode_metainfo_def encode_dict_with_raw_info_key split: if_splits)
  have dec: "decode data = Inr (VDict (btree_insert (ascii ''info'') v (metainfo_dict mi)))"
    unfolding data by (rule spliced_dict(1) [OF metainfo_dict_wf [OF ok] v]) (use len data in simp)
  have ext: "extract_dict_key_raw data (ascii ''info'') = Inr (Some (info_bytes mi))"
    using spliced_dict(2) [OF metainfo_dict_wf [OF ok] v, of "ascii ''info''" "ascii ''info''"] len data
    by (simp add: btree_get_insert)
  show ?thesis
    unfolding parse_metainfo_def dec ext
    using metainfo_fields [OF ok, of v] metainfo_url_list [OF ok, of v]
    by (simp add: unwrap_or_default_def)
qed

definition sample_metainfo :: meta_info where
  "sample_metainfo = \<lparr>info_bytes = [100, 101], announce = [117], announce_list = [[[118], []], []],
     mnodes = [[104]], creation_date = 5, comment = [], created_by = [119], encoding = [],
     url_list = [[120]], piece_layers = []\<rparr>"

lemma sample_metainfo_ok: "metainfo_ok sample_metainfo"
proof -
  have "decode [100, 101] = Inr (VDict [])"
    using bencode.dec_enc [of "VDict []" "[]"] by (simp add: decode_def)
  then show ?thesis
    by (simp add: metainfo_ok_def sample_metainfo_def valid_ascii)
qed

theorem metainfo_roundtrip_witness:
  "\<exists>data. encode_metainfo sample_metainfo = Inr data \<and> parse_metainfo data = Inr sample_metainfo"
proof -
  let ?data = "encode_dict_with_raw_info (metainfo_dict sample_metainfo) [100, 101]"
  have e: "encode_metainfo sample_metainfo = Inr ?data"
    by (simp add: encode_metainfo_def sample_metainfo_def)
  moreover have "length ?data \<le> usize_max"
    by (simp add: encode_dict_with_raw_info_def metainfo_dict_def sample_metainfo_def insert_if_def Let_def
        ascii_def encode_bytes_def to_string_int_def to_string_nat.simps)
  ultimately show ?thesis using metainfo_roundtrip [OF sample_metainfo_ok e] by blast
qed

lemma choose_loop_bounds:
  assumes "0 < pl" and "0 \<le> t"
  shows "\<exists>k. choose_loop pl (t div pl) = pl * 2 ^ k \<and> t div (pl * 2 ^ k) < 2048
    \<and> (0 < k \<longrightarrow> 1024 \<le> t div (pl * 2 ^ k))"
  using assms
proof (induction pl "t div pl" rule: choose_loop.induct)
  case (1 pl)
  show ?case
  proof (cases "t div pl \<ge> 2048")
    case True
    have half: "t div pl div 2 = t div (pl * 2)" using 1(2) by (simp add: zdiv_zmult2_eq)
    obtain k where k: "choose_loop (pl * 2) (t div (pl * 2)) = pl * 2 * 2 ^ k"
      "t div (pl * 2 * 2 ^ k) < 2048" "0 < k \<longrightarrow> 1024 \<le> t div (pl * 2 * 2 ^ k)"
      using 1(1) [OF True half] 1(2,3) by auto
    have "1024 \<le> t div (pl * 2)" using True half by linarith
    then have "1024 \<le> t div (pl * 2 * 2 ^ k)" using k(3) by (cases "k = 0") auto
    with k True half show ?thesis
      by (intro exI [of _ "Suc k"]) (subst choose_loop.simps, simp add: mult.assoc)
  next
    case False
    then show ?thesis by (intro exI [of _ 0]) (subst choose_loop.simps, simp)
  qed
qed

text \<open>C31: The piece length chosen for a payload of non-negative size is 16 KiB times a power of two,
  the payload has fewer than 2049 pieces of it, and above the minimum at least 1024 full ones.\<close>

theorem choose_piece_length_bounds:
  assumes "0 \<le> n"
  shows "\<exists>k. choose_piece_length n = 16384 * 2 ^ k \<and> n div choose_piece_length n < 2048
    \<and> (0 < k \<longrightarrow> 1024 \<le> n div choose_piece_length n)"
proof -
  have "div_i64 n 16384 = n div 16384" using assms by (simp add: div_i64_nonneg)
  then show ?thesis
    using choose_loop_bounds [of 16384 n] assms by (auto simp: choose_piece_length_def)
qed

theorem choose_piece_length_bounds_witness:
  "\<exists>k. choose_piece_length 67108864 = 16384 * 2 ^ k \<and> 67108864 div choose_piece_length 67108864 < 2048"
  using choose_piece_length_bounds [of 67108864] by auto


definition sample_info :: info where
  "sample_info = default_info\<lparr>iname := [109], piece_length := 16384, is_private := Some True,
     files := [\<lparr>path = [[97]], flength = 10, torrent_offset = 0, attr = [], pieces_root = None\<rparr>,
               \<lparr>path = [[98], [99]], flength = 7, torrent_offset = 10, attr = [120], pieces_root = None\<rparr>]\<rparr>"

text \<open>A version 2 info with the file tree \<open>d1:ad0:d6:lengthi7eeee\<close>.\<close>

definition sample_tree :: bytes where
  "sample_tree = ascii ''d1:ad0:d6:lengthi7eeee''"

definition sample_v2 :: info where
  "sample_v2 = default_info\<lparr>iname := [109], piece_length := 16384, meta_version := 2, file_tree_raw := Some sample_tree,
     files := [\<lparr>path = [[97]], flength = 7, torrent_offset = 0, attr = [], pieces_root = None\<rparr>]\<rparr>"

lemma sample_info_ok: "info_ok sample_info"
  by (simp add: info_ok_def info_v1_ok_def sample_info_def default_info_def file_ok_def valid_ascii wrap_i64_def)

lemma sample_tree_read:
  "decode sample_tree = Inr (VDict [([97], VDict [([], VDict [(ascii ''length'', VInt 7)])])])"
proof -
  let ?v = "VDict [([97], VDict [([], VDict [(ascii ''length'', VInt 7)])])]"
  have e: "encode ?v = sample_tree"
    by (simp add: sample_tree_def ascii_def encode_bytes_def to_string_int_def to_string_nat.simps)
  have "wf_value ?v" by simp
  moreover have "length sample_tree \<le> usize_max" by (simp add: sample_tree_def ascii_def)
  ultimately have "decode_prefix sample_tree = Inr (?v, length sample_tree)"
    using bencode.dec_enc [of ?v "[]"] unfolding append_Nil2 e by blast
  then show ?thesis by (simp add: decode_def)
qed

lemma sample_v2_ok: "info_ok sample_v2"
proof -
  have "parse_file_tree (VDict [([97], VDict [([], VDict [(ascii ''length'', VInt 7)])])]) 16384 = Inr (files sample_v2)"
    by code_simp
  then show ?thesis
    using sample_tree_read by (simp add: info_ok_def info_v2_ok_def sample_v2_def default_info_def valid_ascii)
qed


end
