(* ===== verification/CacheSlots.thy ===== *)
theory CacheSlots
  imports Lru FileMap Metainfo Checkpoint
begin

text \<open>
  Slots of the RAM piece cache (\<^verbatim>\<open>wt-storage/src/storage/write_back.rs\<close>,
  \<open>ensure_cache_slot_locked\<close>, \<open>ensure_stream_slot_locked\<close>, \<open>drop_cache_locked\<close>). The record
  holds the fields of \<open>StorageInner\<close> that these operations and those of the theories built on this one read or write. An outer \<open>option\<close> is
  \<open>None\<close> where the source would panic or loop forever; the theorems show it does neither.
  The cache is a client of the recency interface of theory \<open>Lru\<close>.
\<close>

section \<open>Model\<close>

record storage_inner =
  cache :: "nat \<Rightarrow> bytes option"
  cache_dirty :: "nat \<Rightarrow> bool option"
  dirty_spans :: "nat \<Rightarrow> byte_range list option"
  flush_new :: "nat \<Rightarrow> byte_range list option"
  flushing :: "nat set"
  cache_order :: piece_lru
  cache_bytes :: int
  max_cache_bytes :: int
  completed :: "nat \<Rightarrow> bool option"
  startup_pieces :: "nat \<Rightarrow> bool option"
  startup_saved :: "nat \<Rightarrow> bool option"
  preload_pieces :: "(nat \<Rightarrow> bool option) option"
  stream_demand :: "nat \<Rightarrow> bool option"
  stream_lost :: "nat \<Rightarrow> bool option"
  stream_whole :: "nat \<Rightarrow> bool option"
  stream_ranges :: "nat \<Rightarrow> byte_range list option"
  stream_revision :: nat
  chunk_length :: int
  sinfo :: "info option"
  sfiles :: "file_descriptor list"
  attached :: bool
  closed :: bool
  streaming :: bool
  partial_slots :: "nat \<Rightarrow> byte_range list option"
  saved_partial :: "nat \<Rightarrow> bool option"
  flush_err :: "string option"
  files_gen :: nat
  evicting :: "nat set"
  flush_raced :: "nat set"
  identities :: "file_identity list"
  checkpoint_dirty :: bool
  checkpoint_seq :: nat
  checkpoint_gen :: nat
  pending_sync_fds :: "nat set"
  checkpoint_flushing :: bool
  checkpoint_flush_scheduled :: bool
  checkpoint_last_err :: "string option"
  checkpoint_failures :: nat
  checkpoint_retry :: duration

datatype cache_slot = Ready bool | FlushFirst nat

text \<open>The casts \<open>index as i32\<close> and \<open>p as usize\<close>.\<close>

definition as_i32 :: "nat \<Rightarrow> int" where
  "as_i32 n = (int n + 2147483648) mod 4294967296 - 2147483648"

definition as_usize :: "int \<Rightarrow> nat" where
  "as_usize x = nat (x mod 18446744073709551616)"

text \<open>\<open>map.get(&k).copied().unwrap_or(false)\<close>.\<close>

definition flag :: "(nat \<Rightarrow> bool option) \<Rightarrow> nat \<Rightarrow> bool" where
  "flag m k = (case m k of Some b \<Rightarrow> b | None \<Rightarrow> False)"

definition drop_cache_locked :: "storage_inner \<Rightarrow> nat \<Rightarrow> storage_inner option" where
  "drop_cache_locked s index =
     (case cache s index of
        None \<Rightarrow> Some s
      | Some data \<Rightarrow> do {
          ord \<leftarrow> remove (cache_order s) (as_i32 index);
          Some (s\<lparr>cache := (cache s)(index := None),
                  cache_bytes := cache_bytes s - int (length data),
                  cache_dirty := (cache_dirty s)(index := None),
                  dirty_spans := (dirty_spans s)(index := None),
                  flush_new := (flush_new s)(index := None),
                  cache_order := ord\<rparr>) })"

definition clean_victim :: "storage_inner \<Rightarrow> nat \<Rightarrow> bool \<Rightarrow> int \<Rightarrow> bool" where
  "clean_victim s index verified_only p =
     (let p_idx = as_usize p in
      \<not> (p_idx = index \<or> p_idx \<in> flushing s) \<and> \<not> flag (cache_dirty s) p_idx
      \<and> \<not> (verified_only \<and> \<not> flag (completed s) p_idx))"

definition flushable_victim :: "storage_inner \<Rightarrow> nat \<Rightarrow> int \<Rightarrow> bool" where
  "flushable_victim s index p =
     (let p_idx = as_usize p in p_idx \<noteq> index \<and> p_idx \<notin> flushing s)"

text \<open>The eviction loop; \<open>Inr None\<close> means it left because the slot now fits.\<close>

fun evict_clean :: "nat \<Rightarrow> storage_inner \<Rightarrow> nat \<Rightarrow> int
    \<Rightarrow> (storage_inner \<times> (storage_error + cache_slot option)) option" where
  "evict_clean fuel s index expected =
     (if \<not> cache_bytes s + expected > max_cache_bytes s then Some (s, Inr None)
      else case fuel of 0 \<Rightarrow> None | Suc fuel' \<Rightarrow> do {
        v \<leftarrow> each (cache_order s) (clean_victim s index True);
        v \<leftarrow> (case v of Some p \<Rightarrow> Some (Some p)
                     | None \<Rightarrow> each (cache_order s) (clean_victim s index False));
        (case v of
           Some p \<Rightarrow> do { s \<leftarrow> drop_cache_locked s (as_usize p); evict_clean fuel' s index expected }
         | None \<Rightarrow> do {
             d \<leftarrow> each (cache_order s) (flushable_victim s index);
             (case d of
                Some p \<Rightarrow> Some (s, Inr (Some (FlushFirst (as_usize p))))
              | None \<Rightarrow> Some (s, Inl (Other ''cache full of unflushable data''))) }) })"

declare evict_clean.simps [simp del]

definition loop_fuel :: "storage_inner \<Rightarrow> nat" where
  "loop_fuel s = Suc (length (nodes (cache_order s)))"

definition insert_slot :: "storage_inner \<Rightarrow> nat \<Rightarrow> int \<Rightarrow> storage_inner option" where
  "insert_slot s index expected =
     (if expected < 0 then None
      else do {
        ord \<leftarrow> touch (cache_order s) (as_i32 index);
        Some (s\<lparr>cache := (cache s)(index \<mapsto> replicate (nat expected) 0),
                cache_bytes := cache_bytes s + expected,
                cache_order := ord\<rparr>) })"

definition ensure_cache_slot_locked :: "storage_inner \<Rightarrow> nat \<Rightarrow> int
    \<Rightarrow> (storage_inner \<times> (storage_error + cache_slot)) option" where
  "ensure_cache_slot_locked s index expected =
     (let make = (\<lambda>s. do {
        (s, r) \<leftarrow> evict_clean (loop_fuel s) s index expected;
        (case r of
           Inl e \<Rightarrow> Some (s, Inl e)
         | Inr (Some slot) \<Rightarrow> Some (s, Inr slot)
         | Inr None \<Rightarrow> do { s \<leftarrow> insert_slot s index expected; Some (s, Inr (Ready True)) }) })
      in case cache s index of
           Some existing \<Rightarrow>
             (if int (length existing) = expected
              then do { ord \<leftarrow> touch (cache_order s) (as_i32 index);
                        Some (s\<lparr>cache_order := ord\<rparr>, Inr (Ready False)) }
              else do { s \<leftarrow> drop_cache_locked s index; make s })
         | None \<Rightarrow> make s)"

text \<open>The victim test of the stream cache, in its two passes.\<close>

definition stream_victim :: "storage_inner \<Rightarrow> nat \<Rightarrow> nat \<Rightarrow> int \<Rightarrow> bool" where
  "stream_victim s index pass p =
     (let p_idx = as_usize p;
          is_comp = flag (completed s) p_idx;
          is_whole = flag (stream_whole s) p_idx;
          is_demanded = flag (stream_demand s) p_idx;
          is_preload = (case preload_pieces s of Some x \<Rightarrow> x p_idx \<noteq> None | None \<Rightarrow> False);
          is_startup = flag (startup_pieces s) p_idx;
          is_saved = flag (startup_saved s) p_idx
      in if p_idx = index then False
         else if \<not> is_comp \<and> is_whole then False
         else if pass = 0 \<and> (is_demanded \<or> (is_preload \<and> \<not> is_saved)
                             \<or> (is_startup \<and> is_comp \<and> \<not> is_saved)) then False
         else True)"

definition evict_stream_piece :: "storage_inner \<Rightarrow> nat \<Rightarrow> (storage_inner \<times> nat list) option" where
  "evict_stream_piece s v = do {
     let s = (if \<not> flag (completed s) v then s\<lparr>stream_lost := (stream_lost s)(v \<mapsto> True)\<rparr> else s);
     s \<leftarrow> drop_cache_locked s v;
     let s = s\<lparr>stream_ranges := (stream_ranges s)(v := None), stream_whole := (stream_whole s)(v := None)\<rparr>;
     Some (if \<not> flag (startup_saved s) v
           then (s\<lparr>completed := (completed s)(v := None)\<rparr>, [v]) else (s, [])) }"

fun evict_stream :: "nat \<Rightarrow> storage_inner \<Rightarrow> nat \<Rightarrow> int \<Rightarrow> nat list
    \<Rightarrow> (storage_inner \<times> (storage_error + nat list)) option" where
  "evict_stream fuel s index expected refresh =
     (if \<not> cache_bytes s + expected > max_cache_bytes s then Some (s, Inr refresh)
      else case fuel of 0 \<Rightarrow> None | Suc fuel' \<Rightarrow> do {
        v \<leftarrow> each (cache_order s) (stream_victim s index 0);
        v \<leftarrow> (case v of Some p \<Rightarrow> Some (Some p)
                     | None \<Rightarrow> each (cache_order s) (stream_victim s index 1));
        (case v of
           None \<Rightarrow> Some (s, Inl (Other ''stream cache busy''))
         | Some p \<Rightarrow> do {
             (s, extra) \<leftarrow> evict_stream_piece s (as_usize p);
             evict_stream fuel' s index expected (refresh @ extra) }) })"

declare evict_stream.simps [simp del]

definition ensure_stream_slot_locked :: "storage_inner \<Rightarrow> nat \<Rightarrow> int
    \<Rightarrow> (storage_inner \<times> (storage_error + bool \<times> nat list)) option" where
  "ensure_stream_slot_locked s index expected =
     (let make = (\<lambda>s. do {
        (s, r) \<leftarrow> evict_stream (loop_fuel s) s index expected [];
        (case r of
           Inl e \<Rightarrow> Some (s, Inl e)
         | Inr refresh \<Rightarrow> do {
             s \<leftarrow> insert_slot s index expected;
             Some (s\<lparr>stream_revision := (stream_revision s + 1) mod 2 ^ 64\<rparr>, Inr (True, refresh)) }) })
      in case cache s index of
           Some data \<Rightarrow>
             (if int (length data) = expected
              then do { ord \<leftarrow> touch (cache_order s) (as_i32 index);
                        Some (s\<lparr>cache_order := ord\<rparr>, Inr (False, [])) }
              else do { s \<leftarrow> drop_cache_locked s index; make s })
         | None \<Rightarrow> make s)"

section \<open>Invariant\<close>

text \<open>
  The recency list is well formed and holds exactly the cached pieces, and \<open>cache_bytes\<close> is
  the number of bytes in the cached buffers.
\<close>

definition slot_size :: "storage_inner \<Rightarrow> int \<Rightarrow> int" where
  "slot_size s k = int (length (the (cache s (nat k))))"

definition cache_inv :: "storage_inner \<Rightarrow> bool" where
  "cache_inv s \<longleftrightarrow>
     lru_inv (cache_order s)
     \<and> (\<forall>k\<in>set (order (cache_order s)). 0 \<le> k \<and> k < 2147483648 \<and> cache s (nat k) \<noteq> None)
     \<and> (\<forall>i. cache s i \<noteq> None \<longrightarrow> int i \<in> set (order (cache_order s)))
     \<and> cache_bytes s = sum_list (map (slot_size s) (order (cache_order s)))"

lemma as_i32_id: "n < 2147483648 \<Longrightarrow> as_i32 n = int n"
  by (simp add: as_i32_def)

lemma as_usize_id: "0 \<le> x \<Longrightarrow> x < 2147483648 \<Longrightarrow> as_usize x = nat x"
  by (simp add: as_usize_def)

lemma cache_inv_lru: "cache_inv s \<Longrightarrow> lru_inv (cache_order s)"
  by (simp add: cache_inv_def)

lemma cache_inv_keyD:
  assumes "cache_inv s" and "k \<in> set (order (cache_order s))"
  shows "as_usize k = nat k" "int (nat k) = k" "cache s (nat k) \<noteq> None" "nat k < 2147483648"
  using assms by (auto simp: cache_inv_def as_usize_id nat_less_iff)

lemma cache_inv_cached:
  assumes "cache_inv s" and "cache s i \<noteq> None"
  shows "int i \<in> set (order (cache_order s))" "i < 2147483648" "as_i32 i = int i" "as_usize (int i) = i"
proof -
  show k: "int i \<in> set (order (cache_order s))" using assms by (simp add: cache_inv_def)
  show b: "i < 2147483648" using cache_inv_keyD(4) [OF assms(1) k] by simp
  then show "as_i32 i = int i" "as_usize (int i) = i" by (simp_all add: as_i32_id as_usize_id)
qed

definition without :: "storage_inner \<Rightarrow> nat \<Rightarrow> piece_lru \<Rightarrow> bytes \<Rightarrow> storage_inner" where
  "without s i o' data =
     s\<lparr>cache := (cache s)(i := None), cache_bytes := cache_bytes s - int (length data),
       cache_dirty := (cache_dirty s)(i := None), dirty_spans := (dirty_spans s)(i := None),
       flush_new := (flush_new s)(i := None), cache_order := o'\<rparr>"

lemma drop_cache_spec:
  assumes inv: "cache_inv s" and c: "cache s i = Some data"
  obtains o' where "drop_cache_locked s i = Some (without s i o' data)"
    "cache_inv (without s i o' data)" "order o' = remove1 (int i) (order (cache_order s))"
    "length (order o') < length (order (cache_order s))"
proof -
  have k: "int i \<in> set (order (cache_order s))" "as_i32 i = int i"
    using cache_inv_cached [OF inv] c by auto
  have L: "lru_inv (cache_order s)" using inv by (rule cache_inv_lru)
  obtain o' where o': "remove (cache_order s) (int i) = Some o'" "lru_inv o'"
    "order o' = remove1 (int i) (order (cache_order s))"
    using lru.drop_law [OF L] by blast
  have bytes: "cache_bytes s = sum_list (map (slot_size s) (order (cache_order s)))"
    using inv by (simp add: cache_inv_def)
  have ssz: "slot_size s (int i) = int (length data)" using c by (simp add: slot_size_def)
  have set': "set (order o') = set (order (cache_order s)) - {int i}"
    using lru.drop_some(3) [OF L o'(1)] .
  have same: "\<forall>k\<in>set (order o'). slot_size (without s i o' data) k = slot_size s k"
  proof
    fix k assume "k \<in> set (order o')"
    then have "k \<noteq> int i" "0 \<le> k" using set' inv by (auto simp: cache_inv_def)
    then have "nat k \<noteq> i" by auto
    then show "slot_size (without s i o' data) k = slot_size s k"
      by (simp add: slot_size_def without_def)
  qed
  have "sum_list (map (slot_size s) (order (cache_order s)))
      = slot_size s (int i) + sum_list (map (slot_size s) (order o'))"
    unfolding o'(3) by (rule sum_list_map_remove1 [OF k(1)])
  also have "map (slot_size s) (order o') = map (slot_size (without s i o' data)) (order o')"
    using same by simp
  finally have sum: "sum_list (map (slot_size (without s i o' data)) (order o'))
      = cache_bytes s - int (length data)"
    using bytes ssz by simp
  have "cache_inv (without s i o' data)"
    unfolding cache_inv_def
  proof (intro conjI)
    show "lru_inv (cache_order (without s i o' data))" using o'(2) by (simp add: without_def)
    show "\<forall>k\<in>set (order (cache_order (without s i o' data))).
        0 \<le> k \<and> k < 2147483648 \<and> cache (without s i o' data) (nat k) \<noteq> None"
      using set' inv by (auto simp: without_def cache_inv_def)
    show "\<forall>j. cache (without s i o' data) j \<noteq> None \<longrightarrow> int j \<in> set (order (cache_order (without s i o' data)))"
      using set' inv by (auto simp: without_def cache_inv_def)
    show "cache_bytes (without s i o' data) = sum_list
        (map (slot_size (without s i o' data)) (order (cache_order (without s i o' data))))"
      using sum by (simp add: without_def)
  qed
  moreover have "drop_cache_locked s i = Some (without s i o' data)"
    using c o'(1) k(2) by (simp add: drop_cache_locked_def without_def)
  moreover have "length (order o') < length (order (cache_order s))"
    using k(1) length_pos_if_in_set [OF k(1)] unfolding o'(3) by (simp add: length_remove1)
  ultimately show ?thesis using that o'(3) by blast
qed

lemma order_length: "lru_inv s \<Longrightarrow> length (order s) \<le> length (nodes s)"
proof -
  assume "lru_inv s"
  then obtain xs fs where r: "lru_rep s xs fs" by (auto simp: lru_inv_def)
  then have "dll (nodes s) None xs None" "distinct xs" by (auto simp: lru_rep_def)
  then show ?thesis using dll_length order_rep [OF r] by simp
qed

lemma insert_slot_spec:
  assumes inv: "cache_inv s" and c: "cache s i = None" and i: "i < 2147483648" and e: "0 \<le> expected"
  obtains o' where "insert_slot s i expected = Some (s\<lparr>cache := (cache s)(i \<mapsto> replicate (nat expected) 0),
      cache_bytes := cache_bytes s + expected, cache_order := o'\<rparr>)"
    "cache_inv (s\<lparr>cache := (cache s)(i \<mapsto> replicate (nat expected) 0),
      cache_bytes := cache_bytes s + expected, cache_order := o'\<rparr>)"
    "order o' = order (cache_order s) @ [int i]"
proof -
  have L: "lru_inv (cache_order s)" using inv by (rule cache_inv_lru)
  have k: "int i \<notin> set (order (cache_order s))"
    using cache_inv_keyD(3) [OF inv, of "int i"] c by auto
  obtain o' where o': "touch (cache_order s) (int i) = Some o'" "lru_inv o'"
    "order o' = order (cache_order s) @ [int i]"
    using lru.touch_law [OF L, of "int i"] k by (auto simp: remove1_idem)
  let ?s = "s\<lparr>cache := (cache s)(i \<mapsto> replicate (nat expected) 0),
      cache_bytes := cache_bytes s + expected, cache_order := o'\<rparr>"
  have same: "map (slot_size ?s) (order (cache_order s)) = map (slot_size s) (order (cache_order s))"
    using k inv by (auto simp: slot_size_def cache_inv_def)
  have bytes: "cache_bytes s = sum_list (map (slot_size s) (order (cache_order s)))"
    using inv by (simp add: cache_inv_def)
  have new: "slot_size ?s (int i) = expected" using e by (simp add: slot_size_def)
  have total: "sum_list (map (slot_size ?s) (order o'))
      = sum_list (map (slot_size s) (order (cache_order s))) + expected"
    unfolding o'(3) map_append same using new by simp
  have "cache_inv ?s"
    unfolding cache_inv_def
  proof (intro conjI)
    show "cache_bytes ?s = sum_list (map (slot_size ?s) (order (cache_order ?s)))"
      using total bytes by simp
  qed (use inv o' i in \<open>auto simp: cache_inv_def\<close>)
  moreover have "insert_slot s i expected = Some ?s"
    using o'(1) i e by (simp add: insert_slot_def as_i32_id)
  ultimately show ?thesis using that o'(3) by blast
qed

section \<open>Eviction keeps what must be kept\<close>

text \<open>
  \<open>keeps pr s t\<close>: going from \<open>s\<close> to \<open>t\<close>, slots were only dropped, and no slot of a piece that
  satisfies \<open>pr\<close> was touched (its buffer, dirty flag and dirty spans are the same).
\<close>

definition keeps :: "(nat \<Rightarrow> bool) \<Rightarrow> storage_inner \<Rightarrow> storage_inner \<Rightarrow> bool" where
  "keeps pr s t \<longleftrightarrow>
     (\<forall>p. pr p \<longrightarrow> cache t p = cache s p \<and> cache_dirty t p = cache_dirty s p \<and> dirty_spans t p = dirty_spans s p)
     \<and> (\<forall>p. cache t p = cache s p \<or> cache t p = None)
     \<and> flushing t = flushing s \<and> max_cache_bytes t = max_cache_bytes s"

definition unsaved :: "storage_inner \<Rightarrow> nat \<Rightarrow> bool" where
  "unsaved s p \<longleftrightarrow> p \<in> flushing s \<or> flag (cache_dirty s) p"

lemma keeps_refl [simp]: "keeps pr s s"
  by (simp add: keeps_def)

lemma keeps_trans: "keeps pr s t \<Longrightarrow> keeps pr t u \<Longrightarrow> keeps pr s u"
  unfolding keeps_def by metis

lemma keeps_mono: "keeps pr s t \<Longrightarrow> (\<And>p. qr p \<Longrightarrow> pr p) \<Longrightarrow> keeps qr s t"
  by (simp add: keeps_def)

lemma without_keeps: "\<not> pr i \<Longrightarrow> keeps pr s (without s i o' data)"
  by (auto simp: keeps_def without_def)

lemma without_unsaved: "p \<noteq> i \<Longrightarrow> unsaved (without s i o' data) p = unsaved s p"
  by (simp add: unsaved_def without_def flag_def)

definition evict_post :: "storage_inner \<Rightarrow> nat \<Rightarrow> int \<Rightarrow> storage_error + cache_slot option \<Rightarrow> bool" where
  "evict_post s index expected r \<longleftrightarrow>
     (case r of
        Inl e \<Rightarrow> \<forall>p. cache s p \<noteq> None \<longrightarrow> p = index \<or> p \<in> flushing s
      | Inr None \<Rightarrow> cache_bytes s + expected \<le> max_cache_bytes s
      | Inr (Some (FlushFirst d)) \<Rightarrow>
          d \<noteq> index \<and> d \<notin> flushing s \<and> flag (cache_dirty s) d \<and> cache s d \<noteq> None
      | Inr (Some (Ready b)) \<Rightarrow> False)"

lemma clean_victim_not_unsaved:
  "clean_victim s index b p \<Longrightarrow> as_usize p \<noteq> index \<and> \<not> unsaved s (as_usize p)"
  by (auto simp: clean_victim_def unsaved_def Let_def)

lemma evict_clean_spec:
  assumes "cache_inv s" and "length (order (cache_order s)) < fuel"
  shows "\<exists>t r. evict_clean fuel s index expected = Some (t, r) \<and> cache_inv t
    \<and> keeps (\<lambda>p. p = index \<or> unsaved s p) s t \<and> evict_post t index expected r"
  using assms
proof (induction fuel arbitrary: s)
  case 0
  then show ?case by simp
next
  case (Suc fuel)
  note inv = Suc.prems(1)
  have L: "lru_inv (cache_order s)" using inv by (rule cache_inv_lru)
  note scan = lru.scan_law [OF L]
  let ?v = "find (clean_victim s index True) (order (cache_order s))"
  let ?w = "case ?v of Some p \<Rightarrow> Some p | None \<Rightarrow> find (clean_victim s index False) (order (cache_order s))"
  show ?case
  proof (cases "cache_bytes s + expected > max_cache_bytes s")
    case False
    then show ?thesis using inv by (subst evict_clean.simps) (simp add: evict_post_def)
  next
    case True
    have step: "evict_clean (Suc fuel) s index expected =
      (case ?w of Some p \<Rightarrow> do { s \<leftarrow> drop_cache_locked s (as_usize p); evict_clean fuel s index expected }
       | None \<Rightarrow> (case find (flushable_victim s index) (order (cache_order s)) of
                    Some p \<Rightarrow> Some (s, Inr (Some (FlushFirst (as_usize p))))
                  | None \<Rightarrow> Some (s, Inl (Other ''cache full of unflushable data''))))"
      using True by (subst evict_clean.simps) (auto simp: scan split: option.splits)
    show ?thesis
    proof (cases ?w)
      case (Some p)
      then obtain b where p: "p \<in> set (order (cache_order s))" "clean_victim s index b p"
        by (auto split: option.splits simp: find_Some_iff)
      note key = cache_inv_keyD [OF inv p(1)]
      obtain data where c: "cache s (as_usize p) = Some data" using key by auto
      obtain o' where d: "drop_cache_locked s (as_usize p) = Some (without s (as_usize p) o' data)"
        "cache_inv (without s (as_usize p) o' data)"
        "length (order o') < length (order (cache_order s))"
        using drop_cache_spec [OF inv c] by metis
      let ?s = "without s (as_usize p) o' data"
      have "length (order (cache_order ?s)) < fuel" using d(3) Suc.prems(2) by (simp add: without_def)
      from Suc.IH [OF d(2) this] obtain t r where t: "evict_clean fuel ?s index expected = Some (t, r)"
        "cache_inv t" "keeps (\<lambda>p. p = index \<or> unsaved ?s p) ?s t" "evict_post t index expected r"
        by blast
      have nv: "as_usize p \<noteq> index" "\<not> unsaved s (as_usize p)" using clean_victim_not_unsaved [OF p(2)] by auto
      have "keeps (\<lambda>q. q = index \<or> unsaved s q) s ?s" using nv by (intro without_keeps) auto
      moreover have "keeps (\<lambda>q. q = index \<or> unsaved s q) ?s t"
        using t(3) by (rule keeps_mono) (metis nv(2) without_unsaved)
      ultimately have "keeps (\<lambda>q. q = index \<or> unsaved s q) s t" by (rule keeps_trans)
      with t step Some d(1) show ?thesis by auto
    next
      case None
      then have noclean: "\<forall>p\<in>set (order (cache_order s)). \<not> clean_victim s index False p"
        by (auto split: option.splits simp: find_None_iff)
      show ?thesis
      proof (cases "find (flushable_victim s index) (order (cache_order s))")
        case nf: None
        have "evict_post s index expected (Inl e)" for e
          unfolding evict_post_def
        proof (simp, intro allI impI)
          fix p assume "\<exists>y. cache s p = Some y"
          then have "cache s p \<noteq> None" by auto
          from cache_inv_cached [OF inv this] nf show "p = index \<or> p \<in> flushing s"
            by (auto simp: find_None_iff flushable_victim_def Let_def)
        qed
        with None nf step inv show ?thesis by simp
      next
        case (Some p)
        then have p: "p \<in> set (order (cache_order s))" "flushable_victim s index p"
          by (auto simp: find_Some_iff)
        have "flag (cache_dirty s) (as_usize p)"
          using noclean p by (auto simp: clean_victim_def flushable_victim_def Let_def)
        with p cache_inv_keyD [OF inv p(1)] have "evict_post s index expected (Inr (Some (FlushFirst (as_usize p))))"
          by (auto simp: evict_post_def flushable_victim_def Let_def)
        with None Some step inv show ?thesis by simp
      qed
    qed
  qed
qed

text \<open>What the caller of \<open>ensure_cache_slot_locked\<close> may rely on.\<close>

definition slot_post :: "storage_inner \<Rightarrow> nat \<Rightarrow> int \<Rightarrow> storage_error + cache_slot \<Rightarrow> bool" where
  "slot_post t index expected r \<longleftrightarrow>
     (case r of
        Inr (Ready new) \<Rightarrow> (\<exists>data. cache t index = Some data \<and> int (length data) = expected)
          \<and> (new \<longrightarrow> cache_bytes t \<le> max_cache_bytes t)
      | Inr (FlushFirst d) \<Rightarrow> d \<noteq> index \<and> d \<notin> flushing t \<and> flag (cache_dirty t) d \<and> cache t d \<noteq> None
      | Inl e \<Rightarrow> \<forall>p. cache t p \<noteq> None \<longrightarrow> p \<in> flushing t)"

definition make_slot :: "storage_inner \<Rightarrow> nat \<Rightarrow> int \<Rightarrow> (storage_inner \<times> (storage_error + cache_slot)) option" where
  "make_slot s index expected = do {
     (s, r) \<leftarrow> evict_clean (loop_fuel s) s index expected;
     (case r of
        Inl e \<Rightarrow> Some (s, Inl e)
      | Inr (Some slot) \<Rightarrow> Some (s, Inr slot)
      | Inr None \<Rightarrow> do { s \<leftarrow> insert_slot s index expected; Some (s, Inr (Ready True)) }) }"

lemma make_slot_spec:
  assumes inv: "cache_inv s" and c: "cache s index = None" and i: "index < 2147483648" and e: "0 \<le> expected"
  shows "\<exists>t r. make_slot s index expected = Some (t, r) \<and> cache_inv t \<and> slot_post t index expected r
    \<and> (\<forall>p. p \<noteq> index \<and> unsaved s p \<longrightarrow> cache t p = cache s p \<and> cache_dirty t p = cache_dirty s p
          \<and> dirty_spans t p = dirty_spans s p)"
proof -
  have "length (order (cache_order s)) < loop_fuel s"
    using order_length [OF cache_inv_lru [OF inv]] by (simp add: loop_fuel_def)
  from evict_clean_spec [OF inv this] obtain t r where t:
    "evict_clean (loop_fuel s) s index expected = Some (t, r)" "cache_inv t"
    "keeps (\<lambda>p. p = index \<or> unsaved s p) s t" "evict_post t index expected r"
    by blast
  have ct: "cache t index = None" and kp: "\<forall>p. unsaved s p \<longrightarrow> cache t p = cache s p
      \<and> cache_dirty t p = cache_dirty s p \<and> dirty_spans t p = dirty_spans s p"
    using t(3) c by (auto simp: keeps_def)
  consider (err) er where "r = Inl er" | (flush) d where "r = Inr (Some (FlushFirst d))" | (fit) "r = Inr None"
    using t(4) by (cases r) (auto simp: evict_post_def split: option.splits cache_slot.splits)
  then show ?thesis
  proof cases
    case err
    then have "slot_post t index expected (Inl er)"
      using t(4) ct by (auto simp: evict_post_def slot_post_def)
    with err t kp show ?thesis by (auto simp: make_slot_def)
  next
    case flush
    then have "slot_post t index expected (Inr (FlushFirst d))"
      using t(4) by (simp add: evict_post_def slot_post_def)
    with flush t kp show ?thesis by (auto simp: make_slot_def)
  next
    case fit
    obtain o' where o': "insert_slot t index expected = Some (t\<lparr>cache := (cache t)(index \<mapsto> replicate (nat expected) 0),
        cache_bytes := cache_bytes t + expected, cache_order := o'\<rparr>)"
      "cache_inv (t\<lparr>cache := (cache t)(index \<mapsto> replicate (nat expected) 0),
        cache_bytes := cache_bytes t + expected, cache_order := o'\<rparr>)"
      using insert_slot_spec [OF t(2) ct i e] by metis
    with fit t kp e show ?thesis
      by (auto simp: make_slot_def slot_post_def evict_post_def)
  qed
qed

lemma ensure_cache_slot_cases:
  "ensure_cache_slot_locked s index expected =
     (case cache s index of
        None \<Rightarrow> make_slot s index expected
      | Some d \<Rightarrow> if int (length d) = expected
          then do { ord \<leftarrow> touch (cache_order s) (as_i32 index); Some (s\<lparr>cache_order := ord\<rparr>, Inr (Ready False)) }
          else do { s \<leftarrow> drop_cache_locked s index; make_slot s index expected })"
  by (auto simp: ensure_cache_slot_locked_def make_slot_def Let_def split: option.splits)

lemma touch_keeps_inv:
  assumes inv: "cache_inv s" and c: "cache s i \<noteq> None"
  obtains o' where "touch (cache_order s) (as_i32 i) = Some o'" "cache_inv (s\<lparr>cache_order := o'\<rparr>)"
proof -
  note k = cache_inv_cached [OF inv c]
  have L: "lru_inv (cache_order s)" using inv by (rule cache_inv_lru)
  obtain o' where o': "touch (cache_order s) (int i) = Some o'" "lru_inv o'"
    "order o' = remove1 (int i) (order (cache_order s)) @ [int i]"
    using lru.touch_law [OF L] by blast
  have set': "set (order o') = set (order (cache_order s))"
    using lru.touch_some(3) [OF L o'(1)] k(1) by auto
  have ss: "slot_size (s\<lparr>cache_order := o'\<rparr>) = slot_size s" by (rule ext) (simp add: slot_size_def)
  have "sum_list (map (slot_size s) (order o')) = sum_list (map (slot_size s) (order (cache_order s)))"
    using sum_list_map_remove1 [OF k(1), of "slot_size s"] by (simp add: o'(3))
  then have "cache_inv (s\<lparr>cache_order := o'\<rparr>)"
    using inv o'(2) set' by (simp add: cache_inv_def ss)
  with that o'(1) k(3) show ?thesis by simp
qed

section \<open>Eviction from the stream cache\<close>

text \<open>
  \<open>streamed index s t new\<close>: every piece is either untouched, or was evicted by the rules: it is
  not the piece being filled, it was not a fully received but unverified piece, it is reported in
  \<open>new\<close> and forgotten as complete exactly when it has no saved copy, and it is marked lost when it
  was incomplete.
\<close>

definition evicted_ok :: "nat \<Rightarrow> storage_inner \<Rightarrow> storage_inner \<Rightarrow> nat list \<Rightarrow> nat \<Rightarrow> bool" where
  "evicted_ok index s t new p \<longleftrightarrow>
     p \<noteq> index \<and> cache s p \<noteq> None \<and> cache t p = None
     \<and> \<not> (flag (stream_whole s) p \<and> \<not> flag (completed s) p)
     \<and> (p \<in> set new \<longleftrightarrow> \<not> flag (startup_saved s) p)
     \<and> completed t p = (if p \<in> set new then None else completed s p)
     \<and> (\<not> flag (completed s) p \<longrightarrow> stream_lost t p = Some True)"

definition untouched :: "storage_inner \<Rightarrow> storage_inner \<Rightarrow> nat list \<Rightarrow> nat \<Rightarrow> bool" where
  "untouched s t new p \<longleftrightarrow>
     cache t p = cache s p \<and> completed t p = completed s p \<and> stream_lost t p = stream_lost s p
     \<and> stream_whole t p = stream_whole s p \<and> p \<notin> set new"

definition streamed :: "nat \<Rightarrow> storage_inner \<Rightarrow> storage_inner \<Rightarrow> nat list \<Rightarrow> bool" where
  "streamed index s t new \<longleftrightarrow>
     (\<forall>p. untouched s t new p \<or> evicted_ok index s t new p)
     \<and> startup_saved t = startup_saved s \<and> max_cache_bytes t = max_cache_bytes s"

lemma streamed_refl [simp]: "streamed index s s []"
  by (simp add: streamed_def untouched_def)

lemma streamed_trans:
  assumes a: "streamed index s t new" and b: "streamed index t u extra"
  shows "streamed index s u (new @ extra)"
proof -
  have "untouched s u (new @ extra) p \<or> evicted_ok index s u (new @ extra) p" for p
  proof -
    have p1: "untouched s t new p \<or> evicted_ok index s t new p"
      and p2: "untouched t u extra p \<or> evicted_ok index t u extra p"
      and sv: "startup_saved t = startup_saved s"
      using a b by (auto simp: streamed_def)
    from p1 show ?thesis
    proof
      assume "untouched s t new p"
      with p2 sv show ?thesis by (auto simp: untouched_def evicted_ok_def flag_def)
    next
      assume e: "evicted_ok index s t new p"
      with p2 have "untouched t u extra p" by (auto simp: evicted_ok_def)
      with e show ?thesis by (auto simp: untouched_def evicted_ok_def)
    qed
  qed
  with a b show ?thesis by (simp add: streamed_def)
qed

lemma evict_stream_piece_spec:
  assumes inv: "cache_inv s" and c: "cache s v = Some data" and v: "v \<noteq> index"
    and ok: "\<not> (flag (stream_whole s) v \<and> \<not> flag (completed s) v)"
  obtains t new where "evict_stream_piece s v = Some (t, new)" "cache_inv t" "streamed index s t new"
    "length (order (cache_order t)) < length (order (cache_order s))"
proof -
  let ?s1 = "if \<not> flag (completed s) v then s\<lparr>stream_lost := (stream_lost s)(v \<mapsto> True)\<rparr> else s"
  have inv1: "cache_inv ?s1" and c1: "cache ?s1 v = Some data"
    using inv c by (auto simp: cache_inv_def slot_size_def cong: map_cong)
  obtain o' where d: "drop_cache_locked ?s1 v = Some (without ?s1 v o' data)"
    "cache_inv (without ?s1 v o' data)" "length (order o') < length (order (cache_order ?s1))"
    using drop_cache_spec [OF inv1 c1] by metis
  let ?s2 = "(without ?s1 v o' data)\<lparr>stream_ranges := (stream_ranges (without ?s1 v o' data))(v := None),
      stream_whole := (stream_whole (without ?s1 v o' data))(v := None)\<rparr>"
  let ?t = "if \<not> flag (startup_saved s) v then ?s2\<lparr>completed := (completed ?s2)(v := None)\<rparr> else ?s2"
  let ?new = "if \<not> flag (startup_saved s) v then [v] else []"
  have e: "evict_stream_piece s v = Some (?t, ?new)"
    using d(1) by (simp add: evict_stream_piece_def Let_def) (simp add: without_def)
  have "cache_inv ?t"
    using d(2) by (auto simp: cache_inv_def slot_size_def cong: map_cong)
  moreover have "streamed index s ?t ?new"
    using c v ok by (auto simp: streamed_def untouched_def evicted_ok_def without_def)
  moreover have "length (order (cache_order ?t)) < length (order (cache_order s))"
    using d(3) by (simp add: without_def split: if_splits)
  ultimately show ?thesis using that e by blast
qed

lemma stream_victim_ok:
  "stream_victim s index pass p \<Longrightarrow> as_usize p \<noteq> index
     \<and> \<not> (flag (stream_whole s) (as_usize p) \<and> \<not> flag (completed s) (as_usize p))"
  by (auto simp: stream_victim_def Let_def split: if_splits)

lemma evict_stream_spec:
  assumes "cache_inv s" and "length (order (cache_order s)) < fuel"
  shows "\<exists>t r. evict_stream fuel s index expected refresh = Some (t, r) \<and> cache_inv t
    \<and> (\<exists>new. streamed index s t new \<and>
         (\<forall>l. r = Inr l \<longrightarrow> l = refresh @ new \<and> cache_bytes t + expected \<le> max_cache_bytes t))"
  using assms
proof (induction fuel arbitrary: s refresh)
  case 0
  then show ?case by simp
next
  case (Suc fuel)
  note inv = Suc.prems(1)
  have L: "lru_inv (cache_order s)" using inv by (rule cache_inv_lru)
  note scan = lru.scan_law [OF L]
  let ?w = "case find (stream_victim s index 0) (order (cache_order s)) of Some p \<Rightarrow> Some p
     | None \<Rightarrow> find (stream_victim s index 1) (order (cache_order s))"
  show ?case
  proof (cases "cache_bytes s + expected > max_cache_bytes s")
    case False
    then show ?thesis using inv
      by (subst evict_stream.simps) (auto intro!: exI [of _ "[]"])
  next
    case True
    have step: "evict_stream (Suc fuel) s index expected refresh =
      (case ?w of None \<Rightarrow> Some (s, Inl (Other ''stream cache busy''))
       | Some p \<Rightarrow> do { (s, extra) \<leftarrow> evict_stream_piece s (as_usize p);
                        evict_stream fuel s index expected (refresh @ extra) })"
      using True by (subst evict_stream.simps) (auto simp: scan split: option.splits)
    show ?thesis
    proof (cases ?w)
      case None
      with step inv show ?thesis by (auto intro!: exI [of _ "[]"])
    next
      case (Some p)
      then obtain b where p: "p \<in> set (order (cache_order s))" "stream_victim s index b p"
        by (auto split: option.splits simp: find_Some_iff)
      obtain data where c: "cache s (as_usize p) = Some data" using cache_inv_keyD [OF inv p(1)] by auto
      obtain t new where t: "evict_stream_piece s (as_usize p) = Some (t, new)" "cache_inv t"
        "streamed index s t new" "length (order (cache_order t)) < length (order (cache_order s))"
        using evict_stream_piece_spec [OF inv c, of index] stream_victim_ok [OF p(2)] by metis
      have "length (order (cache_order t)) < fuel" using t(4) Suc.prems(2) by linarith
      from Suc.IH [OF t(2) this, of "refresh @ new"] obtain u r extra where u:
        "evict_stream fuel t index expected (refresh @ new) = Some (u, r)" "cache_inv u"
        "streamed index t u extra"
        "\<forall>l. r = Inr l \<longrightarrow> l = (refresh @ new) @ extra \<and> cache_bytes u + expected \<le> max_cache_bytes u"
        by blast
      from streamed_trans [OF t(3) u(3)] u step Some t(1) show ?thesis by auto
    qed
  qed
qed

lemma make_stream_spec:
  assumes inv: "cache_inv s" and i: "index < 2147483648" and e: "0 \<le> expected" and c: "cache s index = None"
  shows "\<exists>t r new. ensure_stream_slot_locked s index expected = Some (t, r) \<and> cache_inv t
    \<and> (\<forall>p. p \<noteq> index \<longrightarrow> untouched s t new p \<or> evicted_ok index s t new p)
    \<and> (\<forall>b l. r = Inr (b, l) \<longrightarrow> b \<and> l = new \<and> cache_bytes t \<le> max_cache_bytes t
         \<and> cache t index = Some (replicate (nat expected) 0))"
proof -
  have "length (order (cache_order s)) < loop_fuel s"
    using order_length [OF cache_inv_lru [OF inv]] by (simp add: loop_fuel_def)
  from evict_stream_spec [OF inv this, of index expected "[]"] obtain t r new where t:
    "evict_stream (loop_fuel s) s index expected [] = Some (t, r)" "cache_inv t" "streamed index s t new"
    "\<forall>l. r = Inr l \<longrightarrow> l = new \<and> cache_bytes t + expected \<le> max_cache_bytes t"
    by auto
  have R: "\<forall>p. untouched s t new p \<or> evicted_ok index s t new p" using t(3) by (simp add: streamed_def)
  then have ct: "cache t index = None"
    using c spec [OF R, of index] by (auto simp: untouched_def evicted_ok_def)
  show ?thesis
  proof (cases r)
    case (Inl er)
    then have "ensure_stream_slot_locked s index expected = Some (t, Inl er)"
      using t(1) c by (simp add: ensure_stream_slot_locked_def)
    with t(2) R show ?thesis by blast
  next
    case (Inr l)
    obtain o' where o': "insert_slot t index expected = Some (t\<lparr>cache := (cache t)(index \<mapsto> replicate (nat expected) 0),
        cache_bytes := cache_bytes t + expected, cache_order := o'\<rparr>)"
      "cache_inv (t\<lparr>cache := (cache t)(index \<mapsto> replicate (nat expected) 0),
        cache_bytes := cache_bytes t + expected, cache_order := o'\<rparr>)"
      using insert_slot_spec [OF t(2) ct i e] by metis
    let ?u = "t\<lparr>cache := (cache t)(index \<mapsto> replicate (nat expected) 0),
        cache_bytes := cache_bytes t + expected, cache_order := o',
        stream_revision := (stream_revision t + 1) mod 2 ^ 64\<rparr>"
    have u: "ensure_stream_slot_locked s index expected = Some (?u, Inr (True, new))"
      using Inr t c o'(1) by (simp add: ensure_stream_slot_locked_def)
    have "cache_inv ?u" using o'(2) by (simp add: cache_inv_def slot_size_def cong: map_cong)
    moreover have "untouched s ?u new p = untouched s t new p"
      "evicted_ok index s ?u new p = evicted_ok index s t new p" if "p \<noteq> index" for p
      using that by (simp_all add: untouched_def evicted_ok_def)
    then have "\<forall>p. p \<noteq> index \<longrightarrow> untouched s ?u new p \<or> evicted_ok index s ?u new p"
      using R by simp
    moreover have "cache_bytes ?u \<le> max_cache_bytes ?u" "cache ?u index = Some (replicate (nat expected) 0)"
      using t(4) Inr by simp_all
    ultimately show ?thesis using u by blast
  qed
qed

lemma ensure_stream_slot_existing:
  "cache s index = Some d \<Longrightarrow> ensure_stream_slot_locked s index expected =
     (if int (length d) = expected
      then do { ord \<leftarrow> touch (cache_order s) (as_i32 index); Some (s\<lparr>cache_order := ord\<rparr>, Inr (False, [])) }
      else do { s \<leftarrow> drop_cache_locked s index; ensure_stream_slot_locked s index expected })"
  by (auto simp: ensure_stream_slot_locked_def drop_cache_locked_def Let_def split: Option.bind_split)

section \<open>Properties\<close>

text \<open>C6: Making room for a download slot always returns (no panic, no endless eviction), keeps the
  cache consistent, never drops or alters the buffer of another piece that is dirty or being
  flushed, and answers one of: a slot of the requested size within the byte budget, a dirty piece
  that must be written back first, or an error when every cached piece is being flushed.\<close>

theorem ensure_cache_slot_safe:
  assumes inv: "cache_inv s" and i: "index < 2147483648" and e: "0 \<le> expected"
  shows "\<exists>t r. ensure_cache_slot_locked s index expected = Some (t, r) \<and> cache_inv t
    \<and> slot_post t index expected r
    \<and> (\<forall>p. p \<noteq> index \<and> unsaved s p \<longrightarrow> cache t p = cache s p \<and> cache_dirty t p = cache_dirty s p
          \<and> dirty_spans t p = dirty_spans s p)"
proof (cases "cache s index")
  case None
  then show ?thesis
    using make_slot_spec [OF inv None i e] by (simp add: ensure_cache_slot_cases)
next
  case (Some d)
  show ?thesis
  proof (cases "int (length d) = expected")
    case True
    obtain o' where "touch (cache_order s) (as_i32 index) = Some o'" "cache_inv (s\<lparr>cache_order := o'\<rparr>)"
      using touch_keeps_inv [OF inv, of index] Some by auto
    with True Some show ?thesis by (simp add: ensure_cache_slot_cases slot_post_def)
  next
    case False
    obtain o' where w: "drop_cache_locked s index = Some (without s index o' d)"
      "cache_inv (without s index o' d)"
      using drop_cache_spec [OF inv Some] by metis
    have "cache (without s index o' d) index = None" by (simp add: without_def)
    from make_slot_spec [OF w(2) this i e] w(1) False Some show ?thesis
      by (auto simp: ensure_cache_slot_cases without_unsaved) (auto simp: without_def)
  qed
qed

text \<open>The state of the witnesses: piece 1 is dirty, piece 2 is clean, four bytes are cached.\<close>

definition sample_cache :: storage_inner where
  "sample_cache =
     \<lparr>cache = [1 \<mapsto> [5, 6], 2 \<mapsto> [7, 8]], cache_dirty = [1 \<mapsto> True], dirty_spans = Map.empty,
      flush_new = Map.empty, flushing = {}, cache_order = two_piece_lru, cache_bytes = 4,
      max_cache_bytes = 4, completed = [2 \<mapsto> True], startup_pieces = Map.empty,
      startup_saved = Map.empty, preload_pieces = None, stream_demand = Map.empty,
      stream_lost = Map.empty, stream_whole = Map.empty, stream_ranges = Map.empty,
      stream_revision = 0, chunk_length = 2, sinfo = None, sfiles = [], attached = True, closed = False,
      streaming = False, partial_slots = Map.empty, saved_partial = Map.empty, flush_err = None,
      files_gen = 0, evicting = {}, flush_raced = {}, identities = [], checkpoint_dirty = False,
      checkpoint_seq = 0, checkpoint_gen = 0, pending_sync_fds = {}, checkpoint_flushing = False,
      checkpoint_flush_scheduled = False, checkpoint_last_err = None, checkpoint_failures = 0,
      checkpoint_retry = 0\<rparr>"

lemma sample_cache_inv: "cache_inv sample_cache"
  using two_piece_lru_inv by (auto simp: cache_inv_def sample_cache_def slot_size_def split: if_splits)

theorem ensure_cache_slot_safe_witness:
  "\<exists>t r. ensure_cache_slot_locked sample_cache 3 2 = Some (t, r) \<and> cache_inv t
     \<and> slot_post t 3 2 r \<and> cache t 1 = Some [5, 6]"
  using ensure_cache_slot_safe [OF sample_cache_inv, of 3 2]
  by (auto simp: sample_cache_def unsaved_def flag_def)

text \<open>C18: Making room for a stream slot always returns and keeps the cache consistent. The only
  pieces it evicts are other than the one being filled and not fully received but unverified ones;
  each evicted piece without a saved copy is forgotten as complete and returned for a completion
  refresh, no other piece is, and each evicted incomplete piece is marked lost. On success the
  slot has the requested size and a newly made slot fits the byte budget.\<close>

theorem ensure_stream_slot_safe:
  assumes inv: "cache_inv s" and i: "index < 2147483648" and e: "0 \<le> expected"
  shows "\<exists>t r new. ensure_stream_slot_locked s index expected = Some (t, r) \<and> cache_inv t
    \<and> (\<forall>p. p \<noteq> index \<longrightarrow> untouched s t new p \<or> evicted_ok index s t new p)
    \<and> (\<forall>b l. r = Inr (b, l) \<longrightarrow> l = new \<and> (b \<longrightarrow> cache_bytes t \<le> max_cache_bytes t)
         \<and> (\<exists>data. cache t index = Some data \<and> int (length data) = expected))"
proof (cases "cache s index")
  case None
  from make_stream_spec [OF inv i e None] obtain t r new where
    "ensure_stream_slot_locked s index expected = Some (t, r)" "cache_inv t"
    "\<forall>p. p \<noteq> index \<longrightarrow> untouched s t new p \<or> evicted_ok index s t new p"
    "\<forall>b l. r = Inr (b, l) \<longrightarrow> b \<and> l = new \<and> cache_bytes t \<le> max_cache_bytes t
       \<and> cache t index = Some (replicate (nat expected) 0)"
    by blast
  with e show ?thesis by (intro exI [of _ t] exI [of _ r] exI [of _ new]) simp
next
  case (Some d)
  show ?thesis
  proof (cases "int (length d) = expected")
    case True
    obtain o' where "touch (cache_order s) (as_i32 index) = Some o'" "cache_inv (s\<lparr>cache_order := o'\<rparr>)"
      using touch_keeps_inv [OF inv, of index] Some by auto
    with True Some show ?thesis
      by (intro exI [of _ "s\<lparr>cache_order := o'\<rparr>"] exI [of _ "Inr (False, [])"] exI [of _ "[]"])
        (simp add: ensure_stream_slot_existing untouched_def)
  next
    case False
    obtain o' where w: "drop_cache_locked s index = Some (without s index o' d)"
      "cache_inv (without s index o' d)"
      using drop_cache_spec [OF inv Some] by metis
    have same: "untouched (without s index o' d) t new p = untouched s t new p"
      "evicted_ok index (without s index o' d) t new p = evicted_ok index s t new p" if "p \<noteq> index" for t new p
      using that by (auto simp: untouched_def evicted_ok_def without_def)
    have "cache (without s index o' d) index = None" by (simp add: without_def)
    from make_stream_spec [OF w(2) i e this] obtain t r new where
      "ensure_stream_slot_locked (without s index o' d) index expected = Some (t, r)" "cache_inv t"
      "\<forall>p. p \<noteq> index \<longrightarrow> untouched (without s index o' d) t new p \<or> evicted_ok index (without s index o' d) t new p"
      "\<forall>b l. r = Inr (b, l) \<longrightarrow> b \<and> l = new \<and> cache_bytes t \<le> max_cache_bytes t
         \<and> cache t index = Some (replicate (nat expected) 0)"
      by blast
    with w(1) False Some same e show ?thesis
      by (intro exI [of _ t] exI [of _ r] exI [of _ new]) (simp add: ensure_stream_slot_existing)
  qed
qed

theorem ensure_stream_slot_safe_witness:
  "\<exists>t r new. ensure_stream_slot_locked sample_cache 3 2 = Some (t, r) \<and> cache_inv t
    \<and> (untouched sample_cache t new 1 \<or> evicted_ok 3 sample_cache t new 1)"
proof -
  obtain t r new where t: "ensure_stream_slot_locked sample_cache 3 2 = Some (t, r)" "cache_inv t"
    and p: "\<forall>p. p \<noteq> 3 \<longrightarrow> untouched sample_cache t new p \<or> evicted_ok 3 sample_cache t new p"
    using ensure_stream_slot_safe [OF sample_cache_inv, of 3 2] by auto
  have "untouched sample_cache t new 1 \<or> evicted_ok 3 sample_cache t new 1" using p by simp
  with t show ?thesis by blast
qed

end
