(* ===== verification/WriteBack.thy ===== *)
theory WriteBack
  imports CacheSlots
begin

text \<open>
  Writing received blocks into the RAM cache and the cache back to the files
  (\<^verbatim>\<open>wt-storage/src/storage/write_back.rs\<close>, \<^verbatim>\<open>storage/piece.rs\<close>). The locked operations are functions
  on the state; an operation that releases the lock for its input and output is cut there, into the part
  before, the planned system calls and the part after, so that other threads can be put in between.
  Condition variables and the callbacks of the player are not modelled. The outer \<open>None\<close> is a panic.
\<close>

section \<open>Model\<close>

text \<open>\<open>Display\<close> of \<open>StorageError\<close>.\<close>

fun error_text :: "storage_error \<Rightarrow> string" where
  "error_text (Io m) = ''io: '' @ m"
| "error_text Closed = ''storage closed''"
| "error_text Unavailable = ''data not available''"
| "error_text (Other m) = m"

type_synonym planned_write = "nat \<times> nat \<times> bytes \<times> nat \<times> nat"

record piece_flush =
  pf_writes :: "planned_write list"
  pf_gen :: nat

text \<open>\<open>&data[start..end]\<close> does not panic.\<close>

definition in_slot :: "bytes \<Rightarrow> byte_range \<Rightarrow> bool" where
  "in_slot data r \<longleftrightarrow> 0 \<le> rstart r \<and> rstart r \<le> rend r \<and> rend r \<le> int (length data)"

definition whole_slot :: "bytes \<Rightarrow> byte_range" where
  "whole_slot data = \<lparr>rstart = 0, rend = int (length data)\<rparr>"

subsection \<open>Flushing under the lock\<close>

definition mark_saved_partial_locked :: "storage_inner \<Rightarrow> nat \<Rightarrow> storage_inner" where
  "mark_saved_partial_locked s index =
     (if \<not> flag (completed s) index then s\<lparr>saved_partial := (saved_partial s)(index \<mapsto> True)\<rparr> else s)"

text \<open>The loop over the dirty spans; on an error it returns the spans that stay dirty.\<close>

primrec flush_spans :: "write_outcome \<Rightarrow> disk \<Rightarrow> file_descriptor list \<Rightarrow> int \<Rightarrow> bytes \<Rightarrow> byte_range list
    \<Rightarrow> (disk \<times> (storage_error \<times> byte_range list + unit)) option" where
  "flush_spans wo d fs base data [] = Some (d, Inr ())"
| "flush_spans wo d fs base data (r # rs) =
     (if \<not> in_slot data r then None
      else case write_to_files_locked wo d fs (base + rstart r) (slice (nat (rstart r)) (nat (rend r)) data) of
        (d', Inl e) \<Rightarrow> Some (d', Inl (e, r # rs))
      | (d', Inr _) \<Rightarrow> flush_spans wo d' fs base data rs)"

definition flush_piece_locked :: "write_outcome \<Rightarrow> storage_inner \<Rightarrow> disk \<Rightarrow> nat
    \<Rightarrow> (storage_inner \<times> disk \<times> (storage_error + unit)) option" where
  "flush_piece_locked wo s d index =
     (if \<not> flag (cache_dirty s) index then Some (s, d, Inr ())
      else case cache s index of
        None \<Rightarrow> Some (s, d, Inr ())
      | Some data \<Rightarrow>
          (if dirty_spans s index = None \<and> partial_slots s index \<noteq> None
           then Some (s\<lparr>cache_dirty := (cache_dirty s)(index \<mapsto> False)\<rparr>, d, Inr ())
           else
             let spans = (case dirty_spans s index of Some rs \<Rightarrow> rs | None \<Rightarrow> [whole_slot data]);
                 s = s\<lparr>dirty_spans := (dirty_spans s)(index := None)\<rparr>
             in case flush_spans wo d (sfiles s) (int index * chunk_length s) data spans of
                  None \<Rightarrow> None
                | Some (d', Inl (e, left)) \<Rightarrow>
                    Some (s\<lparr>dirty_spans := (dirty_spans s)(index \<mapsto> left), flush_err := Some (error_text e)\<rparr>, d', Inl e)
                | Some (d', Inr _) \<Rightarrow>
                    Some ((mark_saved_partial_locked (s\<lparr>cache_dirty := (cache_dirty s)(index \<mapsto> False)\<rparr>) index)
                            \<lparr>flush_err := None\<rparr>, d', Inr ())))"

text \<open>\<open>flush_all_dirty_locked\<close>: the dirty pieces in the order the map yields them, a parameter.\<close>

primrec flush_all_dirty_locked :: "write_outcome \<Rightarrow> storage_inner \<Rightarrow> disk \<Rightarrow> nat list
    \<Rightarrow> (storage_inner \<times> disk \<times> (storage_error + unit)) option" where
  "flush_all_dirty_locked wo s d [] = Some (s, d, Inr ())"
| "flush_all_dirty_locked wo s d (i # is) =
     (case flush_piece_locked wo s d i of
        None \<Rightarrow> None
      | Some (s', d', Inl e) \<Rightarrow> Some (s', d', Inl e)
      | Some (s', d', Inr _) \<Rightarrow> flush_all_dirty_locked wo s' d' is)"

subsection \<open>Flushing without the lock\<close>

primrec plan_spans :: "file_descriptor list \<Rightarrow> int \<Rightarrow> bytes \<Rightarrow> byte_range list \<Rightarrow> planned_write list
    \<Rightarrow> storage_error + planned_write list" where
  "plan_spans fs base data [] ws = Inr ws"
| "plan_spans fs base data (r # rs) ws =
     (case plan_file_reads fs (base + rstart r) (nat (rend r - rstart r)) of
        Inl e \<Rightarrow> Inl e
      | Inr ps \<Rightarrow>
          plan_spans fs base data rs
            (ws @ map (\<lambda>(h, pos, lo, hi). (h, pos, data, nat (rstart r) + lo, nat (rstart r) + hi)) ps))"

definition plan_piece_flush_locked :: "storage_inner \<Rightarrow> nat \<Rightarrow> storage_error + piece_flush option" where
  "plan_piece_flush_locked s index =
     (if \<not> flag (cache_dirty s) index then Inr None
      else case cache s index of
        None \<Rightarrow> Inr None
      | Some data \<Rightarrow>
          (if dirty_spans s index = None \<and> partial_slots s index \<noteq> None
           then Inr (Some \<lparr>pf_writes = [], pf_gen = files_gen s\<rparr>)
           else
             let spans = (case dirty_spans s index of Some rs \<Rightarrow> rs | None \<Rightarrow> [whole_slot data]) in
             case plan_spans (sfiles s) (int index * chunk_length s) data spans [] of
               Inl e \<Rightarrow> Inl e
             | Inr ws \<Rightarrow> Inr (Some \<lparr>pf_writes = ws, pf_gen = files_gen s\<rparr>)))"

text \<open>
  \<open>flush_piece_unlocked\<close> up to the release of the lock, once no other thread flushes the piece. \<open>Inl\<close>
  is a result that is returned at once, \<open>Inr\<close> the plan that is written next.
\<close>

definition begin_flush :: "storage_inner \<Rightarrow> nat \<Rightarrow> storage_inner \<times> ((storage_error + bool) + piece_flush)" where
  "begin_flush s index =
     (if closed s then (s, Inl (Inl Closed))
      else case plan_piece_flush_locked s index of
        Inl e \<Rightarrow> (s\<lparr>flush_err := Some (error_text e)\<rparr>, Inl (Inl e))
      | Inr None \<Rightarrow> (s, Inl (Inr True))
      | Inr (Some plan) \<Rightarrow>
          (s\<lparr>flushing := insert index (flushing s), flush_raced := flush_raced s - {index},
             flush_new := (flush_new s)(index := None)\<rparr>, Inr plan))"

text \<open>\<open>flush_piece_unlocked\<close> from the point where the lock is taken again.\<close>

definition finish_flush :: "storage_inner \<Rightarrow> nat \<Rightarrow> piece_flush \<Rightarrow> storage_error + unit
    \<Rightarrow> storage_inner \<times> (storage_error + bool)" where
  "finish_flush s index plan written =
     (let raced = (index \<in> flush_raced s);
          arrived = flush_new s index;
          s = s\<lparr>flushing := flushing s - {index}, flush_raced := flush_raced s - {index},
                flush_new := (flush_new s)(index := None)\<rparr>
      in if closed s then (s, Inl Closed)
         else case written of
           Inl e \<Rightarrow> (s\<lparr>flush_err := Some (error_text e)\<rparr>, Inl e)
         | Inr _ \<Rightarrow>
             (if files_gen s \<noteq> pf_gen plan then (s, Inr False)
              else
                let s = (if pf_writes plan \<noteq> [] then mark_saved_partial_locked s index else s);
                    new = (if raced \<and> arrived \<noteq> None \<and> the arrived \<noteq> [] \<and> cache s index \<noteq> None then arrived else None)
                in case new of
                     Some spans \<Rightarrow>
                       (s\<lparr>dirty_spans := (dirty_spans s)(index \<mapsto> spans),
                          cache_dirty := (cache_dirty s)(index \<mapsto> True), flush_err := None\<rparr>, Inr False)
                   | None \<Rightarrow>
                       (s\<lparr>cache_dirty := (cache_dirty s)(index \<mapsto> False),
                          dirty_spans := (dirty_spans s)(index := None), flush_err := None\<rparr>, Inr True)))"

text \<open>The whole of it when no other thread comes in between.\<close>

definition flush_piece_unlocked :: "write_outcome \<Rightarrow> storage_inner \<Rightarrow> disk \<Rightarrow> nat
    \<Rightarrow> storage_inner \<times> disk \<times> (storage_error + bool)" where
  "flush_piece_unlocked wo s d index =
     (case begin_flush s index of
        (s, Inl r) \<Rightarrow> (s, d, r)
      | (s, Inr plan) \<Rightarrow>
          (let (d, written) = flush_write wo d (pf_writes plan);
               (s, r) = finish_flush s index plan written
           in (s, d, r)))"

subsection \<open>Receiving a block\<close>

definition received_range :: "int \<Rightarrow> bytes \<Rightarrow> byte_range" where
  "received_range off buf = \<lparr>rstart = off, rend = off + int (length buf)\<rparr>"

text \<open>\<open>merge_received_range(map.entry(index).or_default(), r)\<close>.\<close>

definition merge_into :: "(nat \<Rightarrow> byte_range list option) \<Rightarrow> nat \<Rightarrow> byte_range \<Rightarrow> nat \<Rightarrow> byte_range list option" where
  "merge_into m index r =
     m(index \<mapsto> merge_received_range (case m index of Some rs \<Rightarrow> rs | None \<Rightarrow> []) r)"

definition is_whole :: "byte_range list \<Rightarrow> int \<Rightarrow> bool" where
  "is_whole rs expected \<longleftrightarrow> length rs = 1 \<and> rstart (rs ! 0) = 0 \<and> rend (rs ! 0) = expected"

definition splice :: "bytes \<Rightarrow> int \<Rightarrow> bytes \<Rightarrow> bytes option" where
  "splice data off buf =
     (if 0 \<le> off \<and> off + int (length buf) \<le> int (length data)
      then Some (take (nat off) data @ buf @ drop (nat off + length buf) data) else None)"

text \<open>The end of \<open>write_locked\<close>, once the piece has its slot.\<close>

definition store_block :: "storage_inner \<Rightarrow> nat \<Rightarrow> int \<Rightarrow> bool \<Rightarrow> int \<Rightarrow> bytes \<Rightarrow> storage_inner option" where
  "store_block s index expected created off buf = do {
     let r = received_range off buf;
     let s = (if created \<and> \<not> streaming s then s\<lparr>partial_slots := (partial_slots s)(index \<mapsto> [])\<rparr> else s);
     let s = (if index \<in> flushing s
              then s\<lparr>flush_raced := insert index (flush_raced s), flush_new := merge_into (flush_new s) index r\<rparr>
              else s);
     s \<leftarrow> (case cache s index of
             None \<Rightarrow> Some s
           | Some data \<Rightarrow> do { data' \<leftarrow> splice data off buf; Some (s\<lparr>cache := (cache s)(index \<mapsto> data')\<rparr>) });
     let s = (case partial_slots s index of
                None \<Rightarrow> s
              | Some written \<Rightarrow>
                  (let written = merge_received_range written r in
                   s\<lparr>partial_slots := (partial_slots s)(index := if is_whole written expected then None else Some written)\<rparr>));
     let s = (if streaming s
              then let is_lost = flag (stream_lost s) index;
                       merged = merge_received_range (case stream_ranges s index of Some rs \<Rightarrow> rs | None \<Rightarrow> []) r
                   in s\<lparr>stream_ranges := (stream_ranges s)(index \<mapsto> merged),
                        stream_whole := (stream_whole s)(index \<mapsto> \<not> is_lost \<and> is_whole merged expected)\<rparr>
              else s);
     let s = s\<lparr>cache_dirty := (cache_dirty s)(index \<mapsto> True), dirty_spans := merge_into (dirty_spans s) index r\<rparr>;
     ord \<leftarrow> touch (cache_order s) (as_i32 index);
     Some (s\<lparr>cache_order := ord\<rparr>) }"

text \<open>A block that arrives before the destination is attached.\<close>

definition prepared_write :: "storage_inner \<Rightarrow> nat \<Rightarrow> int \<Rightarrow> int \<Rightarrow> bytes
    \<Rightarrow> (storage_inner \<times> (storage_error + nat)) option" where
  "prepared_write s index expected off buf =
     (if cache s index = None \<and> cache_bytes s + expected > max_cache_bytes s
      then Some (s, Inl (Other ''prepared data cache is full''))
      else do {
        s \<leftarrow> (if cache s index = None then insert_slot s index expected else Some s);
        data \<leftarrow> cache s index;
        data' \<leftarrow> splice data off buf;
        Some (s\<lparr>cache := (cache s)(index \<mapsto> data'), cache_dirty := (cache_dirty s)(index \<mapsto> True),
                dirty_spans := merge_into (dirty_spans s) index (received_range off buf)\<rparr>, Inr (length buf)) })"

text \<open>
  The start of \<open>write_locked\<close>. \<open>Inl\<close> is a result that is returned; \<open>Inr\<close> enters the loop that makes
  room for the slot of a saved download.
\<close>

definition write_enter :: "storage_inner \<Rightarrow> nat \<Rightarrow> int \<Rightarrow> int \<Rightarrow> bytes
    \<Rightarrow> (storage_inner \<times> ((storage_error + nat) + unit)) option" where
  "write_enter s index expected off buf =
     (if closed s then Some (s, Inl (Inl Closed))
      else if buf = [] then Some (s, Inl (Inr 0))
      else if off < 0 \<or> off + int (length buf) > expected
      then Some (s, Inl (Inl (Other ''invalid piece write bounds'')))
      else if streaming s \<and> flag (completed s) index then Some (s, Inl (Inr (length buf)))
      else if \<not> attached s then do { (s, r) \<leftarrow> prepared_write s index expected off buf; Some (s, Inl r) }
      else if streaming s then do {
        (s, r) \<leftarrow> ensure_stream_slot_locked s index expected;
        (case r of
           Inl e \<Rightarrow> Some (s, Inl (Inl e))
         | Inr (created, refresh) \<Rightarrow> do {
             s \<leftarrow> store_block s index expected created off buf; Some (s, Inl (Inr (length buf))) }) }
      else Some (s, Inr ()))"

datatype write_next = Done "storage_error + nat" | EvictFirst nat | TryAgain | WriteThrough

text \<open>One turn of the loop, once the piece is neither being evicted nor written through.\<close>

definition write_attempt :: "storage_inner \<Rightarrow> nat \<Rightarrow> nat \<Rightarrow> int \<Rightarrow> int \<Rightarrow> bytes
    \<Rightarrow> (storage_inner \<times> write_next) option" where
  "write_attempt s attempts index expected off buf =
     (if closed s then Some (s, Done (Inl Closed))
      else do {
        (s, r) \<leftarrow> ensure_cache_slot_locked s index expected;
        (case r of
           Inr (Ready created) \<Rightarrow> do {
             s \<leftarrow> store_block s index expected created off buf; Some (s, Done (Inr (length buf))) }
         | _ \<Rightarrow>
             (case (case r of Inr (FlushFirst v) \<Rightarrow> if attempts \<le> 8 then Some v else None | _ \<Rightarrow> None) of
                Some v \<Rightarrow> Some (s\<lparr>evicting := insert v (evicting s)\<rparr>, EvictFirst v)
              | None \<Rightarrow> Some (s, if cache s index \<noteq> None \<or> index \<in> flushing s then TryAgain else WriteThrough))) })"

text \<open>After the write-back of a victim: drop its slot if it is clean.\<close>

definition evict_done :: "storage_inner \<Rightarrow> nat \<Rightarrow> nat \<Rightarrow> storage_error + unit \<Rightarrow> (storage_inner \<times> write_next) option" where
  "evict_done s victim index flushed =
     (if closed s then Some (s\<lparr>evicting := evicting s - {victim}\<rparr>, Done (Inl Closed))
      else
        let clean = (\<not> isl flushed \<and> \<not> flag (cache_dirty s) victim \<and> victim \<notin> flushing s) in do {
        s \<leftarrow> (if clean then drop_cache_locked s victim else Some s);
        let s = s\<lparr>evicting := evicting s - {victim}\<rparr>;
        Some (s, if clean \<or> cache s index \<noteq> None \<or> index \<in> flushing s then TryAgain else WriteThrough) })"

subsection \<open>Writing through\<close>

text \<open>
  The loop body of \<open>write_through_unlocked\<close> before and after the write. The piece is reserved in
  \<open>flushing\<close> all along; leaving the loop releases it.
\<close>

definition release_flush :: "storage_inner \<Rightarrow> nat \<Rightarrow> storage_inner" where
  "release_flush s index = s\<lparr>flushing := flushing s - {index}\<rparr>"

definition through_plan :: "storage_inner \<Rightarrow> nat \<Rightarrow> int \<Rightarrow> bytes \<Rightarrow> storage_inner \<times> (storage_error + piece_flush)" where
  "through_plan s index off data =
     (if closed s then (release_flush s index, Inl Closed)
      else if \<not> attached s \<or> streaming s then (release_flush s index, Inl Unavailable)
      else case plan_file_reads (sfiles s) (int index * chunk_length s + off) (length data) of
        Inl e \<Rightarrow> (release_flush s index, Inl e)
      | Inr ps \<Rightarrow>
          (s, Inr \<lparr>pf_writes = map (\<lambda>(h, pos, lo, hi). (h, pos, slice lo hi data, 0, hi - lo)) ps,
                   pf_gen = files_gen s\<rparr>))"

definition through_begin :: "storage_inner \<Rightarrow> nat \<Rightarrow> int \<Rightarrow> bytes \<Rightarrow> storage_inner \<times> (storage_error + piece_flush)" where
  "through_begin s index off data = through_plan (s\<lparr>flushing := insert index (flushing s)\<rparr>) index off data"

text \<open>\<open>None\<close>: the files were replaced, the loop plans again.\<close>

definition through_finish :: "storage_inner \<Rightarrow> nat \<Rightarrow> bytes \<Rightarrow> piece_flush \<Rightarrow> storage_error + unit
    \<Rightarrow> storage_inner \<times> (storage_error + nat) option" where
  "through_finish s index data plan written =
     (if closed s then (release_flush s index, Some (Inl Closed))
      else if files_gen s \<noteq> pf_gen plan then (s, None)
      else case written of
        Inr _ \<Rightarrow> (release_flush (mark_saved_partial_locked s index) index, Some (Inr (length data)))
      | Inl e \<Rightarrow> (release_flush s index, Some (Inl e)))"

subsection \<open>Filling a partial slot\<close>

definition fill_needed :: "storage_inner \<Rightarrow> nat \<Rightarrow> int \<Rightarrow> int \<Rightarrow> bool" where
  "fill_needed s index off n =
     (case partial_slots s index of Some spans \<Rightarrow> \<not> ranges_cover spans off (off + n) | None \<Rightarrow> False)"

text \<open>
  \<open>fill_partial_slot_unlocked\<close> after its flush, up to the release of the lock: the length of the slot,
  the reads and the generation of the files. \<open>Inl\<close> is returned at once.
\<close>

definition fill_begin :: "storage_inner \<Rightarrow> nat \<Rightarrow> (storage_error + unit)
    + nat \<times> (nat \<times> nat \<times> nat \<times> nat) list \<times> nat" where
  "fill_begin s index =
     (case cache s index of
        None \<Rightarrow> Inl (Inr ())
      | Some slot \<Rightarrow>
          (if partial_slots s index = None then Inl (Inr ())
           else case plan_file_reads (sfiles s) (int index * chunk_length s) (length slot) of
             Inl e \<Rightarrow> Inl (Inl e)
           | Inr rds \<Rightarrow> Inr (length slot, rds, files_gen s)))"

text \<open>Copy the disk bytes into the gaps between the spans that were received into the slot.\<close>

primrec fill_gaps :: "bytes \<Rightarrow> bytes \<Rightarrow> nat \<Rightarrow> (nat \<times> nat) list \<Rightarrow> bytes" where
  "fill_gaps buf d pos [] = buf"
| "fill_gaps buf d pos (span # spans) =
     (let buf = (if fst span > pos then pwrite buf pos (slice pos (fst span) d) else buf)
      in fill_gaps buf d (max pos (snd span)) spans)"

definition fill_finish :: "storage_inner \<Rightarrow> nat \<Rightarrow> nat \<Rightarrow> nat \<Rightarrow> storage_error + bytes
    \<Rightarrow> storage_inner \<times> (storage_error + unit)" where
  "fill_finish s index len gen disk_read =
     (if closed s then (s, Inl Closed)
      else if files_gen s \<noteq> gen then (s, Inl Unavailable)
      else case disk_read of
        Inl e \<Rightarrow> (s, Inl e)
      | Inr disk \<Rightarrow>
          (case partial_slots s index of
             None \<Rightarrow> (s, Inr ())
           | Some kept \<Rightarrow>
               (case cache s index of
                  Some buf \<Rightarrow>
                    (if length buf = len
                     then (s\<lparr>cache := (cache s)(index \<mapsto>
                              fill_gaps buf disk 0 (map (\<lambda>r. (nat (rstart r), nat (rend r))) kept @ [(len, len)])),
                            partial_slots := (partial_slots s)(index := None)\<rparr>, Inr ())
                     else (s, Inr ()))
                | None \<Rightarrow> (s, Inr ()))))"

subsection \<open>Completion\<close>

definition piece_length_of :: "storage_inner \<Rightarrow> nat \<Rightarrow> int" where
  "piece_length_of s index = (case sinfo s of Some i \<Rightarrow> plength (piece_of i index) | None \<Rightarrow> 0)"

definition note_piece_files_need_sync_locked :: "storage_inner \<Rightarrow> nat \<Rightarrow> storage_inner" where
  "note_piece_files_need_sync_locked s index =
     (let start = int index * chunk_length s; en = start + piece_length_of s index in
      s\<lparr>pending_sync_fds := pending_sync_fds s \<union> set (List.map_filter fd_file (files_overlapping (sfiles s) start en))\<rparr>)"

text \<open>\<open>spawned\<close>: the thread that runs the scheduled flush could be started.\<close>

definition schedule_checkpoint_flush_locked :: "bool \<Rightarrow> storage_inner \<Rightarrow> storage_inner" where
  "schedule_checkpoint_flush_locked spawned s =
     (if streaming s \<or> closed s \<or> \<not> attached s \<or> checkpoint_flushing s \<or> checkpoint_flush_scheduled s then s
      else if \<not> checkpoint_dirty s \<and> pending_sync_fds s = {} then s
      else s\<lparr>checkpoint_flush_scheduled := spawned\<rparr>)"

definition bump_checkpoint :: "storage_inner \<Rightarrow> storage_inner" where
  "bump_checkpoint s = s\<lparr>checkpoint_dirty := True, checkpoint_seq := (checkpoint_seq s + 1) mod 2 ^ 64\<rparr>"

text \<open>\<open>mark_complete\<close> of a saved download, once the flush has left the piece clean.\<close>

definition complete_piece :: "bool \<Rightarrow> storage_inner \<Rightarrow> nat \<Rightarrow> storage_inner" where
  "complete_piece spawned s index =
     (let s = s\<lparr>completed := (completed s)(index \<mapsto> True), saved_partial := (saved_partial s)(index := None)\<rparr>;
          s = note_piece_files_need_sync_locked s index
      in schedule_checkpoint_flush_locked spawned (bump_checkpoint s))"

text \<open>\<open>frozen\<close> is \<open>freeze_trusted\<close>.\<close>

definition mark_not_complete :: "bool \<Rightarrow> bool \<Rightarrow> storage_inner \<Rightarrow> nat \<Rightarrow> storage_inner option" where
  "mark_not_complete frozen spawned s index =
     (if closed s \<or> \<not> attached s \<or> frozen \<or> flag (completed s) index then Some s
      else do {
        let s = s\<lparr>completed := (completed s)(index := None)\<rparr>;
        let s = (if streaming s
                 then s\<lparr>stream_lost := (stream_lost s)(index := None), stream_ranges := (stream_ranges s)(index := None),
                        stream_whole := (stream_whole s)(index := None)\<rparr>
                 else s);
        s \<leftarrow> drop_cache_locked s index;
        Some (schedule_checkpoint_flush_locked spawned (bump_checkpoint s)) })"

subsection \<open>Reading from the cache\<close>

definition read_at_in_memory :: "storage_inner \<Rightarrow> nat \<Rightarrow> nat \<Rightarrow> int \<Rightarrow> bytes option" where
  "read_at_in_memory s index n off =
     (if closed s \<or> off < 0 then None
      else case cache s index of
        None \<Rightarrow> None
      | Some data \<Rightarrow>
          (let en = off + int n in
           if en > int (length data) \<or> flag (stream_lost s) index
              \<or> (case partial_slots s index of Some spans \<Rightarrow> \<not> ranges_cover spans off en | None \<Rightarrow> False)
           then None
           else Some (slice (nat off) (nat en) data)))"

text \<open>
  \<open>read_piece_data_unlocked\<close>, cut where it may release the lock. \<open>read_enter\<close> are the checks at the
  start; \<open>None\<close> says that the piece has a slot, which is filled next if the read needs it.
  \<open>read_slot\<close> continues with the lock taken again, whatever became of the slot meanwhile;
  \<open>read_uncached\<close> plans the reads that are made without the lock.
\<close>

datatype read_next =
    ReadDone "storage_error + bytes"
  | ReadFiles "(nat \<times> nat \<times> nat \<times> nat) list" nat
  | ReadStartup nat int nat

definition read_uncached :: "storage_inner \<Rightarrow> nat \<Rightarrow> int \<Rightarrow> nat \<Rightarrow> int \<Rightarrow> read_next" where
  "read_uncached s index expected n off =
     (if \<not> attached s then ReadDone (Inl (Other ''download storage is not configured''))
      else
        let k = min (nat (expected - off)) n in
        if streaming s
        then (if \<not> flag (startup_saved s) index then ReadDone (Inl Unavailable) else ReadStartup index (32 + off) k)
        else if off < 0 \<or> off \<ge> expected then ReadDone (Inr [])
        else case plan_file_reads (sfiles s) (int index * chunk_length s + off) k of
          Inl e \<Rightarrow> ReadDone (Inl e)
        | Inr rds \<Rightarrow> ReadFiles rds k)"

definition read_enter :: "storage_inner \<Rightarrow> nat \<Rightarrow> int \<Rightarrow> nat \<Rightarrow> int \<Rightarrow> read_next option" where
  "read_enter s index expected n off =
     (if closed s then Some (ReadDone (Inl Closed))
      else if off < 0 \<or> off \<ge> expected then Some (ReadDone (Inr []))
      else if flag (stream_lost s) index then Some (ReadDone (Inl Unavailable))
      else if cache s index \<noteq> None then None
      else Some (read_uncached s index expected n off))"

definition read_slot :: "storage_inner \<Rightarrow> nat \<Rightarrow> int \<Rightarrow> nat \<Rightarrow> int \<Rightarrow> (storage_inner \<times> read_next) option" where
  "read_slot s index expected n off = do {
     ord \<leftarrow> touch (cache_order s) (as_i32 index);
     let s = s\<lparr>cache_order := ord\<rparr>;
     Some (s, case cache s index of
                Some data \<Rightarrow>
                  ReadDone (Inr (if off \<ge> int (length data) then []
                                 else slice (nat off) (nat off + min (nat (int (length data) - off)) n) data))
              | None \<Rightarrow> read_uncached s index expected n off) }"

section \<open>Spans inside a slot\<close>

definition spans_ok :: "int \<Rightarrow> byte_range list \<Rightarrow> bool" where
  "spans_ok n rs \<longleftrightarrow> normalized rs \<and> covered rs \<subseteq> {0..<n}"

lemma normalized_card: "normalized rs \<Longrightarrow> finite (covered rs) \<and> length rs \<le> card (covered rs)"
proof (induction rs)
  case (Cons r rs)
  have n: "normalized rs" "valid_range r" using Cons.prems by (auto simp: normalized_Cons)
  have fin: "finite (span_set r)" "finite (covered rs)" using Cons.IH n by (auto simp: span_set_def)
  have "span_set r \<noteq> {}" using n(2) by (auto simp: span_set_def valid_range_def)
  then have "1 \<le> card (span_set r)" using fin by (simp add: Suc_le_eq card_gt_0_iff)
  moreover have "card (span_set r \<union> covered rs) = card (span_set r) + card (covered rs)"
    using covered_tail_disjoint [OF Cons.prems] fin by (intro card_Un_disjoint) auto
  ultimately show ?case using Cons.IH n fin by auto
qed simp

lemma spans_ok_length: "spans_ok n rs \<Longrightarrow> 0 \<le> n \<Longrightarrow> int (length rs) \<le> n"
proof -
  assume a: "spans_ok n rs" "0 \<le> n"
  then have "length rs \<le> card (covered rs)" using normalized_card by (simp add: spans_ok_def)
  also have "\<dots> \<le> card {0..<n}" using a by (intro card_mono) (auto simp: spans_ok_def)
  finally show ?thesis using a by simp
qed

lemma spans_ok_Nil [simp]: "spans_ok n []"
  by (simp add: spans_ok_def)

lemma merge_spans:
  assumes rs: "spans_ok n rs" and b: "0 \<le> off" "buf \<noteq> []" "off + int (length buf) \<le> n" and n: "n \<le> 2 ^ 58"
  shows "spans_ok n (merge_received_range rs (received_range off buf))"
    and "covered (merge_received_range rs (received_range off buf)) = covered rs \<union> {off..<off + int (length buf)}"
proof -
  have v: "valid_range (received_range off buf)" using b by (simp add: valid_range_def received_range_def)
  have l: "int (length rs) \<le> 2 ^ 58" using spans_ok_length [OF rs] b n by linarith
  have f: "fits rs" using l by (simp add: fits_def isize_max_def size_of_byte_range_def)
  have nm: "normalized rs" using rs by (simp add: spans_ok_def)
  have span: "span_set (received_range off buf) = {off..<off + int (length buf)}"
    by (auto simp: span_set_def received_range_def)
  show c: "covered (merge_received_range rs (received_range off buf)) = covered rs \<union> {off..<off + int (length buf)}"
    using merge_correct(2) [OF nm v f] span by simp
  show "spans_ok n (merge_received_range rs (received_range off buf))"
    using merge_correct(1) [OF nm v f] c rs b by (auto simp: spans_ok_def)
qed

text \<open>A vector that is one range over the whole slot covers all of it.\<close>

lemma is_whole_covered: "is_whole rs n \<Longrightarrow> covered rs = {0..<n}"
  by (cases rs) (auto simp: is_whole_def span_set_def)

section \<open>Planned writes on the flat image\<close>

definition img :: "disk \<Rightarrow> file_descriptor list \<Rightarrow> int \<Rightarrow> u8" where
  "img d fs a = torrent_image d fs ! nat a"

text \<open>\<open>cells fs ws a c\<close>: a write of \<open>ws\<close> puts the byte \<open>c\<close> at the torrent position \<open>a\<close>.\<close>

definition cells :: "file_descriptor list \<Rightarrow> planned_write list \<Rightarrow> int \<Rightarrow> u8 \<Rightarrow> bool" where
  "cells fs ws a c \<longleftrightarrow>
     (\<exists>h pos data lo hi f i. (h, pos, data, lo, hi) \<in> set ws \<and> f \<in> set fs \<and> fd_file f = Some h
        \<and> lo + i < hi \<and> a = fd_offset f + int pos + int i \<and> c = data ! (lo + i))"

definition write_ok :: "file_descriptor list \<Rightarrow> planned_write \<Rightarrow> bool" where
  "write_ok fs w \<longleftrightarrow>
     (case w of (h, pos, data, lo, hi) \<Rightarrow>
        \<exists>f\<in>set fs. fd_file f = Some h \<and> lo \<le> hi \<and> hi \<le> length data \<and> int (pos + (hi - lo)) \<le> fd_length f)"

lemma cells_Nil [simp]: "\<not> cells fs [] a c"
  by (simp add: cells_def)

lemma cells_append: "cells fs (xs @ ys) a c \<longleftrightarrow> cells fs xs a c \<or> cells fs ys a c"
  unfolding cells_def set_append Un_iff by blast

lemma cells_Cons: "cells fs (w # ws) a c \<longleftrightarrow> cells fs [w] a c \<or> cells fs ws a c"
  using cells_append [of fs "[w]" ws] by simp

lemma cells_mono: "set xs \<subseteq> set ys \<Longrightarrow> cells fs xs a c \<Longrightarrow> cells fs ys a c"
  unfolding cells_def by blast

lemma same_handle: "opened d fs \<Longrightarrow> f \<in> set fs \<Longrightarrow> g \<in> set fs \<Longrightarrow> fd_file f = Some h \<Longrightarrow> fd_file g = Some h \<Longrightarrow> f = g"
  using inj_onD [of handle "set fs" f g] by (simp add: opened_def distinct_map handle_def)

lemma io_write:
  assumes lay: "layout_from 0 fs" and op: "opened d fs" and ok: "write_ok fs w" and w: "flush_write wo d [w] = (d', r)"
  shows "opened d' fs"
    and "0 \<le> a \<Longrightarrow> a < span_total fs \<Longrightarrow> img d' fs a = img d fs a \<or> cells fs [w] a (img d' fs a)"
    and "r = Inr () \<Longrightarrow> cells fs [w] a c \<Longrightarrow> img d' fs a = c"
proof -
  obtain h pos data lo hi where wd: "w = (h, pos, data, lo, hi)" by (cases w)
  obtain f where f: "f \<in> set fs" "fd_file f = Some h" "lo \<le> hi" "hi \<le> length data" "int (pos + (hi - lo)) \<le> fd_length f"
    using ok wd by (auto simp: write_ok_def)
  have h: "handle f = h" "int (length (d h)) = fd_length f" using op f(1,2) by (auto simp: opened_def handle_def)
  let ?c = "slice lo hi data"
  have lc: "length ?c = hi - lo" using f(4) by simp
  obtain k where k: "k \<le> hi - lo" "d' = d(h := pwrite (d h) pos (take k ?c))" "r = Inr () \<Longrightarrow> k = hi - lo"
  proof (cases "wo h pos ?c")
    case None
    then show ?thesis using w wd lc that [of "hi - lo"] by (simp add: write_all_at_def)
  next
    case (Some ne)
    have cut: "take (fst ne) ?c = take (min (fst ne) (hi - lo)) ?c" using lc by (simp add: min_def)
    have "d' = d(h := pwrite (d h) pos (take (fst ne) ?c))" "r \<noteq> Inr ()"
      using w wd Some by (cases ne, auto simp: write_all_at_def)+
    then show ?thesis using that [of "min (fst ne) (hi - lo)"] cut by simp
  qed
  have lt: "length (take k ?c) = k" using k(1) lc by simp
  have "pos + k \<le> length (d h)" using k(1) f(5) h(2) by linarith
  then have pw: "pwrite (d h) pos (take k ?c) = overlay (d h) (int pos) (take k ?c)" using lt by (intro pwrite_overlay) simp
  have im: "torrent_image d' fs = overlay (torrent_image d fs) (fd_offset f + int pos) (take k ?c)"
    using image_file_overlay [OF lay op f(1), of "int pos" "take k ?c"] k(1) f(5) lt
    unfolding k(2) pw h(1) by simp
  show "opened d' fs" using op unfolding k(2) pw by (auto simp: opened_def)
  have len: "int (length (torrent_image d fs)) = span_total fs" using image_length [OF op] .
  have val: "img d' fs a = (if fd_offset f + int pos \<le> a \<and> a < fd_offset f + int pos + int k
      then data ! (lo + nat (a - fd_offset f - int pos)) else img d fs a)" if "0 \<le> a" "a < span_total fs" for a
    using that len k(1) f(4) lt
    by (auto simp: img_def im nth_overlay slice_def nat_less_iff diff_diff_eq)
  show "0 \<le> a \<Longrightarrow> a < span_total fs \<Longrightarrow> img d' fs a = img d fs a \<or> cells fs [w] a (img d' fs a)"
  proof -
    assume a: "0 \<le> a" "a < span_total fs"
    show ?thesis
    proof (cases "fd_offset f + int pos \<le> a \<and> a < fd_offset f + int pos + int k")
      case True
      have "\<exists>i. lo + i < hi \<and> a = fd_offset f + int pos + int i \<and> img d' fs a = data ! (lo + i)"
        using True val [OF a] k(1) by (intro exI [of _ "nat (a - fd_offset f - int pos)"]) auto
      then show ?thesis using wd f(1,2) unfolding cells_def by auto
    next
      case False
      then show ?thesis using val [OF a] by metis
    qed
  qed
  show "img d' fs a = c" if r: "r = Inr ()" and c: "cells fs [w] a c"
  proof -
    obtain g i where g: "g \<in> set fs" "fd_file g = Some h" "lo + i < hi" "a = fd_offset g + int pos + int i" "c = data ! (lo + i)"
      using c wd unfolding cells_def by auto
    have "g = f" using same_handle [OF op g(1) f(1) g(2) f(2)] .
    moreover have "0 \<le> fd_offset f" using layout_from_lower [OF lay f(1)] .
    moreover have "fd_offset f + fd_length f \<le> span_total fs" using file_end [OF lay f(1)] by simp
    ultimately show ?thesis using val [of a] k(3) [OF r] g(3-5) f(5) by auto
  qed
qed

lemma plan_cells:
  assumes lay: "layout_from 0 fs" and op: "opened d fs" and pl: "plan_file_reads fs start n = Inr ps"
    and rng: "0 \<le> start" "start + int n \<le> span_total fs"
    and same: "\<forall>h pos lo hi i. (h, pos, lo, hi) \<in> set ps \<and> lo + i < hi \<longrightarrow> dat lo hi ! (off lo + i) = val (lo + i)"
    and wd: "\<forall>lo hi. to lo hi - off lo = hi - lo"
  shows "cells fs (map (\<lambda>(h, pos, lo, hi). (h, pos, dat lo hi, off lo, to lo hi)) ps) a c
    \<longleftrightarrow> (\<exists>i < n. a = start + int i \<and> c = val i)"
proof
  assume "cells fs (map (\<lambda>(h, pos, lo, hi). (h, pos, dat lo hi, off lo, to lo hi)) ps) a c"
  then obtain h pos lo hi f i where e: "(h, pos, lo, hi) \<in> set ps" "f \<in> set fs" "fd_file f = Some h"
    "off lo + i < to lo hi" "a = fd_offset f + int pos + int i" "c = dat lo hi ! (off lo + i)"
    unfolding cells_def by auto
  have i: "lo + i < hi" using e(4) wd [rule_format, of lo hi] by linarith
  obtain g where g: "g \<in> set fs" "fd_file g = Some h" "fd_offset g + int pos = start + int lo" "hi \<le> n"
    using plan_entry [OF lay pl e(1)] by metis
  have "g = f" using same_handle [OF op g(1) e(2) g(2) e(3)] .
  then have "a = start + int (lo + i)" using g(3) e(5) by simp
  moreover have "c = val (lo + i)" using same e(1,6) i by blast
  ultimately show "\<exists>i < n. a = start + int i \<and> c = val i" using i g(4) by (intro exI [of _ "lo + i"]) simp
next
  assume "\<exists>i < n. a = start + int i \<and> c = val i"
  then obtain i where i: "i < n" "a = start + int i" "c = val i" by blast
  obtain h pos lo hi where e: "(h, pos, lo, hi) \<in> set ps" "lo \<le> i" "i < hi" using plan_covers [OF lay pl rng i(1)] .
  obtain g where g: "g \<in> set fs" "fd_file g = Some h" "fd_offset g + int pos = start + int lo"
    using plan_entry [OF lay pl e(1)] by metis
  have w: "(h, pos, dat lo hi, off lo, to lo hi) \<in> set (map (\<lambda>(h, pos, lo, hi). (h, pos, dat lo hi, off lo, to lo hi)) ps)"
    using e(1) by force
  have "off lo + (i - lo) < to lo hi" using e(2,3) wd [rule_format, of lo hi] by linarith
  moreover have "a = fd_offset g + int pos + int (i - lo)" using g(3) i(2) e(2) by simp
  moreover have "c = dat lo hi ! (off lo + (i - lo))" using same [rule_format, of h pos lo hi "i - lo"] e i(3) by simp
  ultimately show "cells fs (map (\<lambda>(h, pos, lo, hi). (h, pos, dat lo hi, off lo, to lo hi)) ps) a c"
    using w g(1,2) unfolding cells_def by blast
qed

lemma plan_spans_cells:
  assumes lay: "layout_from 0 fs" and op: "opened d fs" and b: "0 \<le> base" "base + int (length data) \<le> span_total fs"
  shows "plan_spans fs base data rs ws = Inr ws' \<Longrightarrow> \<forall>r\<in>set rs. in_slot data r \<Longrightarrow>
    (\<forall>a c. cells fs ws' a c \<longleftrightarrow> cells fs ws a c \<or> (\<exists>j. int j \<in> covered rs \<and> a = base + int j \<and> c = data ! j))
    \<and> ((\<forall>w\<in>set ws. write_ok fs w) \<longrightarrow> (\<forall>w\<in>set ws'. write_ok fs w))"
proof (induction rs arbitrary: ws)
  case (Cons r rs)
  obtain ps where ps: "plan_file_reads fs (base + rstart r) (nat (rend r - rstart r)) = Inr ps"
    using Cons.prems(1) by (auto split: sum.splits)
  let ?new = "map (\<lambda>(h, pos, lo, hi). (h, pos, data, nat (rstart r) + lo, nat (rstart r) + hi)) ps"
  have r: "0 \<le> rstart r" "rstart r \<le> rend r" "rend r \<le> int (length data)" using Cons.prems(2) by (auto simp: in_slot_def)
  have "cells fs ?new a c \<longleftrightarrow> (\<exists>i < nat (rend r - rstart r). a = base + rstart r + int i \<and> c = data ! (nat (rstart r) + i))" for a c
    using r b by (intro plan_cells [OF lay op ps]) (auto simp: add.assoc)
  moreover have "(\<exists>i < nat (rend r - rstart r). a = base + rstart r + int i \<and> c = data ! (nat (rstart r) + i))
      \<longleftrightarrow> (\<exists>j. int j \<in> span_set r \<and> a = base + int j \<and> c = data ! j)" for a c
  proof
    assume "\<exists>i < nat (rend r - rstart r). a = base + rstart r + int i \<and> c = data ! (nat (rstart r) + i)"
    then obtain i where "i < nat (rend r - rstart r)" "a = base + rstart r + int i" "c = data ! (nat (rstart r) + i)" by blast
    then show "\<exists>j. int j \<in> span_set r \<and> a = base + int j \<and> c = data ! j"
      using r by (intro exI [of _ "nat (rstart r) + i"]) (auto simp: span_set_def)
  next
    assume "\<exists>j. int j \<in> span_set r \<and> a = base + int j \<and> c = data ! j"
    then obtain o' where "int o' \<in> span_set r" "a = base + int o'" "c = data ! o'" by blast
    then show "\<exists>i < nat (rend r - rstart r). a = base + rstart r + int i \<and> c = data ! (nat (rstart r) + i)"
      using r by (intro exI [of _ "o' - nat (rstart r)"]) (auto simp: span_set_def)
  qed
  moreover have "\<forall>w\<in>set ?new. write_ok fs w"
  proof
    fix w assume "w \<in> set ?new"
    then obtain h pos lo hi where e: "(h, pos, lo, hi) \<in> set ps" "w = (h, pos, data, nat (rstart r) + lo, nat (rstart r) + hi)" by auto
    obtain f where "f \<in> set fs" "fd_file f = Some h" "lo \<le> hi" "hi \<le> nat (rend r - rstart r)" "int (pos + (hi - lo)) \<le> fd_length f"
      using plan_entry [OF lay ps e(1)] by metis
    then show "write_ok fs w" using e(2) r by (auto simp: write_ok_def intro!: bexI [of _ f])
  qed
  ultimately show ?case
    using Cons.IH [of "ws @ ?new"] Cons.prems ps by (auto simp: cells_append)
qed simp

end
