(* ===== verification/SlotView.thy ===== *)
theory SlotView
  imports WriteBack
begin

text \<open>
  What the storage threads rely on for one piece, apart from all other pieces. A view collects the fields
  of \<open>StorageInner\<close> that concern a piece; \<open>piece_ok\<close> relates it to the bytes received (\<open>g\<close>) and
  the bytes on disk (\<open>D\<close>), and a predicate per kind of thread says what an unlocked operation may count
  on when it takes the lock again. Each change the operations make to a view is shown to keep them.
\<close>

section \<open>Views\<close>

record slot_view =
  vc :: "bytes option"
  vd :: bool
  vs :: "byte_range list option"
  vn :: "byte_range list option"
  vp :: "byte_range list option"
  vf :: bool
  vr :: bool

definition slot :: "storage_inner \<Rightarrow> nat \<Rightarrow> slot_view" where
  "slot s p = \<lparr>vc = cache s p, vd = flag (cache_dirty s) p, vs = dirty_spans s p, vn = flush_new s p,
     vp = partial_slots s p, vf = (p \<in> flushing s), vr = (p \<in> flush_raced s)\<rparr>"

definition cov :: "byte_range list option \<Rightarrow> int set" where
  "cov m = (case m of None \<Rightarrow> {} | Some rs \<Rightarrow> covered rs)"

lemma cov_simps [simp]: "cov None = {}" "cov (Some rs) = covered rs"
  by (simp_all add: cov_def)

text \<open>The byte at offset \<open>j\<close> of the slot is a byte of the piece.\<close>

definition held :: "slot_view \<Rightarrow> nat \<Rightarrow> bool" where
  "held v j \<longleftrightarrow> vc v \<noteq> None \<and> (vp v = None \<or> int j \<in> cov (vp v))"

definition piece_ok :: "int \<Rightarrow> slot_view \<Rightarrow> (nat \<Rightarrow> u8 option) \<Rightarrow> (nat \<Rightarrow> u8) \<Rightarrow> bool" where
  "piece_ok n v g D \<longleftrightarrow>
     (\<forall>j b. g j = Some b \<longrightarrow> int j < n)
     \<and> (\<forall>j b. g j = Some b \<and> held v j \<longrightarrow> the (vc v) ! j = b)
     \<and> (\<forall>j b. g j = Some b \<and> int j \<notin> cov (vs v) \<longrightarrow> D j = b)
     \<and> (\<forall>j. int j \<in> cov (vs v) \<union> cov (vn v) \<longrightarrow> held v j \<and> g j \<noteq> None)
     \<and> (vd v \<longleftrightarrow> vs v \<noteq> None)
     \<and> (vn v \<noteq> None \<longrightarrow> vr v)
     \<and> (\<forall>data. vc v = Some data \<longrightarrow> int (length data) = n)
     \<and> (\<forall>rs. vs v = Some rs \<or> vn v = Some rs \<or> vp v = Some rs \<longrightarrow> spans_ok n rs)
     \<and> (vc v = None \<longrightarrow> vs v = None \<and> vn v = None)"

lemma piece_okD:
  assumes "piece_ok n v g D"
  shows "g j = Some b \<Longrightarrow> int j < n"
    and "g j = Some b \<Longrightarrow> held v j \<Longrightarrow> the (vc v) ! j = b"
    and "g j = Some b \<Longrightarrow> int j \<notin> cov (vs v) \<Longrightarrow> D j = b"
    and "int j \<in> cov (vs v) \<Longrightarrow> held v j \<and> g j \<noteq> None"
    and "int j \<in> cov (vn v) \<Longrightarrow> held v j \<and> g j \<noteq> None"
    and "vd v \<longleftrightarrow> vs v \<noteq> None"
    and "vn v \<noteq> None \<Longrightarrow> vr v"
    and "vc v = Some data \<Longrightarrow> int (length data) = n"
    and "vs v = Some rs \<Longrightarrow> spans_ok n rs"
    and "vn v = Some rs \<Longrightarrow> spans_ok n rs"
    and "vp v = Some rs \<Longrightarrow> spans_ok n rs"
    and "vc v = None \<Longrightarrow> vs v = None \<and> vn v = None"
  using assms unfolding piece_ok_def by blast+

text \<open>A flush under way. \<open>C\<close> are the bytes of its plan, \<open>T\<close> those not yet written.\<close>

definition gone :: "slot_view \<Rightarrow> (nat \<Rightarrow> u8 option) \<Rightarrow> bool" where
  "gone v g \<longleftrightarrow> vc v = None \<and> (\<forall>j. g j = None)"

definition flushing_ok :: "slot_view \<Rightarrow> (nat \<Rightarrow> u8 option) \<Rightarrow> (nat \<Rightarrow> u8)
    \<Rightarrow> (nat \<Rightarrow> u8 \<Rightarrow> bool) \<Rightarrow> (nat \<Rightarrow> u8 \<Rightarrow> bool) \<Rightarrow> bool \<Rightarrow> bool" where
  "flushing_ok v g D C T ok \<longleftrightarrow>
     vf v
     \<and> (gone v g
        \<or> (\<forall>j c. C j c \<longrightarrow> g j = Some c)
          \<and> (ok \<longrightarrow> (\<forall>j c. C j c \<longrightarrow> T j c \<or> D j = c))
          \<and> (\<forall>j. int j \<in> cov (vs v) \<longrightarrow> (\<exists>c. C j c) \<or> int j \<in> cov (vn v)))"

text \<open>A block that is written through.\<close>

definition through_ok :: "slot_view \<Rightarrow> (nat \<Rightarrow> u8 option) \<Rightarrow> (nat \<Rightarrow> u8)
    \<Rightarrow> (nat \<Rightarrow> u8 \<Rightarrow> bool) \<Rightarrow> (nat \<Rightarrow> u8 \<Rightarrow> bool) \<Rightarrow> bool \<Rightarrow> bool" where
  "through_ok v g D C T ok \<longleftrightarrow>
     vf v \<and> vc v = None \<and> (\<forall>j c. C j c \<longrightarrow> g j = None) \<and> (ok \<longrightarrow> (\<forall>j c. C j c \<longrightarrow> T j c \<or> D j = c))"

text \<open>A fill from disk: \<open>B\<close> is what has been read, \<open>P\<close> are the offsets still to be read.\<close>

definition filling_ok :: "slot_view \<Rightarrow> (nat \<Rightarrow> u8 option) \<Rightarrow> bytes \<Rightarrow> nat set \<Rightarrow> bool" where
  "filling_ok v g B P \<longleftrightarrow>
     (vc v \<noteq> None \<and> vp v \<noteq> None \<longrightarrow> (\<forall>j b. g j = Some b \<and> int j \<notin> cov (vp v) \<longrightarrow> j \<in> P \<or> B ! j = b))"

section \<open>Dropping a clean slot\<close>

definition dropped :: "slot_view \<Rightarrow> slot_view" where
  "dropped v = v\<lparr>vc := None, vd := False, vs := None, vn := None\<rparr>"

definition shed_view :: "slot_view \<Rightarrow> slot_view \<Rightarrow> bool" where
  "shed_view v w \<longleftrightarrow> w = v \<or> \<not> vf v \<and> \<not> vd v \<and> w = dropped v"

lemma shed_view_refl [simp]: "shed_view v v"
  by (simp add: shed_view_def)

lemma shed_view_trans: "shed_view u v \<Longrightarrow> shed_view v w \<Longrightarrow> shed_view u w"
  by (auto simp: shed_view_def dropped_def)

lemma piece_ok_shed:
  assumes "piece_ok n v g D" "shed_view v w"
  shows "piece_ok n w g D"
proof (cases "w = v")
  case False
  then have w: "\<not> vd v" "w = dropped v" using assms(2) by (auto simp: shed_view_def)
  then have "vs v = None" using piece_okD(6) [OF assms(1)] by simp
  then show ?thesis using assms(1) w by (simp add: piece_ok_def dropped_def held_def)
qed (use assms in simp)

lemma threads_shed:
  assumes "shed_view v w"
  shows "flushing_ok v g D C T ok \<Longrightarrow> flushing_ok w g D C T ok"
    and "through_ok v g D C T ok \<Longrightarrow> through_ok w g D C T ok"
    and "filling_ok v g B P \<Longrightarrow> filling_ok w g B P"
  using assms by (auto simp: shed_view_def dropped_def flushing_ok_def through_ok_def filling_ok_def)

section \<open>Making a slot and storing a block\<close>

definition new_slot :: "int \<Rightarrow> slot_view \<Rightarrow> slot_view" where
  "new_slot n v = v\<lparr>vc := Some (replicate (nat n) 0), vp := Some []\<rparr>"

definition merged :: "byte_range list option \<Rightarrow> int \<Rightarrow> bytes \<Rightarrow> byte_range list option" where
  "merged m off buf = Some (merge_received_range (case m of Some rs \<Rightarrow> rs | None \<Rightarrow> []) (received_range off buf))"

definition stored :: "int \<Rightarrow> int \<Rightarrow> bytes \<Rightarrow> bytes \<Rightarrow> slot_view \<Rightarrow> slot_view" where
  "stored n off buf data v =
     v\<lparr>vc := Some data, vd := True, vs := merged (vs v) off buf,
       vn := (if vf v then merged (vn v) off buf else vn v), vr := (vf v \<or> vr v),
       vp := (case vp v of
                None \<Rightarrow> None
              | Some rs \<Rightarrow> (let rs' = merge_received_range rs (received_range off buf) in if is_whole rs' n then None else Some rs'))\<rparr>"

definition learned :: "(nat \<Rightarrow> u8 option) \<Rightarrow> int \<Rightarrow> bytes \<Rightarrow> nat \<Rightarrow> u8 option" where
  "learned g off buf = (\<lambda>j. if off \<le> int j \<and> int j < off + int (length buf) then Some (buf ! nat (int j - off)) else g j)"

definition unknown :: "(nat \<Rightarrow> u8 option) \<Rightarrow> int \<Rightarrow> bytes \<Rightarrow> bool" where
  "unknown g off buf \<longleftrightarrow> (\<forall>j. off \<le> int j \<and> int j < off + int (length buf) \<longrightarrow> g j = None)"

lemma piece_ok_new:
  assumes "piece_ok n v g D" "vc v = None" "0 \<le> n"
  shows "piece_ok n (new_slot n v) g D"
  using assms piece_okD(12) [OF assms(1,2)] by (auto simp: piece_ok_def new_slot_def held_def)

lemma splice_nth:
  assumes "splice data off buf = Some data'"
  shows "length data' = length data"
    and "j < length data \<Longrightarrow> data' ! j = (if off \<le> int j \<and> int j < off + int (length buf) then buf ! nat (int j - off) else data ! j)"
proof -
  have b: "0 \<le> off" "off + int (length buf) \<le> int (length data)" "data' = take (nat off) data @ buf @ drop (nat off + length buf) data"
    using assms by (auto simp: splice_def split: if_splits)
  show l: "length data' = length data" using b by simp
  have "nat off \<le> length data" using b by linarith
  then show "data' ! j = (if off \<le> int j \<and> int j < off + int (length buf) then buf ! nat (int j - off) else data ! j)" if "j < length data"
    using that b by (auto simp: nth_append min_def nat_diff_distrib nat_less_iff)
qed

definition block_fits :: "int \<Rightarrow> int \<Rightarrow> bytes \<Rightarrow> bool" where
  "block_fits n off buf \<longleftrightarrow> 0 \<le> off \<and> buf \<noteq> [] \<and> off + int (length buf) \<le> n \<and> n \<le> 2 ^ 58"

lemma block_fitsD:
  assumes "block_fits n off buf"
  shows "0 \<le> off" "buf \<noteq> []" "off + int (length buf) \<le> n" "n \<le> 2 ^ 58"
  using assms by (simp_all add: block_fits_def)

lemma merged_ok:
  assumes fit: "block_fits n off buf" and ok: "\<forall>rs. m = Some rs \<longrightarrow> spans_ok n rs"
  shows "cov (merged m off buf) = cov m \<union> {off..<off + int (length buf)}"
    and "merged m off buf = Some rs \<Longrightarrow> spans_ok n rs"
proof -
  let ?rs = "case m of Some rs \<Rightarrow> rs | None \<Rightarrow> []"
  have "spans_ok n ?rs" using ok by (auto split: option.split)
  note k = merge_spans [OF this block_fitsD [OF fit]]
  have "covered ?rs = cov m" by (cases m) auto
  then show "cov (merged m off buf) = cov m \<union> {off..<off + int (length buf)}" using k(2) by (simp add: merged_def)
  show "merged m off buf = Some rs \<Longrightarrow> spans_ok n rs" using k(1) by (auto simp: merged_def)
qed

lemma vp_stored:
  assumes fit: "block_fits n off buf" and ok: "piece_ok n v g D"
  shows "vp (stored n off buf data v) = Some rs \<Longrightarrow> spans_ok n rs \<and> covered rs = cov (vp v) \<union> {off..<off + int (length buf)}"
    and "int j < n \<Longrightarrow> held (stored n off buf data v) j \<longleftrightarrow> vp v = None \<or> int j \<in> cov (vp v) \<union> {off..<off + int (length buf)}"
proof -
  have k: "spans_ok n (merge_received_range rs (received_range off buf))"
    "covered (merge_received_range rs (received_range off buf)) = covered rs \<union> {off..<off + int (length buf)}" if "vp v = Some rs" for rs
    using merge_spans [OF piece_okD(11) [OF ok that] block_fitsD [OF fit]] by auto
  show "vp (stored n off buf data v) = Some rs \<Longrightarrow> spans_ok n rs \<and> covered rs = cov (vp v) \<union> {off..<off + int (length buf)}"
    using k by (auto simp: stored_def Let_def split: option.splits if_splits)
  show "held (stored n off buf data v) j \<longleftrightarrow> vp v = None \<or> int j \<in> cov (vp v) \<union> {off..<off + int (length buf)}" if "int j < n"
  proof (cases "vp v")
    case None
    then show ?thesis by (simp add: held_def stored_def)
  next
    case (Some rs)
    let ?rs = "merge_received_range rs (received_range off buf)"
    show ?thesis
    proof (cases "is_whole ?rs n")
      case True
      then have "int j \<in> covered ?rs" using is_whole_covered [OF True] that by simp
      then show ?thesis using Some True k(2) [OF Some] by (simp add: held_def stored_def Let_def)
    next
      case False
      then show ?thesis using Some k(2) [OF Some] by (simp add: held_def stored_def Let_def)
    qed
  qed
qed

lemma piece_ok_stored:
  assumes fit: "block_fits n off buf" and ok: "piece_ok n v g D" and data: "vc v = Some data" and sp: "splice data off buf = Some data'" and u: "unknown g off buf"
  shows "piece_ok n (stored n off buf data' v) (learned g off buf) D"
proof -
  let ?v = "stored n off buf data' v" and ?R = "{off..<off + int (length buf)}"
  have vs: "cov (vs ?v) = cov (vs v) \<union> ?R" "vs ?v = Some rs \<Longrightarrow> spans_ok n rs" for rs
    using merged_ok [OF fit, of "vs v"] piece_okD(9) [OF ok] by (auto simp: stored_def)
  have vn: "cov (vn ?v) \<subseteq> cov (vn v) \<union> ?R" "vn ?v = Some rs \<Longrightarrow> spans_ok n rs" for rs
    using merged_ok [OF fit, of "vn v"] piece_okD(10) [OF ok] by (auto simp: stored_def split: if_splits)
  note bounds = block_fitsD [OF fit] and vp = vp_stored [OF fit ok]
  have len: "int (length data) = n" using piece_okD(8) [OF ok data] .
  note nth = splice_nth [OF sp]
  have held_old: "held v j \<Longrightarrow> int j < n \<Longrightarrow> held ?v j" for j using vp(2) [of j] data by (auto simp: held_def)
  have old: "learned g off buf j \<noteq> None" if "g j \<noteq> None" for j using that by (auto simp: learned_def)
  have new: "int j \<in> ?R \<Longrightarrow> int j < n \<and> held ?v j \<and> learned g off buf j \<noteq> None" for j
    using vp(2) [of j] bounds by (auto simp: learned_def)
  show ?thesis
    unfolding piece_ok_def
  proof (intro conjI allI impI)
    show "int j < n" if "learned g off buf j = Some b" for j b
      using that piece_okD(1) [OF ok] bounds by (auto simp: learned_def split: if_splits)
    show "the (vc ?v) ! j = b" if a: "learned g off buf j = Some b \<and> held ?v j" for j b
    proof (cases "int j \<in> ?R")
      case True
      then have "j < length data" using bounds len by auto
      then show ?thesis using True a nth(2) [of j] by (simp add: stored_def learned_def)
    next
      case False
      then have g: "g j = Some b" using a by (auto simp: learned_def split: if_splits)
      have j: "int j < n" using piece_okD(1) [OF ok g] .
      have "held v j" using a vp(2) [OF j] False data by (auto simp: held_def)
      then have "data ! j = b" using piece_okD(2) [OF ok g] data by simp
      then show ?thesis using False j len nth(2) [of j] by (auto simp: stored_def)
    qed
    show "D j = b" if "learned g off buf j = Some b \<and> int j \<notin> cov (vs ?v)" for j b
      using that piece_okD(3) [OF ok] unfolding vs(1) by (auto simp: learned_def split: if_splits)
    have both: "int j \<in> ?R \<or> held v j \<and> g j \<noteq> None" if "int j \<in> cov (vs ?v) \<union> cov (vn ?v)" for j
      using that vs(1) vn(1) piece_okD(4,5) [OF ok, of j] by blast
    show "held ?v j" if "int j \<in> cov (vs ?v) \<union> cov (vn ?v)" for j
      using both [OF that] piece_okD(1) [OF ok] held_old new by blast
    show "learned g off buf j \<noteq> None" if "int j \<in> cov (vs ?v) \<union> cov (vn ?v)" for j
      using both [OF that] old new by blast
    show "spans_ok n rs" if "vs ?v = Some rs \<or> vn ?v = Some rs \<or> vp ?v = Some rs" for rs using that vs(2) vn(2) vp(1) by blast
    show "int (length d) = n" if "vc ?v = Some d" for d using that nth(1) len by (simp add: stored_def)
  qed (use piece_okD(7) [OF ok] in \<open>auto simp: stored_def merged_def split: if_splits\<close>)
qed

lemma threads_stored:
  assumes fit: "block_fits n off buf" and ok: "piece_ok n v g D" and data: "vc v = Some data" and u: "unknown g off buf"
  shows "flushing_ok v g D C T b \<Longrightarrow> flushing_ok (stored n off buf data' v) (learned g off buf) D C T b"
    and "filling_ok v g B P \<Longrightarrow> filling_ok (stored n off buf data' v) (learned g off buf) B P"
proof -
  let ?v = "stored n off buf data' v" and ?R = "{off..<off + int (length buf)}"
  have g: "g j = Some c \<Longrightarrow> learned g off buf j = Some c" for j c using u by (auto simp: unknown_def learned_def)
  note bounds = block_fitsD [OF fit] and vp = vp_stored [OF fit ok]
  show "flushing_ok ?v (learned g off buf) D C T b" if f: "flushing_ok v g D C T b"
  proof -
    have vf: "vf v" and rest: "\<forall>j c. C j c \<longrightarrow> g j = Some c" "b \<longrightarrow> (\<forall>j c. C j c \<longrightarrow> T j c \<or> D j = c)"
      "\<forall>j. int j \<in> cov (vs v) \<longrightarrow> (\<exists>c. C j c) \<or> int j \<in> cov (vn v)"
      using f data by (auto simp: flushing_ok_def gone_def)
    have "cov (vs ?v) = cov (vs v) \<union> ?R" "cov (vn ?v) = cov (vn v) \<union> ?R"
      using merged_ok(1) [OF fit, of "vs v"] merged_ok(1) [OF fit, of "vn v"] piece_okD(9,10) [OF ok] vf by (auto simp: stored_def)
    then have "\<forall>j. int j \<in> cov (vs ?v) \<longrightarrow> (\<exists>c. C j c) \<or> int j \<in> cov (vn ?v)" using rest(3) by auto
    then show ?thesis using vf rest(1,2) g unfolding flushing_ok_def by (auto simp: stored_def)
  qed
  show "filling_ok ?v (learned g off buf) B P" if f: "filling_ok v g B P"
  proof (cases "vp ?v")
    case (Some rs)
    have c: "covered rs = cov (vp v) \<union> ?R" using vp(1) [OF Some] by simp
    have "vp v \<noteq> None" using Some by (auto simp: stored_def split: option.splits)
    then have "\<forall>j b. g j = Some b \<and> int j \<notin> cov (vp v) \<longrightarrow> j \<in> P \<or> B ! j = b" using f data by (auto simp: filling_ok_def)
    then show ?thesis using Some c unfolding filling_ok_def by (auto simp: learned_def split: if_splits)
  qed (simp add: filling_ok_def)
qed

section \<open>Flushing\<close>

definition begun :: "slot_view \<Rightarrow> slot_view" where
  "begun v = v\<lparr>vf := True, vr := False, vn := None\<rparr>"

text \<open>The bytes a flush plans to write: the dirty ones.\<close>

definition dirty_bytes :: "slot_view \<Rightarrow> nat \<Rightarrow> u8 \<Rightarrow> bool" where
  "dirty_bytes v j c \<longleftrightarrow> int j \<in> cov (vs v) \<and> c = the (vc v) ! j"

lemma dirty_bytes_got: "piece_ok n v g D \<Longrightarrow> dirty_bytes v j c \<Longrightarrow> g j = Some c"
  unfolding dirty_bytes_def using piece_okD(2,4) [of n v g D j] by fastforce

lemma begun_ok:
  assumes ok: "piece_ok n v g D"
  shows "piece_ok n (begun v) g D" and "flushing_ok (begun v) g D (dirty_bytes v) (dirty_bytes v) b"
    and "filling_ok v g B P \<Longrightarrow> filling_ok (begun v) g B P"
proof -
  show "piece_ok n (begun v) g D" using ok by (simp add: piece_ok_def begun_def held_def)
  show "flushing_ok (begun v) g D (dirty_bytes v) (dirty_bytes v) b"
    using dirty_bytes_got [OF ok] by (auto simp: flushing_ok_def begun_def dirty_bytes_def)
  show "filling_ok v g B P \<Longrightarrow> filling_ok (begun v) g B P" by (simp add: filling_ok_def begun_def)
qed

text \<open>A write, complete or not, changes the disk only to bytes of \<open>W\<close>.\<close>

definition hits :: "(nat \<Rightarrow> u8) \<Rightarrow> (nat \<Rightarrow> u8) \<Rightarrow> (nat \<Rightarrow> u8 \<Rightarrow> bool) \<Rightarrow> bool" where
  "hits D D' W \<longleftrightarrow> (\<forall>j. D' j = D j \<or> W j (D' j))"

lemma hits_got:
  assumes ok: "piece_ok n v g D" and h: "hits D D' W" and w: "\<forall>j c. W j c \<longrightarrow> g j = Some c \<or> g j = None"
  shows "piece_ok n v g D'"
proof -
  have "D' j = b" if "g j = Some b" "int j \<notin> cov (vs v)" for j b
    using h w that piece_okD(3) [OF ok that] unfolding hits_def by (metis option.distinct(1) option.inject)
  then show ?thesis using ok unfolding piece_ok_def by blast
qed

lemma flushing_writes:
  assumes f: "flushing_ok v g D C T True" and h: "hits D D' W"
    and w: "\<forall>j c. W j c \<longrightarrow> C j c" and t: "b \<longrightarrow> (\<forall>j c. T j c \<longrightarrow> W j c \<or> T' j c)"
    and ok: "b \<longrightarrow> (\<forall>j c. W j c \<longrightarrow> D' j = c)"
  shows "flushing_ok v g D' C T' b"
proof -
  have "D' j = c" if "C j c" "\<not> T' j c" "b" "\<forall>j c. C j c \<longrightarrow> g j = Some c" "\<forall>j c. C j c \<longrightarrow> T j c \<or> D j = c" for j c
  proof (cases "D' j = D j \<and> \<not> T j c")
    case True
    then show ?thesis using that by auto
  next
    case False
    then have "W j (D' j) \<or> W j c" using h t that unfolding hits_def by blast
    then have "g j = Some (D' j) \<or> D' j = c" using w that ok by blast
    then show ?thesis using that by fastforce
  qed
  then show ?thesis using f unfolding flushing_ok_def by blast
qed

lemma flushing_hits:
  assumes f: "flushing_ok v g D C T b" and h: "hits D D' W" and w: "\<forall>j c. W j c \<longrightarrow> g j = Some c"
  shows "flushing_ok v g D' C T b"
proof -
  have "D' j = c" if "g j = Some c" "D j = c" for j c
    using h w that unfolding hits_def by (metis option.inject)
  then show ?thesis using f unfolding flushing_ok_def by blast
qed

lemma flushing_got:
  "flushing_ok v g D C T b \<Longrightarrow> C j c \<Longrightarrow> g j = Some c \<or> g j = None"
  by (auto simp: flushing_ok_def gone_def)

text \<open>The end of a flush: what arrived meanwhile stays dirty, or the slot is clean; a failure changes nothing.\<close>

definition ended :: "slot_view \<Rightarrow> slot_view" where
  "ended v = v\<lparr>vf := False, vr := False, vn := None\<rparr>"

definition still_dirty :: "slot_view \<Rightarrow> slot_view" where
  "still_dirty v = (ended v)\<lparr>vs := vn v, vd := True\<rparr>"

definition cleaned :: "slot_view \<Rightarrow> slot_view" where
  "cleaned v = (ended v)\<lparr>vs := None, vd := False\<rparr>"

lemma ended_ok:
  assumes ok: "piece_ok n v g D"
  shows "piece_ok n (ended v) g D" and "filling_ok v g B P \<Longrightarrow> filling_ok (ended v) g B P"
    and "filling_ok v g B P \<Longrightarrow> filling_ok (still_dirty v) g B P" and "filling_ok v g B P \<Longrightarrow> filling_ok (cleaned v) g B P"
  using ok by (simp_all add: piece_ok_def ended_def held_def filling_ok_def still_dirty_def cleaned_def)

lemma flushed_on_disk:
  assumes ok: "piece_ok n v g D" and f: "flushing_ok v g D C (\<lambda>_ _. False) True" and g: "g j = Some b" and new: "int j \<notin> cov (vn v)"
  shows "D j = b"
proof (cases "int j \<in> cov (vs v)")
  case True
  have "\<not> gone v g" using g by (auto simp: gone_def)
  then have "\<exists>c. C j c" "\<forall>c. C j c \<longrightarrow> g j = Some c \<and> D j = c" using f True new unfolding flushing_ok_def by blast+
  then show ?thesis using g by auto
qed (use piece_okD(3) [OF ok g] in simp)

lemma still_dirty_ok:
  assumes ok: "piece_ok n v g D" and f: "flushing_ok v g D C (\<lambda>_ _. False) True" and vn: "vn v \<noteq> None"
  shows "piece_ok n (still_dirty v) g D"
  using ok flushed_on_disk [OF ok f] vn by (auto simp: piece_ok_def still_dirty_def ended_def held_def)

lemma cleaned_ok:
  assumes ok: "piece_ok n v g D" and f: "flushing_ok v g D C (\<lambda>_ _. False) True" and vn: "cov (vn v) = {}"
  shows "piece_ok n (cleaned v) g D" and "g j = Some b \<Longrightarrow> D j = b"
proof -
  show disk: "g j = Some b \<Longrightarrow> D j = b" for j b using flushed_on_disk [OF ok f, of j b] vn by simp
  show "piece_ok n (cleaned v) g D" using ok disk by (simp add: piece_ok_def cleaned_def ended_def held_def)
qed

text \<open>A flush under the lock writes dirty bytes; \<open>left\<close> stay dirty.\<close>

definition flushed_locked :: "byte_range list option \<Rightarrow> slot_view \<Rightarrow> slot_view" where
  "flushed_locked left v = v\<lparr>vs := left, vd := (left \<noteq> None)\<rparr>"

lemma locked_ok:
  assumes ok: "piece_ok n v g D" and h: "hits D D' (dirty_bytes v)"
    and sub: "cov left \<subseteq> cov (vs v)" and sp: "\<forall>rs. left = Some rs \<longrightarrow> spans_ok n rs \<and> vc v \<noteq> None"
    and wr: "\<forall>j. int j \<in> cov (vs v) - cov left \<longrightarrow> D' j = the (vc v) ! j"
  shows "piece_ok n (flushed_locked left v) g D'"
    and "flushing_ok v g D C T b \<Longrightarrow> flushing_ok (flushed_locked left v) g D' C T b"
    and "filling_ok v g B P \<Longrightarrow> filling_ok (flushed_locked left v) g B P"
proof -
  note got = dirty_bytes_got [OF ok]
  have ok': "piece_ok n v g D'" using hits_got [OF ok h] got by blast
  have disk: "D' j = b" if "g j = Some b" "int j \<notin> cov left" for j b
  proof (cases "int j \<in> cov (vs v)")
    case True
    then have "dirty_bytes v j (D' j)" using wr that by (simp add: dirty_bytes_def)
    then show ?thesis using got that by fastforce
  qed (use piece_okD(3) [OF ok'] that in simp)
  have "int j \<in> cov left \<Longrightarrow> held v j \<and> g j \<noteq> None" for j using piece_okD(4) [OF ok] sub by blast
  then show "piece_ok n (flushed_locked left v) g D'"
    using ok' disk sp unfolding piece_ok_def by (auto simp: flushed_locked_def held_def)
  show "flushing_ok (flushed_locked left v) g D' C T b" if "flushing_ok v g D C T b"
    using flushing_hits [OF that h] got sub unfolding flushing_ok_def gone_def by (simp add: flushed_locked_def) blast
  show "filling_ok v g B P \<Longrightarrow> filling_ok (flushed_locked left v) g B P" by (simp add: filling_ok_def flushed_locked_def)
qed

section \<open>Writing through, rejecting and filling\<close>

lemma through_starts:
  assumes "piece_ok n v g D" and "vc v = None" and "\<forall>j c. C j c \<longrightarrow> g j = None"
  shows "piece_ok n (v\<lparr>vf := True\<rparr>) g D" and "through_ok (v\<lparr>vf := True\<rparr>) g D C C b"
    and "filling_ok v g B P \<Longrightarrow> filling_ok (v\<lparr>vf := True\<rparr>) g B P"
  using assms by (auto simp: piece_ok_def through_ok_def filling_ok_def held_def)

lemma through_writes:
  assumes f: "through_ok v g D C T True" and h: "hits D D' W"
    and w: "\<forall>j c. W j c \<longrightarrow> C j c" and t: "b \<longrightarrow> (\<forall>j c. T j c \<longrightarrow> W j c \<or> T' j c)" and fn: "\<forall>j c c'. C j c \<longrightarrow> C j c' \<longrightarrow> c = c'"
    and ok: "b \<longrightarrow> (\<forall>j c. W j c \<longrightarrow> D' j = c)"
  shows "through_ok v g D' C T' b"
proof -
  have "D' j = c" if "C j c" "\<not> T' j c" "b" "\<forall>j c. C j c \<longrightarrow> T j c \<or> D j = c" for j c
    using h w t fn ok that unfolding hits_def by metis
  then show ?thesis using f unfolding through_ok_def by blast
qed

lemma through_ends:
  assumes "piece_ok n v g D" and f: "through_ok v g D C T b"
  shows "piece_ok n (v\<lparr>vf := False\<rparr>) g D" and "filling_ok v g B P \<Longrightarrow> filling_ok (v\<lparr>vf := False\<rparr>) g B P"
  using assms by (auto simp: piece_ok_def filling_ok_def held_def)

lemma through_learned:
  assumes ok: "piece_ok n v g D" and vc: "vc v = None" and fit: "block_fits n off buf"
    and disk: "\<forall>j. off \<le> int j \<and> int j < off + int (length buf) \<longrightarrow> D j = buf ! nat (int j - off)"
  shows "piece_ok n v (learned g off buf) D" and "filling_ok v (learned g off buf) B P"
proof -
  have "int j < n" if "learned g off buf j = Some b" for j b
    using that piece_okD(1) [OF ok] block_fitsD [OF fit] by (auto simp: learned_def split: if_splits)
  moreover have "D j = b" if "learned g off buf j = Some b" for j b
    using that piece_okD(3,12) [OF ok] disk vc by (auto simp: learned_def split: if_splits)
  ultimately show "piece_ok n v (learned g off buf) D"
    using ok vc piece_okD(12) [OF ok vc] by (simp add: piece_ok_def held_def)
  show "filling_ok v (learned g off buf) B P" using vc by (simp add: filling_ok_def)
qed

lemma rejected_ok:
  assumes ok: "piece_ok n v g D"
  shows "piece_ok n (dropped v) (\<lambda>_. None) D" and "flushing_ok v g D C T b \<Longrightarrow> flushing_ok (dropped v) (\<lambda>_. None) D C T b"
    and "through_ok v g D C T b \<Longrightarrow> through_ok (dropped v) (\<lambda>_. None) D C T b" and "filling_ok (dropped v) g' B P"
  using ok by (auto simp: piece_ok_def dropped_def held_def flushing_ok_def gone_def through_ok_def filling_ok_def)

lemma fill_read:
  assumes ok: "piece_ok n v g D" and f: "filling_ok v g B P" and len: "\<forall>data. vc v = Some data \<longrightarrow> length B = length data"
    and rd: "\<forall>j. j < length B \<longrightarrow> B' ! j = (if j \<in> R then D j else B ! j)" and P: "P \<subseteq> R \<union> P'"
  shows "filling_ok v g B' P'"
  unfolding filling_ok_def
proof (intro impI allI)
  fix j b assume v: "vc v \<noteq> None \<and> vp v \<noteq> None" and g: "g j = Some b \<and> int j \<notin> cov (vp v)"
  obtain data where data: "vc v = Some data" using v by blast
  have "\<not> held v j" using v g by (auto simp: held_def)
  then have D: "D j = b" using piece_okD(3,4) [OF ok] g by blast
  have "j < length B" using piece_okD(1) [OF ok] piece_okD(8) [OF ok data] g len data by fastforce
  then show "j \<in> P' \<or> B' ! j = b" using f v g rd P D unfolding filling_ok_def by auto
qed

lemma filled_ok:
  assumes ok: "piece_ok n v g D" and f: "filling_ok v g B {}" and v: "vc v = Some data" "vp v \<noteq> None"
    and d': "length data' = length data" "\<forall>j < length data. data' ! j = (if int j \<in> cov (vp v) then data ! j else B ! j)"
  shows "piece_ok n (v\<lparr>vc := Some data', vp := None\<rparr>) g D"
    and "flushing_ok v g D C T b \<Longrightarrow> flushing_ok (v\<lparr>vc := Some data', vp := None\<rparr>) g D C T b"
    and "filling_ok (v\<lparr>vc := Some data', vp := None\<rparr>) g B' P"
proof -
  have "data' ! j = b" if g: "g j = Some b" for j b
  proof -
    have "j < length data" using piece_okD(1,8) [OF ok] g v(1) by auto
    then show ?thesis using d'(2) f g v piece_okD(2) [OF ok g] unfolding filling_ok_def by (auto simp: held_def)
  qed
  then show "piece_ok n (v\<lparr>vc := Some data', vp := None\<rparr>) g D" using ok v d'(1) by (auto simp: piece_ok_def held_def)
  show "flushing_ok v g D C T b \<Longrightarrow> flushing_ok (v\<lparr>vc := Some data', vp := None\<rparr>) g D C T b"
    using v by (simp add: flushing_ok_def gone_def)
  show "filling_ok (v\<lparr>vc := Some data', vp := None\<rparr>) g B' P" by (simp add: filling_ok_def)
qed

end
