(* ===== verification/WriteBackViews.thy ===== *)
theory WriteBackViews
  imports SlotView
begin

text \<open>
  The operations of theory \<open>WriteBack\<close>, read as changes of the views of theory \<open>SlotView\<close>: which
  views an operation changes and how, that it keeps the accounting of the cache, and which bytes of which
  piece a planned or locked write can reach on disk.
\<close>

section \<open>What stays fixed\<close>

definition fixed :: "storage_inner \<Rightarrow> storage_inner \<Rightarrow> bool" where
  "fixed s t \<longleftrightarrow> sfiles t = sfiles s \<and> chunk_length t = chunk_length s \<and> files_gen t = files_gen s
     \<and> attached t = attached s \<and> streaming t = streaming s \<and> closed t = closed s"

lemma fixed_refl [simp]: "fixed s s"
  by (simp add: fixed_def)

lemma fixed_trans: "fixed s t \<Longrightarrow> fixed t u \<Longrightarrow> fixed s u"
  by (simp add: fixed_def)

section \<open>Dropping clean slots\<close>

definition shed :: "storage_inner \<Rightarrow> storage_inner \<Rightarrow> bool" where
  "shed s t \<longleftrightarrow> fixed s t \<and> (\<forall>p. shed_view (slot s p) (slot t p))"

lemma shed_refl [simp]: "shed s s"
  by (simp add: shed_def)

lemma shed_trans: "shed s t \<Longrightarrow> shed t u \<Longrightarrow> shed s u"
  unfolding shed_def using fixed_trans shed_view_trans by blast

lemma slot_without: "slot (without s i o' data) p = (if p = i then dropped (slot s p) else slot s p)"
  by (simp add: slot_def without_def dropped_def flag_def)

lemma fixed_without [simp]: "fixed s (without s i o' data)"
  by (simp add: fixed_def without_def)

lemma shed_without: "\<not> unsaved s i \<Longrightarrow> shed s (without s i o' data)"
  by (simp add: shed_def slot_without shed_view_def) (simp add: slot_def unsaved_def)

lemma evict_clean_shed:
  "evict_clean fuel s i e = Some (t, r) \<Longrightarrow> cache_inv s \<Longrightarrow> cache_inv t \<and> shed s t \<and> slot t i = slot s i"
proof (induction fuel arbitrary: s)
  case (0 s)
  then show ?case by (subst (asm) evict_clean.simps) (auto split: if_splits)
next
  case (Suc fuel s)
  note inv = Suc.prems(2)
  note scan = lru.scan_law [OF cache_inv_lru [OF inv]]
  let ?w = "case find (clean_victim s i True) (order (cache_order s)) of Some p \<Rightarrow> Some p
    | None \<Rightarrow> find (clean_victim s i False) (order (cache_order s))"
  show ?case
  proof (cases "cache_bytes s + e > max_cache_bytes s \<and> ?w \<noteq> None")
    case False
    have "t = s" using Suc.prems(1) False
      by (subst (asm) evict_clean.simps) (auto simp: scan split: if_splits option.splits bind_splits)
    then show ?thesis using inv by simp
  next
    case True
    then obtain p where w: "?w = Some p" by blast
    then obtain b where p: "?w = Some p" "p \<in> set (order (cache_order s))" "clean_victim s i b p"
      by (auto split: option.splits simp: find_Some_iff)
    note key = cache_inv_keyD [OF inv p(2)]
    obtain data where c: "cache s (as_usize p) = Some data" using key by auto
    obtain o' where d: "drop_cache_locked s (as_usize p) = Some (without s (as_usize p) o' data)" "cache_inv (without s (as_usize p) o' data)"
      using drop_cache_spec [OF inv c] by metis
    let ?s = "without s (as_usize p) o' data"
    have "evict_clean fuel ?s i e = Some (t, r)"
      using Suc.prems(1) True p(1) d(1) by (subst (asm) evict_clean.simps) (auto simp: scan split: option.splits)
    from Suc.IH [OF this d(2)] have t: "cache_inv t" "shed ?s t" "slot t i = slot ?s i" by auto
    have nv: "as_usize p \<noteq> i" "\<not> unsaved s (as_usize p)" using clean_victim_not_unsaved [OF p(3)] by auto
    then show ?thesis using t shed_trans [OF shed_without t(2)] by (auto simp: slot_without)
  qed
qed

lemma slot_untouched [simp]: "slot (s\<lparr>cache_order := ord\<rparr>) = slot s" "slot (s\<lparr>evicting := ev\<rparr>) = slot s"
    "slot (s\<lparr>flush_err := er\<rparr>) = slot s" "slot (s\<lparr>saved_partial := sp\<rparr>) = slot s"
  by (auto simp: slot_def fun_eq_iff)

lemma fixed_untouched [simp]: "fixed s (s\<lparr>cache_order := ord\<rparr>)" "fixed s (s\<lparr>evicting := ev\<rparr>)"
    "fixed s (s\<lparr>flush_err := er\<rparr>)" "fixed s (s\<lparr>saved_partial := sp\<rparr>)"
  by (simp_all add: fixed_def)

text \<open>The outcome of asking for a slot: clean slots are dropped; the slot of the piece is there, new or not, or is not.\<close>

lemma make_slot_view:
  assumes m: "make_slot s i n = Some (t, r)" and inv: "cache_inv s" and c: "cache s i = None" and i: "i < 2147483648" and n: "0 \<le> n"
  shows "cache_inv t \<and> fixed s t \<and> (\<forall>q. q \<noteq> i \<longrightarrow> shed_view (slot s q) (slot t q))
    \<and> slot t i = (if r = Inr (Ready True) then (slot s i)\<lparr>vc := Some (replicate (nat n) 0)\<rparr> else slot s i) \<and> r \<noteq> Inr (Ready False)"
proof -
  obtain t1 r1 where e: "evict_clean (loop_fuel s) s i n = Some (t1, r1)"
    using m by (auto simp: make_slot_def split: bind_splits)
  have t1: "cache_inv t1" "fixed s t1" "\<forall>q. shed_view (slot s q) (slot t1 q)" "slot t1 i = slot s i"
    using evict_clean_shed [OF e inv] by (auto simp: shed_def)
  have rd: "r1 \<noteq> Inr (Some (Ready b))" for b
  proof -
    have "length (order (cache_order s)) < loop_fuel s"
      using order_length [OF cache_inv_lru [OF inv]] by (simp add: loop_fuel_def)
    from evict_clean_spec [OF inv this, of i n] e show ?thesis by (auto simp: evict_post_def)
  qed
  show ?thesis
  proof (cases "r1 = Inr None")
    case True
    have ct: "cache t1 i = None" using t1(4) c by (simp add: slot_def)
    obtain o' where o': "insert_slot t1 i n = Some (t1\<lparr>cache := (cache t1)(i \<mapsto> replicate (nat n) 0),
        cache_bytes := cache_bytes t1 + n, cache_order := o'\<rparr>)"
      "cache_inv (t1\<lparr>cache := (cache t1)(i \<mapsto> replicate (nat n) 0), cache_bytes := cache_bytes t1 + n, cache_order := o'\<rparr>)"
      using insert_slot_spec [OF t1(1) ct i n] by metis
    let ?t = "t1\<lparr>cache := (cache t1)(i \<mapsto> replicate (nat n) 0), cache_bytes := cache_bytes t1 + n, cache_order := o'\<rparr>"
    have "t = ?t" "r = Inr (Ready True)" using m e True o'(1) by (simp_all add: make_slot_def)
    moreover have "slot ?t q = (if q = i then (slot t1 i)\<lparr>vc := Some (replicate (nat n) 0)\<rparr> else slot t1 q)" for q
      by (simp add: slot_def)
    moreover have "fixed s ?t" using t1(2) by (simp add: fixed_def)
    ultimately show ?thesis using o'(2) t1(3,4) by simp
  next
    case False
    then have "t = t1" "r \<noteq> Inr (Ready b)" for b
      using m e rd by (auto simp: make_slot_def split: sum.splits option.splits)
    then show ?thesis using t1 by simp
  qed
qed

lemma ensure_slot_view:
  assumes m: "ensure_cache_slot_locked s i n = Some (t, r)" and inv: "cache_inv s" and i: "i < 2147483648" and n: "0 \<le> n"
    and len: "\<forall>data. cache s i = Some data \<longrightarrow> int (length data) = n"
  shows "cache_inv t \<and> fixed s t \<and> (\<forall>q. q \<noteq> i \<longrightarrow> shed_view (slot s q) (slot t q))
    \<and> slot t i = (if r = Inr (Ready True) then (slot s i)\<lparr>vc := Some (replicate (nat n) 0)\<rparr> else slot s i)
    \<and> (r = Inr (Ready True) \<longrightarrow> cache s i = None) \<and> (r = Inr (Ready False) \<longrightarrow> cache s i \<noteq> None)"
proof (cases "cache s i")
  case None
  then have "make_slot s i n = Some (t, r)" using m by (simp add: ensure_cache_slot_cases)
  from make_slot_view [OF this inv None i n] show ?thesis using None by auto
next
  case (Some data)
  then obtain o' where "touch (cache_order s) (as_i32 i) = Some o'" "cache_inv (s\<lparr>cache_order := o'\<rparr>)"
    using touch_keeps_inv [OF inv, of i] by auto
  then show ?thesis using m Some len by (auto simp: ensure_cache_slot_cases)
qed

section \<open>What the operations do to the views\<close>

lemma cache_inv_cong:
  assumes "cache t = cache s" "cache_order t = cache_order s" "cache_bytes t = cache_bytes s"
  shows "cache_inv t = cache_inv s"
proof -
  have "slot_size t = slot_size s" using assms by (simp add: slot_size_def fun_eq_iff)
  then show ?thesis using assms by (simp add: cache_inv_def)
qed

lemma cache_inv_untouched [simp]: "cache_inv (s\<lparr>evicting := ev\<rparr>) = cache_inv s"
    "cache_inv (s\<lparr>flush_err := er\<rparr>) = cache_inv s" "cache_inv (s\<lparr>saved_partial := sp\<rparr>) = cache_inv s"
  by (rule cache_inv_cong; simp)+

lemma cache_inv_data:
  assumes inv: "cache_inv s" and c: "cache s i = Some data" and l: "length data' = length data"
  shows "cache_inv (s\<lparr>cache := (cache s)(i \<mapsto> data')\<rparr>)"
proof -
  have "slot_size (s\<lparr>cache := (cache s)(i \<mapsto> data')\<rparr>) = slot_size s" using c l by (auto simp: slot_size_def fun_eq_iff)
  then show ?thesis using inv c by (auto simp: cache_inv_def)
qed

lemma store_block_view:
  assumes sb: "store_block s i n created off buf = Some s'" and inv: "cache_inv s" and c: "cache s i = Some data" and ns: "\<not> streaming s"
  obtains data' where "splice data off buf = Some data'" "cache_inv s'" "fixed s s'" "\<forall>q. q \<noteq> i \<longrightarrow> slot s' q = slot s q"
    "slot s' i = stored n off buf data' (if created then (slot s i)\<lparr>vp := Some []\<rparr> else slot s i)"
proof -
  let ?r = "received_range off buf"
  obtain data' where d: "splice data off buf = Some data'" using sb c ns
    by (cases created; cases "i \<in> flushing s"; cases "splice data off buf") (simp_all add: store_block_def Let_def)
  let ?pp = "if created then (partial_slots s)(i \<mapsto> []) else partial_slots s"
  let ?s1 = "s\<lparr>flush_raced := (if i \<in> flushing s then insert i (flush_raced s) else flush_raced s),
       flush_new := (if i \<in> flushing s then merge_into (flush_new s) i ?r else flush_new s),
       cache := (cache s)(i \<mapsto> data'),
       partial_slots := (case ?pp i of None \<Rightarrow> ?pp | Some w \<Rightarrow> ?pp(i := if is_whole (merge_received_range w ?r) n then None
         else Some (merge_received_range w ?r))),
       cache_dirty := (cache_dirty s)(i \<mapsto> True), dirty_spans := merge_into (dirty_spans s) i ?r\<rparr>"
  have "\<exists>ord. touch (cache_order s) (as_i32 i) = Some ord \<and> s' = ?s1\<lparr>cache_order := ord\<rparr>"
    using sb c ns d
    by (cases created; cases "i \<in> flushing s"; cases "partial_slots s i"; cases "touch (cache_order s) (as_i32 i)")
      (auto simp: store_block_def Let_def)
  then obtain ord where ord: "touch (cache_order s) (as_i32 i) = Some ord" "s' = ?s1\<lparr>cache_order := ord\<rparr>" by blast
  have "cache_inv (s\<lparr>cache := (cache s)(i \<mapsto> data')\<rparr>)" using cache_inv_data [OF inv c splice_nth(1) [OF d]] .
  then have "cache_inv ?s1" by (rule iffD2 [OF cache_inv_cong, rotated 3]) simp_all
  then obtain o' where "touch (cache_order ?s1) (as_i32 i) = Some o'" "cache_inv (?s1\<lparr>cache_order := o'\<rparr>)"
    using touch_keeps_inv [of ?s1 i] by auto
  then have ci: "cache_inv s'" using ord by simp
  have "fixed s s'" unfolding ord(2) by (simp add: fixed_def)
  moreover have "\<forall>q. q \<noteq> i \<longrightarrow> slot s' q = slot s q"
    unfolding ord(2) by (auto simp: slot_def merge_into_def flag_def split: option.split)
  moreover have "slot s' i = stored n off buf data' (if created then (slot s i)\<lparr>vp := Some []\<rparr> else slot s i)"
    unfolding ord(2) by (auto simp: slot_def merge_into_def flag_def stored_def merged_def Let_def split: option.split)
  ultimately show ?thesis using that d ci by blast
qed

lemma begin_flush_plan:
  assumes b: "begin_flush s p = (s', Inr plan)"
  obtains data where "flag (cache_dirty s) p" "cache s p = Some data" "pf_gen plan = files_gen s"
    "\<forall>rs. dirty_spans s p = Some rs \<longrightarrow> plan_spans (sfiles s) (int p * chunk_length s) data rs [] = Inr (pf_writes plan)"
    "fixed s s'" "cache_inv s' = cache_inv s" "slot s' = (slot s)(p := begun (slot s p))"
proof -
  have pl: "plan_piece_flush_locked s p = Inr (Some plan)"
    and s': "s' = s\<lparr>flushing := insert p (flushing s), flush_raced := flush_raced s - {p}, flush_new := (flush_new s)(p := None)\<rparr>"
    using b by (auto simp: begin_flush_def split: if_splits sum.splits option.splits)
  obtain data where d: "flag (cache_dirty s) p" "cache s p = Some data" "pf_gen plan = files_gen s"
    "\<And>rs. dirty_spans s p = Some rs \<Longrightarrow> plan_spans (sfiles s) (int p * chunk_length s) data rs [] = Inr (pf_writes plan)"
    using pl by (auto simp: plan_piece_flush_locked_def Let_def split: if_splits sum.splits option.splits)
  have "slot s' = (slot s)(p := begun (slot s p))" unfolding s' by (auto simp: slot_def begun_def fun_eq_iff)
  moreover have "fixed s s'" "cache_inv s' = cache_inv s" unfolding s' by (simp add: fixed_def) (rule cache_inv_cong; simp)
  ultimately show ?thesis using that d by blast
qed

lemma begin_flush_nothing:
  assumes b: "begin_flush s p = (s', Inl r)"
  shows "fixed s s'" "cache_inv s' = cache_inv s" "slot s' = slot s" "r = Inr True \<Longrightarrow> \<not> flag (cache_dirty s) p \<or> cache s p = None"
proof -
  have c: "s' = s \<or> (\<exists>er. s' = s\<lparr>flush_err := er\<rparr>)" "r = Inr True \<Longrightarrow> plan_piece_flush_locked s p = Inr None"
    using b by (auto simp: begin_flush_def split: if_splits sum.splits option.splits)
  show "fixed s s'" "slot s' = slot s" using c(1) by auto
  show "cache_inv s' = cache_inv s" using c(1) by auto
  show "\<not> flag (cache_dirty s) p \<or> cache s p = None" if "r = Inr True"
    using c(2) [OF that] by (auto simp: plan_piece_flush_locked_def Let_def split: if_splits sum.splits option.splits)
qed

lemma mark_saved_partial_frame:
  "slot (mark_saved_partial_locked s p) = slot s" "fixed s (mark_saved_partial_locked s p)"
  "cache_inv (mark_saved_partial_locked s p) = cache_inv s"
  by (simp_all add: mark_saved_partial_locked_def)

definition end_state :: "storage_inner \<Rightarrow> nat \<Rightarrow> storage_inner \<Rightarrow> bool" where
  "end_state s p u \<longleftrightarrow> slot u = (slot s)(p := ended (slot s p)) \<and> fixed s u \<and> cache_inv u = cache_inv s \<and> cache u = cache s"

lemma end_state_start:
  "end_state s p (s\<lparr>flushing := flushing s - {p}, flush_raced := flush_raced s - {p}, flush_new := (flush_new s)(p := None)\<rparr>)"
  unfolding end_state_def by (intro conjI cache_inv_cong) (auto simp: slot_def ended_def fun_eq_iff fixed_def)

lemma end_state_mark:
  assumes "end_state s p u"
  shows "end_state s p (mark_saved_partial_locked u p)"
  unfolding end_state_def
proof (intro conjI)
  have u: "slot u = (slot s)(p := ended (slot s p))" "fixed s u" "cache_inv u = cache_inv s" "cache u = cache s"
    using assms by (auto simp only: end_state_def)
  note m = mark_saved_partial_frame [of u p]
  show "slot (mark_saved_partial_locked u p) = (slot s)(p := ended (slot s p))" unfolding m(1) by (rule u(1))
  show "fixed s (mark_saved_partial_locked u p)" using u(2) m(2) by (rule fixed_trans)
  show "cache_inv (mark_saved_partial_locked u p) = cache_inv s" unfolding m(3) by (rule u(3))
  show "cache (mark_saved_partial_locked u p) = cache s" using u(4) by (simp add: mark_saved_partial_locked_def)
qed

lemma finish_flush_forms:
  assumes f: "finish_flush s p plan w = (s', r)" and nc: "\<not> closed s" and gen: "pf_gen plan = files_gen s"
  obtains (err) e u where "w = Inl e" "end_state s p u" "s' = u\<lparr>flush_err := Some (error_text e)\<rparr>" "r = Inl e"
    | (new) u spans where "w = Inr ()" "flush_new s p = Some spans" "end_state s p u"
        "s' = u\<lparr>dirty_spans := (dirty_spans u)(p \<mapsto> spans), cache_dirty := (cache_dirty u)(p \<mapsto> True), flush_err := None\<rparr>" "r = Inr False"
    | (clean) u where "w = Inr ()" "flush_new s p = None \<or> flush_new s p = Some [] \<or> p \<notin> flush_raced s \<or> cache s p = None" "end_state s p u"
        "s' = u\<lparr>cache_dirty := (cache_dirty u)(p \<mapsto> False), dirty_spans := (dirty_spans u)(p := None), flush_err := None\<rparr>" "r = Inr True"
proof -
  let ?s = "s\<lparr>flushing := flushing s - {p}, flush_raced := flush_raced s - {p}, flush_new := (flush_new s)(p := None)\<rparr>"
  define u where "u = (if pf_writes plan \<noteq> [] then mark_saved_partial_locked ?s p else ?s)"
  have es: "end_state s p ?s" by (rule end_state_start)
  then have u: "end_state s p u" using end_state_mark by (simp add: u_def)
  then have cu: "cache u = cache s" by (simp add: end_state_def)
  show ?thesis
  proof (cases w)
    case (Inl e)
    then show ?thesis using err [OF _ es] f nc by (simp add: finish_flush_def Let_def)
  next
    case (Inr x)
    show ?thesis
    proof (cases "p \<in> flush_raced s \<and> flush_new s p \<noteq> None \<and> the (flush_new s p) \<noteq> [] \<and> cache s p \<noteq> None")
      case True
      then obtain spans where sp: "flush_new s p = Some spans" by blast
      have "cache u p \<noteq> None" using cu True by simp
      then have "finish_flush s p plan w
          = (u\<lparr>dirty_spans := (dirty_spans u)(p \<mapsto> spans), cache_dirty := (cache_dirty u)(p \<mapsto> True), flush_err := None\<rparr>, Inr False)"
        using nc gen Inr True sp by (simp add: finish_flush_def Let_def flip: u_def)
      then show ?thesis using new [OF _ sp u] f Inr by simp
    next
      case False
      then have dj: "flush_new s p = None \<or> flush_new s p = Some [] \<or> p \<notin> flush_raced s \<or> cache s p = None" by auto
      then have "finish_flush s p plan w
          = (u\<lparr>cache_dirty := (cache_dirty u)(p \<mapsto> False), dirty_spans := (dirty_spans u)(p := None), flush_err := None\<rparr>, Inr True)"
        using nc gen Inr cu [unfolded u_def] unfolding u_def by (elim disjE) (simp_all add: finish_flush_def Let_def)
      then show ?thesis using clean [OF _ dj u] f Inr by simp
    qed
  qed
qed

lemma flag_upd: "flag (m(p \<mapsto> b)) q = (if q = p then b else flag m q)"
  by (simp add: flag_def)

lemma slot_marks:
  "slot (u\<lparr>dirty_spans := ds, cache_dirty := cd, flush_err := er\<rparr>) q = (slot u q)\<lparr>vs := ds q, vd := flag cd q\<rparr>"
  "slot (u\<lparr>cache_dirty := cd, dirty_spans := ds, flush_err := er\<rparr>) q = (slot u q)\<lparr>vs := ds q, vd := flag cd q\<rparr>"
  by (simp_all add: slot_def)

lemma slot_self: "(slot u q)\<lparr>vs := dirty_spans u q, vd := flag (cache_dirty u) q\<rparr> = slot u q"
  by (simp add: slot_def)

lemma finish_flush_view:
  assumes f: "finish_flush s p plan w = (s', r)" and nc: "\<not> closed s" and gen: "pf_gen plan = files_gen s"
  shows "fixed s s' \<and> cache_inv s' = cache_inv s \<and> (\<forall>q. q \<noteq> p \<longrightarrow> slot s' q = slot s q)"
    and "w = Inl e \<Longrightarrow> slot s' p = ended (slot s p) \<and> r = Inl e"
    and "w = Inr () \<Longrightarrow> slot s' p = still_dirty (slot s p) \<and> vn (slot s p) \<noteq> None \<and> r = Inr False
       \<or> slot s' p = cleaned (slot s p) \<and> r = Inr True
         \<and> (vn (slot s p) = None \<or> vn (slot s p) = Some [] \<or> \<not> vr (slot s p) \<or> vc (slot s p) = None)"
proof -
  show "fixed s s' \<and> cache_inv s' = cache_inv s \<and> (\<forall>q. q \<noteq> p \<longrightarrow> slot s' q = slot s q)"
    using f nc gen
  proof (cases rule: finish_flush_forms)
    case (err e u)
    then show ?thesis by (simp add: end_state_def fixed_def)
  next
    case (new u spans)
    have "cache_inv s' = cache_inv u" unfolding new(4) by (rule cache_inv_cong) simp_all
    moreover have "slot s' q = slot u q" if "q \<noteq> p" for q using that unfolding new(4) slot_marks by (simp add: flag_upd slot_self)
    moreover have "fixed u s'" unfolding new(4) by (simp add: fixed_def)
    ultimately show ?thesis using new(3) fixed_trans [of s u s'] by (simp add: end_state_def)
  next
    case (clean u)
    have "cache_inv s' = cache_inv u" unfolding clean(4) by (rule cache_inv_cong) simp_all
    moreover have "slot s' q = slot u q" if "q \<noteq> p" for q using that unfolding clean(4) slot_marks by (simp add: flag_upd slot_self)
    moreover have "fixed u s'" unfolding clean(4) by (simp add: fixed_def)
    ultimately show ?thesis using clean(3) fixed_trans [of s u s'] by (simp add: end_state_def)
  qed
  show "slot s' p = ended (slot s p) \<and> r = Inl e" if "w = Inl e"
    using f nc gen
  proof (cases rule: finish_flush_forms)
    case (err e' u)
    then show ?thesis using that by (simp add: end_state_def)
  qed (use that in simp_all)
  show "slot s' p = still_dirty (slot s p) \<and> vn (slot s p) \<noteq> None \<and> r = Inr False
       \<or> slot s' p = cleaned (slot s p) \<and> r = Inr True
         \<and> (vn (slot s p) = None \<or> vn (slot s p) = Some [] \<or> \<not> vr (slot s p) \<or> vc (slot s p) = None)" if "w = Inr ()"
    using f nc gen
  proof (cases rule: finish_flush_forms)
    case (err e u)
    then show ?thesis using that by simp
  next
    case (new u spans)
    have "slot s' p = still_dirty (slot s p)" using new(2,3) unfolding new(4) slot_marks
      by (simp add: end_state_def flag_upd still_dirty_def) (simp add: slot_def)
    then show ?thesis using new(2,5) by (simp add: slot_def)
  next
    case (clean u)
    have "slot s' p = cleaned (slot s p)" using clean(3) unfolding clean(4) slot_marks
      by (simp add: end_state_def flag_upd cleaned_def)
    then show ?thesis using clean(2,5) by (simp add: slot_def)
  qed
qed

lemma drop_view:
  assumes d: "drop_cache_locked s p = Some s'" and inv: "cache_inv s"
  shows "cache_inv s'" "fixed s s'" "\<forall>q. q \<noteq> p \<longrightarrow> slot s' q = slot s q"
    "slot s' p = (if cache s p = None then slot s p else dropped (slot s p))"
proof -
  have "cache_inv s' \<and> fixed s s' \<and> (\<forall>q. q \<noteq> p \<longrightarrow> slot s' q = slot s q)
    \<and> slot s' p = (if cache s p = None then slot s p else dropped (slot s p))"
  proof (cases "cache s p")
    case None
    then show ?thesis using d inv by (simp add: drop_cache_locked_def)
  next
    case (Some data)
    obtain o' where "drop_cache_locked s p = Some (without s p o' data)" "cache_inv (without s p o' data)"
      using drop_cache_spec [OF inv Some] by metis
    then show ?thesis using d Some by (auto simp: slot_without)
  qed
  then show "cache_inv s'" "fixed s s'" "\<forall>q. q \<noteq> p \<longrightarrow> slot s' q = slot s q"
    "slot s' p = (if cache s p = None then slot s p else dropped (slot s p))" by blast+
qed

lemma evict_done_view:
  assumes e: "evict_done s v p flushed = Some (s', nx)" and inv: "cache_inv s"
  shows "cache_inv s' \<and> shed s s'"
proof -
  let ?clean = "\<not> isl flushed \<and> \<not> flag (cache_dirty s) v \<and> v \<notin> flushing s"
  consider (keep) "s' = s\<lparr>evicting := evicting s - {v}\<rparr>"
    | (drop) u where ?clean "drop_cache_locked s v = Some u" "s' = u\<lparr>evicting := evicting u - {v}\<rparr>"
    using e by (auto simp: evict_done_def Let_def split: if_splits bind_splits)
  then show ?thesis
  proof cases
    case keep
    then show ?thesis using inv by (simp add: shed_def)
  next
    case drop
    note u = drop_view [OF drop(2) inv]
    have "shed_view (slot s q) (slot u q)" for q
      using u(3,4) drop(1) by (cases "q = v") (auto simp: shed_view_def slot_def)
    then show ?thesis using u(1,2) fixed_trans [OF u(2), of s'] unfolding drop(3) by (simp add: shed_def)
  qed
qed

lemma through_begin_view:
  assumes b: "through_begin s p off buf = (s', Inr plan)"
  obtains ps where "plan_file_reads (sfiles s) (int p * chunk_length s + off) (length buf) = Inr ps"
    "pf_writes plan = map (\<lambda>(h, pos, lo, hi). (h, pos, slice lo hi buf, 0, hi - lo)) ps" "pf_gen plan = files_gen s"
    "fixed s s'" "cache_inv s' = cache_inv s" "slot s' = (slot s)(p := (slot s p)\<lparr>vf := True\<rparr>)"
proof -
  obtain ps where ps: "plan_file_reads (sfiles s) (int p * chunk_length s + off) (length buf) = Inr ps"
    "pf_writes plan = map (\<lambda>(h, pos, lo, hi). (h, pos, slice lo hi buf, 0, hi - lo)) ps" "pf_gen plan = files_gen s"
    "s' = s\<lparr>flushing := insert p (flushing s)\<rparr>"
    using b by (auto simp: through_begin_def through_plan_def split: if_splits sum.splits)
  have "fixed s s'" "slot s' = (slot s)(p := (slot s p)\<lparr>vf := True\<rparr>)"
    unfolding ps(4) by (auto simp: fixed_def slot_def fun_eq_iff)
  moreover have "cache_inv s' = cache_inv s" unfolding ps(4) by (rule cache_inv_cong) simp_all
  ultimately show ?thesis using that ps(1-3) by blast
qed

lemma release_view:
  "fixed s (release_flush s p)" "cache_inv (release_flush s p) = cache_inv s"
  "slot (release_flush s p) = (slot s)(p := (slot s p)\<lparr>vf := False\<rparr>)"
  unfolding release_flush_def by (simp add: fixed_def, rule cache_inv_cong, simp_all, auto simp: slot_def fun_eq_iff)

lemma through_finish_view:
  assumes f: "through_finish s p buf plan w = (s', Some r)" and nc: "\<not> closed s"
  shows "fixed s s' \<and> cache_inv s' = cache_inv s \<and> slot s' = (slot s)(p := (slot s p)\<lparr>vf := False\<rparr>)"
    and "isl r = isl w"
proof -
  have "(s' = release_flush s p \<or> s' = release_flush (mark_saved_partial_locked s p) p) \<and> isl r = isl w"
    using f nc by (auto simp: through_finish_def split: if_splits sum.splits)
  then show "fixed s s' \<and> cache_inv s' = cache_inv s \<and> slot s' = (slot s)(p := (slot s p)\<lparr>vf := False\<rparr>)" "isl r = isl w"
    using release_view [of s p] release_view [of "mark_saved_partial_locked s p" p] mark_saved_partial_frame [of s p]
      fixed_trans [of s "mark_saved_partial_locked s p"] by auto
qed

text \<open>The completion marks concern no slot.\<close>

lemma schedule_frame:
  "slot (schedule_checkpoint_flush_locked b s) = slot s" "fixed s (schedule_checkpoint_flush_locked b s)"
  "cache_inv (schedule_checkpoint_flush_locked b s) = cache_inv s"
proof -
  have k: "slot (s\<lparr>checkpoint_flush_scheduled := b\<rparr>) = slot s" "fixed s (s\<lparr>checkpoint_flush_scheduled := b\<rparr>)" for s :: storage_inner
    by (simp_all add: slot_def fixed_def fun_eq_iff)
  have "cache_inv (s\<lparr>checkpoint_flush_scheduled := b\<rparr>) = cache_inv s" for s :: storage_inner by (rule cache_inv_cong) simp_all
  with k show "slot (schedule_checkpoint_flush_locked b s) = slot s" "fixed s (schedule_checkpoint_flush_locked b s)"
    "cache_inv (schedule_checkpoint_flush_locked b s) = cache_inv s"
    by (simp_all add: schedule_checkpoint_flush_locked_def)
qed

lemma bump_frame:
  "slot (bump_checkpoint s) = slot s" "fixed s (bump_checkpoint s)" "cache_inv (bump_checkpoint s) = cache_inv s"
proof -
  show "slot (bump_checkpoint s) = slot s" "fixed s (bump_checkpoint s)"
    by (simp_all add: bump_checkpoint_def slot_def fixed_def fun_eq_iff)
  show "cache_inv (bump_checkpoint s) = cache_inv s" unfolding bump_checkpoint_def by (rule cache_inv_cong) simp_all
qed

lemma checkpoint_marks:
  "slot (schedule_checkpoint_flush_locked b (bump_checkpoint s)) = slot s"
  "fixed s (schedule_checkpoint_flush_locked b (bump_checkpoint s))"
  "cache_inv (schedule_checkpoint_flush_locked b (bump_checkpoint s)) = cache_inv s"
  by (simp_all add: schedule_frame bump_frame fixed_trans [OF bump_frame(2) schedule_frame(2)])

lemma complete_frame:
  "slot (complete_piece b s p) = slot s" "fixed s (complete_piece b s p)" "cache_inv (complete_piece b s p) = cache_inv s"
proof -
  define u where "u = note_piece_files_need_sync_locked
    (s\<lparr>completed := (completed s)(p \<mapsto> True), saved_partial := (saved_partial s)(p := None)\<rparr>) p"
  have c: "complete_piece b s p = schedule_checkpoint_flush_locked b (bump_checkpoint u)"
    by (simp add: complete_piece_def Let_def u_def)
  have u: "slot u = slot s" "fixed s u"
    by (simp_all add: u_def note_piece_files_need_sync_locked_def Let_def slot_def fixed_def fun_eq_iff)
  have i: "cache_inv u = cache_inv s"
    by (rule cache_inv_cong) (simp_all add: u_def note_piece_files_need_sync_locked_def Let_def)
  show "slot (complete_piece b s p) = slot s" unfolding c checkpoint_marks(1) by (rule u(1))
  show "fixed s (complete_piece b s p)" unfolding c using u(2) checkpoint_marks(2) by (rule fixed_trans)
  show "cache_inv (complete_piece b s p) = cache_inv s" unfolding c checkpoint_marks(3) by (rule i)
qed

lemma reject_view:
  assumes m: "mark_not_complete frozen b s p = Some s'" and inv: "cache_inv s"
    and go: "\<not> closed s" "attached s" "\<not> streaming s" "\<not> frozen" "\<not> flag (completed s) p"
  shows "cache_inv s' \<and> fixed s s' \<and> (\<forall>q. q \<noteq> p \<longrightarrow> slot s' q = slot s q)
    \<and> slot s' p = (if cache s p = None then slot s p else dropped (slot s p))"
proof -
  let ?s = "s\<lparr>completed := (completed s)(p := None)\<rparr>"
  obtain u where u: "drop_cache_locked ?s p = Some u" "s' = schedule_checkpoint_flush_locked b (bump_checkpoint u)"
    using m go by (auto simp: mark_not_complete_def Let_def split: bind_splits)
  have k: "cache_inv ?s" "slot ?s = slot s" "fixed s ?s" "cache ?s = cache s"
    using inv iffD2 [OF cache_inv_cong inv, of ?s] by (simp_all add: slot_def fixed_def fun_eq_iff)
  note d = drop_view [OF u(1) k(1)]
  show ?thesis
    using d k(2,4) fixed_trans [OF fixed_trans [OF k(3) d(2)] checkpoint_marks(2)] unfolding u(2) checkpoint_marks(1,3) by simp
qed

section \<open>The bytes of a piece on disk\<close>

definition geometry :: "(nat \<Rightarrow> int) \<Rightarrow> nat \<Rightarrow> storage_inner \<Rightarrow> disk \<Rightarrow> bool" where
  "geometry plen np s d \<longleftrightarrow>
     attached s \<and> \<not> streaming s \<and> \<not> closed s \<and> layout_from 0 (sfiles s) \<and> opened d (sfiles s)
     \<and> 0 < chunk_length s \<and> chunk_length s \<le> 2 ^ 58 \<and> np \<le> 2 ^ 31
     \<and> (\<forall>p < np. 0 \<le> plen p \<and> plen p \<le> chunk_length s \<and> int p * chunk_length s + plen p \<le> span_total (sfiles s))"

lemma geometryD:
  assumes "geometry plen np s d"
  shows "attached s" "\<not> streaming s" "\<not> closed s" "layout_from 0 (sfiles s)" "opened d (sfiles s)" "0 < chunk_length s"
    "p < np \<Longrightarrow> 0 \<le> plen p" "p < np \<Longrightarrow> plen p \<le> chunk_length s" "p < np \<Longrightarrow> plen p \<le> 2 ^ 58"
    "p < np \<Longrightarrow> int p * chunk_length s + plen p \<le> span_total (sfiles s)" "p < np \<Longrightarrow> p < 2147483648"
  using assms by (auto simp: geometry_def)

lemma geometry_fixed: "geometry plen np s d \<Longrightarrow> fixed s s' \<Longrightarrow> opened d' (sfiles s) \<Longrightarrow> geometry plen np s' d'"
  unfolding geometry_def fixed_def by simp

definition on_disk :: "disk \<Rightarrow> storage_inner \<Rightarrow> int \<Rightarrow> nat \<Rightarrow> nat \<Rightarrow> u8" where
  "on_disk d s n p j = (if int j < n then img d (sfiles s) (int p * chunk_length s + int j) else 0)"

definition pcells :: "storage_inner \<Rightarrow> nat \<Rightarrow> planned_write list \<Rightarrow> nat \<Rightarrow> u8 \<Rightarrow> bool" where
  "pcells s p ws j c = cells (sfiles s) ws (int p * chunk_length s + int j) c"

definition in_piece :: "storage_inner \<Rightarrow> int \<Rightarrow> nat \<Rightarrow> planned_write list \<Rightarrow> bool" where
  "in_piece s n p ws \<longleftrightarrow>
     (\<forall>w\<in>set ws. write_ok (sfiles s) w)
     \<and> (\<forall>a c. cells (sfiles s) ws a c \<longrightarrow> (\<exists>j. int j < n \<and> a = int p * chunk_length s + int j))"

lemma fixed_same:
  assumes "fixed s s'"
  shows "on_disk d s' = on_disk d s" "pcells s' = pcells s" "in_piece s' = in_piece s" "files_gen s' = files_gen s"
  using assms by (simp_all add: fixed_def on_disk_def pcells_def in_piece_def fun_eq_iff)

lemma piece_apart:
  fixes c :: int
  assumes "p \<noteq> q" "0 < c" "0 \<le> i" "i < c" "0 \<le> j" "j < c"
  shows "int p * c + i \<noteq> int q * c + j"
proof
  assume "int p * c + i = int q * c + j"
  then have "(int p * c + i) div c = (int q * c + j) div c" by simp
  then show False using assms by simp
qed

lemma in_piece_lt:
  assumes "in_piece s n p ws" "pcells s p ws j c"
  shows "int j < n"
  using assms by (auto simp: in_piece_def pcells_def)

lemma in_piece_subset: "in_piece s n p ws \<Longrightarrow> set xs \<subseteq> set ws \<Longrightarrow> in_piece s n p xs"
  unfolding in_piece_def using cells_mono by blast

text \<open>A change of the disk at bytes of one piece only.\<close>

lemma piece_io:
  assumes geo: "geometry plen np s d" and p: "p < np"
    and ch: "\<forall>a. 0 \<le> a \<and> a < span_total (sfiles s) \<longrightarrow> img d' (sfiles s) a = img d (sfiles s) a
      \<or> (\<exists>j. int j < plen p \<and> a = int p * chunk_length s + int j \<and> W j (img d' (sfiles s) a))"
  shows "hits (on_disk d s (plen p) p) (on_disk d' s (plen p) p) W"
    and "q < np \<Longrightarrow> q \<noteq> p \<Longrightarrow> on_disk d' s (plen q) q = on_disk d s (plen q) q"
proof -
  note g = geometryD [OF geo]
  have rng: "0 \<le> int q * chunk_length s + int j \<and> int q * chunk_length s + int j < span_total (sfiles s)" if "q < np" "int j < plen q" for q j
    using g(6) g(10) [OF that(1)] that(2) by auto
  show "hits (on_disk d s (plen p) p) (on_disk d' s (plen p) p) W"
    unfolding hits_def
  proof
    fix j
    show "on_disk d' s (plen p) p j = on_disk d s (plen p) p j \<or> W j (on_disk d' s (plen p) p j)"
    proof (cases "int j < plen p")
      case True
      then show ?thesis using ch rng [OF p True] by (auto simp: on_disk_def)
    qed (simp add: on_disk_def)
  qed
  show "on_disk d' s (plen q) q = on_disk d s (plen q) q" if q: "q < np" "q \<noteq> p"
  proof
    fix j
    show "on_disk d' s (plen q) q j = on_disk d s (plen q) q j"
    proof (cases "int j < plen q")
      case True
      have "int q * chunk_length s + int j \<noteq> int p * chunk_length s + int i" if "int i < plen p" for i
        using piece_apart [OF q(2) g(6), of "int j" "int i"] True that g(8) [OF q(1)] g(8) [OF p] by simp
      then show ?thesis using ch rng [OF q(1) True] True by (auto simp: on_disk_def)
    qed (simp add: on_disk_def)
  qed
qed

lemma write_view:
  assumes geo: "geometry plen np s d" and p: "p < np" and ip: "in_piece s (plen p) p [w]" and fw: "flush_write wo d [w] = (d', r)"
  shows "opened d' (sfiles s)" "hits (on_disk d s (plen p) p) (on_disk d' s (plen p) p) (pcells s p [w])"
    "q < np \<Longrightarrow> q \<noteq> p \<Longrightarrow> on_disk d' s (plen q) q = on_disk d s (plen q) q"
    "r = Inr () \<Longrightarrow> pcells s p [w] j c \<Longrightarrow> on_disk d' s (plen p) p j = c"
proof -
  note g = geometryD [OF geo]
  have ok: "write_ok (sfiles s) w" using ip by (simp add: in_piece_def)
  note io = io_write [OF g(4,5) ok fw]
  show "opened d' (sfiles s)" by (rule io(1))
  have ch: "\<forall>a. 0 \<le> a \<and> a < span_total (sfiles s) \<longrightarrow> img d' (sfiles s) a = img d (sfiles s) a
      \<or> (\<exists>j. int j < plen p \<and> a = int p * chunk_length s + int j \<and> pcells s p [w] j (img d' (sfiles s) a))"
    using io(2) ip unfolding in_piece_def pcells_def by metis
  show "hits (on_disk d s (plen p) p) (on_disk d' s (plen p) p) (pcells s p [w])" by (rule piece_io(1) [OF geo p ch])
  show "q < np \<Longrightarrow> q \<noteq> p \<Longrightarrow> on_disk d' s (plen q) q = on_disk d s (plen q) q" by (rule piece_io(2) [OF geo p ch])
  show "on_disk d' s (plen p) p j = c" if "r = Inr ()" "pcells s p [w] j c"
    using io(3) [OF that(1)] that(2) in_piece_lt [OF ip that(2)] by (simp add: on_disk_def pcells_def)
qed

section \<open>Plans and locked flushes\<close>

lemma spans_in_slot:
  assumes "spans_ok n rs" "int (length data) = n"
  shows "\<forall>r\<in>set rs. in_slot data r"
proof
  fix r assume r: "r \<in> set rs"
  then have v: "valid_range r" using assms(1) by (auto simp: spans_ok_def normalized_def)
  have "span_set r \<subseteq> covered rs" using r by (auto simp: covered_def)
  then have sub: "span_set r \<subseteq> {0..<n}" using assms(1) by (auto simp: spans_ok_def)
  have "rstart r \<in> {0..<n}" "rend r - 1 \<in> {0..<n}"
    by (rule subsetD [OF sub], use v in \<open>simp add: span_set_def valid_range_def\<close>)+
  then show "in_slot data r" using v assms(2) by (auto simp: in_slot_def valid_range_def)
qed

lemma flush_plan_view:
  assumes geo: "geometry plen np s d" and p: "p < np" and ok: "piece_ok (plen p) (slot s p) g D" and b: "begin_flush s p = (s', Inr plan)"
  shows "in_piece s (plen p) p (pf_writes plan)" "pcells s p (pf_writes plan) = dirty_bytes (slot s p)"
proof -
  note g = geometryD [OF geo]
  have "vs (slot s p) \<noteq> None" if "flag (cache_dirty s) p" using piece_okD(6) [OF ok] that by (simp add: slot_def)
  moreover obtain data where pl: "flag (cache_dirty s) p" "cache s p = Some data"
    "\<forall>rs. dirty_spans s p = Some rs \<longrightarrow> plan_spans (sfiles s) (int p * chunk_length s) data rs [] = Inr (pf_writes plan)"
    using begin_flush_plan [OF b] by blast
  ultimately obtain rs where d: "cache s p = Some data" "dirty_spans s p = Some rs"
    "plan_spans (sfiles s) (int p * chunk_length s) data rs [] = Inr (pf_writes plan)"
    by (auto simp: slot_def)
  have len: "int (length data) = plen p" using piece_okD(8) [OF ok] d(1) by (simp add: slot_def)
  have sp: "spans_ok (plen p) rs" using piece_okD(9) [OF ok] d(2) by (simp add: slot_def)
  have base: "0 \<le> int p * chunk_length s" "int p * chunk_length s + int (length data) \<le> span_total (sfiles s)"
    using g(6) g(10) [OF p] len by auto
  note cl = plan_spans_cells [OF g(4,5) base d(3) spans_in_slot [OF sp len]]
  have c: "cells (sfiles s) (pf_writes plan) a c \<longleftrightarrow> (\<exists>j. int j \<in> covered rs \<and> a = int p * chunk_length s + int j \<and> c = data ! j)" for a c
    using cl by simp
  have "int j < plen p" if "int j \<in> covered rs" for j using sp that by (auto simp: spans_ok_def)
  then show "in_piece s (plen p) p (pf_writes plan)" using cl c unfolding in_piece_def by auto
  show "pcells s p (pf_writes plan) = dirty_bytes (slot s p)"
    using d(1,2) by (auto simp: pcells_def dirty_bytes_def c slot_def fun_eq_iff)
qed

lemma through_plan_view:
  assumes geo: "geometry plen np s d" and p: "p < np" and fit: "block_fits (plen p) off buf" and b: "through_begin s p off buf = (s', Inr plan)"
  shows "in_piece s (plen p) p (pf_writes plan)"
    "pcells s p (pf_writes plan) j c \<longleftrightarrow> off \<le> int j \<and> int j < off + int (length buf) \<and> c = buf ! nat (int j - off)"
proof -
  note g = geometryD [OF geo] and f = block_fitsD [OF fit]
  obtain ps where ps: "plan_file_reads (sfiles s) (int p * chunk_length s + off) (length buf) = Inr ps"
    "pf_writes plan = map (\<lambda>(h, pos, lo, hi). (h, pos, slice lo hi buf, 0, hi - lo)) ps"
    using through_begin_view [OF b] by blast
  have e: "lo \<le> hi \<and> hi \<le> length buf \<and> write_ok (sfiles s) (h, pos, slice lo hi buf, 0, hi - lo)" if m: "(h, pos, lo, hi) \<in> set ps" for h pos lo hi
  proof -
    obtain fd where fd: "fd \<in> set (sfiles s)" "fd_file fd = Some h" "lo \<le> hi" "hi \<le> length buf" "int (pos + (hi - lo)) \<le> fd_length fd"
      using plan_entry [OF g(4) ps(1) m] by metis
    then have "write_ok (sfiles s) (h, pos, slice lo hi buf, 0, hi - lo)" by (auto simp: write_ok_def intro!: bexI [of _ fd])
    then show ?thesis using fd by blast
  qed
  have base: "0 \<le> int p * chunk_length s + off" "int p * chunk_length s + off + int (length buf) \<le> span_total (sfiles s)"
    using g(6) g(10) [OF p] f by auto
  have "slice lo hi buf ! (0 + i) = buf ! (lo + i)" if "(h, pos, lo, hi) \<in> set ps" "lo + i < hi" for h pos lo hi i
    using e [OF that(1)] that(2) by (simp add: slice_def)
  then have c: "cells (sfiles s) (pf_writes plan) a c \<longleftrightarrow> (\<exists>i < length buf. a = int p * chunk_length s + off + int i \<and> c = buf ! i)" for a c
    unfolding ps(2) by (intro plan_cells [OF g(4,5) ps(1) base, where off = "\<lambda>_. 0" and to = "\<lambda>lo hi. hi - lo"]) auto
  have "\<exists>j. int j < plen p \<and> a = int p * chunk_length s + int j" if h: "cells (sfiles s) (pf_writes plan) a c" for a c
  proof -
    obtain i where i: "i < length buf" "a = int p * chunk_length s + off + int i" using h unfolding c by blast
    then show ?thesis using f by (intro exI [of _ "nat off + i"]) auto
  qed
  then show "in_piece s (plen p) p (pf_writes plan)" using e unfolding in_piece_def ps(2) by auto
  show "pcells s p (pf_writes plan) j c \<longleftrightarrow> off \<le> int j \<and> int j < off + int (length buf) \<and> c = buf ! nat (int j - off)"
  proof
    assume "pcells s p (pf_writes plan) j c"
    then obtain i where "i < length buf" "int j = off + int i" "c = buf ! i" unfolding pcells_def c by auto
    then show "off \<le> int j \<and> int j < off + int (length buf) \<and> c = buf ! nat (int j - off)" by simp
  next
    assume "off \<le> int j \<and> int j < off + int (length buf) \<and> c = buf ! nat (int j - off)"
    then show "pcells s p (pf_writes plan) j c" unfolding pcells_def c by (intro exI [of _ "nat (int j - off)"]) auto
  qed
qed

text \<open>Writing spans of a slot one after the other changes only bytes of those spans.\<close>

definition spread :: "disk \<Rightarrow> disk \<Rightarrow> file_descriptor list \<Rightarrow> int \<Rightarrow> bytes \<Rightarrow> int set \<Rightarrow> bool" where
  "spread d d' fs base data R \<longleftrightarrow>
     (\<forall>a. 0 \<le> a \<and> a < span_total fs \<longrightarrow> img d' fs a = img d fs a
        \<or> (\<exists>j. int j \<in> R \<and> a = base + int j \<and> img d' fs a = data ! j))"

lemma spread_trans: "spread d e fs base data R \<Longrightarrow> spread e f fs base data R' \<Longrightarrow> spread d f fs base data (R \<union> R')"
  unfolding spread_def by (metis UnCI)

lemma spread_keeps:
  assumes "spread d d' fs base data R" "img d fs (base + int j) = data ! j" "0 \<le> base + int j" "base + int j < span_total fs"
  shows "img d' fs (base + int j) = data ! j"
  using assms unfolding spread_def by (metis add_left_cancel of_nat_eq_iff)

lemma write_span:
  assumes lay: "layout_from 0 fs" and op: "opened d fs" and r: "in_slot data r"
    and w: "write_to_files_locked wo d fs (base + rstart r) (slice (nat (rstart r)) (nat (rend r)) data) = (d', res)"
  shows "opened d' fs" "spread d d' fs base data (span_set r)"
    "res = Inr n \<Longrightarrow> int j \<in> span_set r \<Longrightarrow> 0 \<le> base + int j \<Longrightarrow> base + int j < span_total fs \<Longrightarrow> img d' fs (base + int j) = data ! j"
proof -
  let ?c = "slice (nat (rstart r)) (nat (rend r)) data"
  have b: "0 \<le> rstart r" "rstart r \<le> rend r" "rend r \<le> int (length data)" using r by (auto simp: in_slot_def)
  have lc: "int (length ?c) = rend r - rstart r" using b by simp
  note f = write_files_image [OF lay op w]
  show "opened d' fs" by (rule f(1))
  obtain k where k: "k \<le> length ?c" "torrent_image d' fs = overlay (torrent_image d fs) (base + rstart r) (take k ?c)"
    "case res of Inl e \<Rightarrow> True | Inr n \<Rightarrow> n = length ?c \<and> k = n \<and> (?c = [] \<or> 0 \<le> base + rstart r \<and> base + rstart r + int n \<le> span_total fs)"
    using f(2) by blast
  have kn: "k = length ?c" if "res = Inr n" for n using k(3) that by simp
  have len: "int (length (torrent_image d fs)) = span_total fs" using image_length [OF op] .
  have val: "img d' fs a = (if base + rstart r \<le> a \<and> a < base + rstart r + int k then data ! nat (a - base) else img d fs a)"
    if a: "0 \<le> a" "a < span_total fs" for a
  proof (cases "base + rstart r \<le> a \<and> a < base + rstart r + int k")
    case True
    have n: "nat (a - (base + rstart r)) < k" using True by (simp add: nat_less_iff)
    have "take k ?c ! nat (a - (base + rstart r)) = data ! (nat (rstart r) + nat (a - (base + rstart r)))"
      using n k(1) b by (simp add: slice_def)
    also have "nat (rstart r) + nat (a - (base + rstart r)) = nat (a - base)" using True b(1) by (simp flip: nat_add_distrib)
    finally show ?thesis using True a len k(1) by (simp add: img_def k(2) nth_overlay nat_less_iff)
  next
    case False
    then show ?thesis using a len k(1) by (auto simp: img_def k(2) nth_overlay nat_less_iff)
  qed
  show "spread d d' fs base data (span_set r)"
    unfolding spread_def
  proof (intro allI impI)
    fix a assume a: "0 \<le> a \<and> a < span_total fs"
    show "img d' fs a = img d fs a \<or> (\<exists>j. int j \<in> span_set r \<and> a = base + int j \<and> img d' fs a = data ! j)"
    proof (cases "base + rstart r \<le> a \<and> a < base + rstart r + int k")
      case True
      then show ?thesis using val [of a] a b k(1) lc
        by (intro disjI2 exI [of _ "nat (a - base)"]) (auto simp: span_set_def)
    next
      case False
      then show ?thesis using val [of a] a by auto
    qed
  qed
  show "img d' fs (base + int j) = data ! j" if "res = Inr n" "int j \<in> span_set r" "0 \<le> base + int j" "base + int j < span_total fs"
    using val [of "base + int j"] kn [OF that(1)] that lc by (auto simp: span_set_def)
qed

lemma flush_spans_spread:
  assumes lay: "layout_from 0 fs" and b: "0 \<le> base" "base + int (length data) \<le> span_total fs"
  shows "flush_spans wo d fs base data rs = Some (d', res) \<Longrightarrow> opened d fs \<Longrightarrow>
    opened d' fs \<and> spread d d' fs base data (covered rs)
    \<and> (\<exists>pre left. rs = pre @ left \<and> (\<forall>j. int j \<in> covered pre \<longrightarrow> img d' fs (base + int j) = data ! j)
         \<and> (case res of Inl (e, l) \<Rightarrow> l = left | Inr _ \<Rightarrow> left = []))"
proof (induction rs arbitrary: d)
  case Nil
  then show ?case by (auto simp: spread_def)
next
  case (Cons r rs)
  obtain d1 r1 where w: "write_to_files_locked wo d fs (base + rstart r) (slice (nat (rstart r)) (nat (rend r)) data) = (d1, r1)"
    by fastforce
  have ins: "in_slot data r" using Cons.prems(1) by (simp split: if_splits)
  note ws = write_span [OF lay Cons.prems(2) ins w]
  show ?case
  proof (cases r1)
    case (Inl e)
    then have "d' = d1" "res = Inl (e, r # rs)" using Cons.prems(1) w ins by simp_all
    then show ?thesis using ws(1,2) by (auto simp: spread_def intro!: exI [of _ "[]"])
  next
    case (Inr n)
    then have rest: "flush_spans wo d1 fs base data rs = Some (d', res)" using Cons.prems(1) w ins by simp
    obtain pre left where ih: "opened d' fs" "spread d1 d' fs base data (covered rs)" "rs = pre @ left"
      "\<forall>j. int j \<in> covered pre \<longrightarrow> img d' fs (base + int j) = data ! j" "case res of Inl (e, l) \<Rightarrow> l = left | Inr _ \<Rightarrow> left = []"
      using Cons.IH [OF rest ws(1)] by blast
    have "img d' fs (base + int j) = data ! j" if j: "int j \<in> span_set r" for j
    proof -
      have "0 \<le> base + int j" "base + int j < span_total fs" using j ins b by (auto simp: span_set_def in_slot_def)
      then show ?thesis using ws(3) [OF Inr j] spread_keeps [OF ih(2)] by blast
    qed
    then show ?thesis using spread_trans [OF ws(2) ih(2)] ih
      by (intro conjI exI [of _ "r # pre"] exI [of _ left]) auto
  qed
qed

lemma flush_locked_view:
  assumes geo: "geometry plen np s d" and p: "p < np" and ok: "piece_ok (plen p) (slot s p) g D" and inv: "cache_inv s"
    and f: "flush_piece_locked wo s d p = Some (s', d', r)"
  obtains left where "fixed s s'" "cache_inv s'" "opened d' (sfiles s)" "\<forall>q. q \<noteq> p \<longrightarrow> slot s' q = slot s q"
    "slot s' p = flushed_locked left (slot s p)" "cov left \<subseteq> cov (vs (slot s p))"
    "\<forall>rs. left = Some rs \<longrightarrow> spans_ok (plen p) rs \<and> vc (slot s p) \<noteq> None"
    "hits (on_disk d s (plen p) p) (on_disk d' s (plen p) p) (dirty_bytes (slot s p))"
    "\<forall>q < np. q \<noteq> p \<longrightarrow> on_disk d' s (plen q) q = on_disk d s (plen q) q"
    "\<forall>j. int j \<in> cov (vs (slot s p)) - cov left \<longrightarrow> on_disk d' s (plen p) p j = the (vc (slot s p)) ! j"
proof (cases "flag (cache_dirty s) p")
  case False
  then have e: "s' = s" "d' = d" using f by (simp_all add: flush_piece_locked_def)
  have "vs (slot s p) = None" "flushed_locked None (slot s p) = slot s p"
    using False piece_okD(6) [OF ok] by (simp_all add: slot_def flushed_locked_def)
  then show ?thesis using that [of None] inv geometryD(5) [OF geo] unfolding e by (simp add: hits_def)
next
  case True
  note g = geometryD [OF geo]
  obtain rs where rs: "dirty_spans s p = Some rs" using True piece_okD(6) [OF ok] by (auto simp: slot_def)
  obtain data where c: "cache s p = Some data" using rs piece_okD(12) [OF ok] by (cases "cache s p") (auto simp: slot_def)
  have len: "int (length data) = plen p" using piece_okD(8) [OF ok] c by (simp add: slot_def)
  have sp: "spans_ok (plen p) rs" using piece_okD(9) [OF ok] rs by (simp add: slot_def)
  have base: "0 \<le> int p * chunk_length s" "int p * chunk_length s + int (length data) \<le> span_total (sfiles s)"
    using g(6) g(10) [OF p] len by auto
  obtain res where fs: "flush_spans wo d (sfiles s) (int p * chunk_length s) data rs = Some (d', res)"
    and s': "s' = (case res of Inl (e, l) \<Rightarrow> s\<lparr>dirty_spans := (dirty_spans s)(p \<mapsto> l), flush_err := Some (error_text e)\<rparr>
      | Inr _ \<Rightarrow> (mark_saved_partial_locked (s\<lparr>dirty_spans := (dirty_spans s)(p := None), cache_dirty := (cache_dirty s)(p \<mapsto> False)\<rparr>) p)\<lparr>flush_err := None\<rparr>)"
    using f True c rs by (auto simp: flush_piece_locked_def Let_def split: option.splits prod.splits sum.splits)
  from flush_spans_spread [OF g(4) base fs g(5)] obtain pre left where
    sprd: "opened d' (sfiles s)" "spread d d' (sfiles s) (int p * chunk_length s) data (covered rs)" "rs = pre @ left"
      "\<forall>j. int j \<in> covered pre \<longrightarrow> img d' (sfiles s) (int p * chunk_length s + int j) = data ! j"
      "case res of Inl (e, l) \<Rightarrow> l = left | Inr _ \<Rightarrow> left = []" by blast
  have inn: "int j < plen p" if "int j \<in> covered rs" for j using sp that by (auto simp: spans_ok_def)
  have ch: "\<forall>a. 0 \<le> a \<and> a < span_total (sfiles s) \<longrightarrow> img d' (sfiles s) a = img d (sfiles s) a
      \<or> (\<exists>j. int j < plen p \<and> a = int p * chunk_length s + int j \<and> dirty_bytes (slot s p) j (img d' (sfiles s) a))"
    using sprd(2) inn rs c unfolding spread_def by (fastforce simp: dirty_bytes_def slot_def)
  let ?left = "case res of Inl _ \<Rightarrow> Some left | Inr _ \<Rightarrow> None"
  have cl: "cov ?left = covered left" using sprd(5) by (cases res) auto
  have "fixed s s' \<and> cache_inv s' \<and> (\<forall>q. q \<noteq> p \<longrightarrow> slot s' q = slot s q) \<and> slot s' p = flushed_locked ?left (slot s p)"
  proof (cases res)
    case (Inl el)
    then have e: "s' = s\<lparr>dirty_spans := (dirty_spans s)(p \<mapsto> left), flush_err := Some (error_text (fst el))\<rparr>"
      using s' sprd(5) by (auto split: prod.splits)
    have "cache_inv s'" using inv unfolding e by (rule iffD2 [OF cache_inv_cong, rotated 3]) simp_all
    then show ?thesis using True Inl unfolding e by (auto simp: fixed_def slot_def flushed_locked_def)
  next
    case (Inr x)
    let ?u = "s\<lparr>dirty_spans := (dirty_spans s)(p := None), cache_dirty := (cache_dirty s)(p \<mapsto> False)\<rparr>"
    have e: "s' = (mark_saved_partial_locked ?u p)\<lparr>flush_err := None\<rparr>" using s' Inr by simp
    have "cache_inv ?u" using inv by (rule iffD2 [OF cache_inv_cong, rotated 3]) simp_all
    then have "cache_inv s'" unfolding e by (simp add: mark_saved_partial_frame(3))
    moreover have "slot s' = slot ?u" unfolding e by (simp add: mark_saved_partial_frame(1))
    moreover have "fixed s s'" using mark_saved_partial_frame(2) [of ?u p] unfolding e by (simp add: fixed_def)
    ultimately show ?thesis using Inr by (auto simp: slot_def flushed_locked_def flag_def)
  qed
  moreover have "cov ?left \<subseteq> cov (vs (slot s p))" using cl sprd(3) rs by (simp add: slot_def)
  moreover have "\<forall>l. ?left = Some l \<longrightarrow> spans_ok (plen p) l \<and> vc (slot s p) \<noteq> None"
    using sp sprd(3) c by (auto simp: spans_ok_def normalized_append slot_def split: sum.splits)
  moreover have "\<forall>j. int j \<in> cov (vs (slot s p)) - cov ?left \<longrightarrow> on_disk d' s (plen p) p j = the (vc (slot s p)) ! j"
    using sprd(3,4) cl rs c inn by (auto simp: slot_def on_disk_def)
  ultimately show ?thesis using that [of ?left] sprd(1) piece_io [OF geo p ch] by blast
qed

section \<open>Filling a slot from disk\<close>

definition reads_ok :: "storage_inner \<Rightarrow> nat \<Rightarrow> nat \<Rightarrow> (nat \<times> nat \<times> nat \<times> nat) list \<Rightarrow> bool" where
  "reads_ok s p len rds \<longleftrightarrow>
     (\<forall>(h, pos, lo, hi)\<in>set rds. lo \<le> hi \<and> hi \<le> len
        \<and> (\<exists>f\<in>set (sfiles s). fd_file f = Some h \<and> fd_offset f + int pos = int p * chunk_length s + int lo
             \<and> int (pos + (hi - lo)) \<le> fd_length f))"

definition pending :: "(nat \<times> nat \<times> nat \<times> nat) list \<Rightarrow> nat set" where
  "pending rds = {j. \<exists>(h, pos, lo, hi)\<in>set rds. lo \<le> j \<and> j < hi}"

lemma reads_ok_fixed: "fixed s s' \<Longrightarrow> reads_ok s' = reads_ok s"
  by (simp add: fixed_def reads_ok_def fun_eq_iff)

lemma fill_begin_view:
  assumes geo: "geometry plen np s d" and p: "p < np" and b: "fill_begin s p = Inr (len, rds, gen)"
    and l: "\<And>data. cache s p = Some data \<Longrightarrow> int (length data) = plen p"
  shows "int len = plen p" "gen = files_gen s" "reads_ok s p len rds" "pending rds = {..<len}"
proof -
  note g = geometryD [OF geo]
  have b': "\<exists>data. cache s p = Some data \<and> length data = len" "gen = files_gen s"
    "plan_file_reads (sfiles s) (int p * chunk_length s) len = Inr rds"
    using b by (auto simp: fill_begin_def split: option.splits if_splits sum.splits)
  then show n: "int len = plen p" and "gen = files_gen s" using l by auto
  have base: "0 \<le> int p * chunk_length s" "int p * chunk_length s + int len \<le> span_total (sfiles s)" using g(6) g(10) [OF p] n by auto
  have e: "lo \<le> hi \<and> hi \<le> len \<and> (\<exists>f\<in>set (sfiles s). fd_file f = Some h \<and> fd_offset f + int pos = int p * chunk_length s + int lo
      \<and> int (pos + (hi - lo)) \<le> fd_length f)" if "(h, pos, lo, hi) \<in> set rds" for h pos lo hi
    using plan_entry [OF g(4) b'(3) that] by metis
  then show "reads_ok s p len rds" unfolding reads_ok_def by blast
  show "pending rds = {..<len}"
  proof (intro equalityI subsetI)
    fix j assume "j \<in> pending rds"
    then obtain h pos lo hi where "(h, pos, lo, hi) \<in> set rds" "lo \<le> j" "j < hi" by (auto simp: pending_def)
    then show "j \<in> {..<len}" using e by fastforce
  next
    fix j assume "j \<in> {..<len}"
    then have "j < len" by simp
    then obtain h pos lo hi where "(h, pos, lo, hi) \<in> set rds" "lo \<le> j" "j < hi" by (rule plan_covers [OF g(4) b'(3) base])
    then show "j \<in> pending rds" unfolding pending_def by blast
  qed
qed

lemma image_file_nth_from:
  assumes "layout_from b fs" "opened d fs" "f \<in> set fs" "int i < fd_length f"
  shows "torrent_image d fs ! nat (fd_offset f - b + int i) = d (handle f) ! i"
  using assms
proof (induction fs arbitrary: b)
  case (Cons g fs)
  have g: "fd_offset g = b" "layout_from (b + fd_length g) fs" "int (length (d (handle g))) = fd_length g" "opened d fs" "handle g \<notin> handle ` set fs"
    using Cons.prems by (auto simp: opened_Cons)
  show ?case
  proof (cases "f = g")
    case True
    then show ?thesis using g Cons.prems(4) by (simp add: nth_append)
  next
    case False
    then have f: "f \<in> set fs" using Cons.prems(3) by simp
    have lw: "b + fd_length g \<le> fd_offset f" using layout_from_lower [OF g(2) f] .
    have "nat (fd_offset f - b + int i) = length (d (handle g)) + nat (fd_offset f - (b + fd_length g) + int i)"
      using lw g(3) by linarith
    then show ?thesis using Cons.IH [OF g(2,4) f Cons.prems(4)] by (simp add: nth_append)
  qed
qed simp

lemmas image_file_nth = image_file_nth_from [of 0, simplified]

lemma read_view:
  assumes geo: "geometry plen np s d" and p: "p < np" and r: "reads_ok s p len ((h, pos, lo, hi) # rds)"
    and rd: "read_exact_at ro d h pos (hi - lo) = Inr bs" and len: "length buf = len" "int len = plen p"
  shows "length (pwrite buf lo bs) = len"
    "j < len \<Longrightarrow> pwrite buf lo bs ! j = (if j \<in> {lo..<hi} then on_disk d s (plen p) p j else buf ! j)"
proof -
  note g = geometryD [OF geo]
  obtain f where f: "lo \<le> hi" "hi \<le> len" "f \<in> set (sfiles s)" "fd_file f = Some h"
    "fd_offset f + int pos = int p * chunk_length s + int lo" "int (pos + (hi - lo)) \<le> fd_length f"
    using r by (auto simp: reads_ok_def)
  have h: "handle f = h" "int (length (d h)) = fd_length f" using g(5) f(3,4) by (auto simp: opened_def handle_def)
  have bs: "bs = slice pos (pos + (hi - lo)) (d h)" using rd by (auto simp: read_exact_at_def split: option.splits if_splits)
  have lb: "length bs = hi - lo" using bs f(6) h(2) by (simp add: slice_def)
  have pw: "pwrite buf lo bs = overlay buf (int lo) bs" using lb f(1,2) len by (intro pwrite_overlay) simp
  show "length (pwrite buf lo bs) = len" using len by (simp add: pw)
  have "bs ! i = img d (sfiles s) (int p * chunk_length s + int (lo + i))" if "i < hi - lo" for i
  proof -
    have "bs ! i = d h ! (pos + i)" using that bs f(6) h(2) by (simp add: slice_def)
    also have "\<dots> = img d (sfiles s) (fd_offset f + int (pos + i))" unfolding img_def h(1) [symmetric]
      using that f(6) by (intro image_file_nth [symmetric, OF g(4,5) f(3)]) linarith
    also have "fd_offset f + int (pos + i) = int p * chunk_length s + int (lo + i)" using f(5) by simp
    finally show ?thesis .
  qed
  then show "pwrite buf lo bs ! j = (if j \<in> {lo..<hi} then on_disk d s (plen p) p j else buf ! j)" if "j < len"
    using that len f(1,2) lb by (auto simp: pw nth_overlay on_disk_def nat_diff_distrib)
qed

lemma fill_gaps_nth:
  assumes "normalized rs" "\<forall>r\<in>set rs. int pos \<le> rstart r \<and> rend r \<le> int len" "length buf = len" "length dk = len" "pos \<le> len"
  shows "length (fill_gaps buf dk pos (map (\<lambda>r. (nat (rstart r), nat (rend r))) rs @ [(len, len)])) = len
    \<and> (\<forall>j < len. fill_gaps buf dk pos (map (\<lambda>r. (nat (rstart r), nat (rend r))) rs @ [(len, len)]) ! j
        = (if j < pos \<or> int j \<in> covered rs then buf ! j else dk ! j))"
  using assms
proof (induction rs arbitrary: buf pos)
  case Nil
  have "pwrite buf pos (slice pos len dk) = overlay buf (int pos) (slice pos len dk)"
    using Nil.prems by (intro pwrite_overlay) simp
  then show ?case using Nil.prems by (auto simp: nth_overlay slice_def nat_diff_distrib)
next
  case (Cons r rs)
  have v: "0 \<le> rstart r" "rstart r < rend r" "int pos \<le> rstart r" "rend r \<le> int len" and nr: "normalized rs"
    using Cons.prems(1,2) by (auto simp: normalized_Cons valid_range_def)
  let ?a = "nat (rstart r)" and ?e = "nat (rend r)"
  let ?buf = "if ?a > pos then pwrite buf pos (slice pos ?a dk) else buf"
  have pw: "pwrite buf pos (slice pos ?a dk) = overlay buf (int pos) (slice pos ?a dk)"
  proof (rule pwrite_overlay)
    have "length (slice pos ?a dk) \<le> ?a - pos" by (simp add: slice_def)
    then show "pos + length (slice pos ?a dk) \<le> length buf" using Cons.prems(3,5) v by linarith
  qed
  have lb: "length ?buf = len" using Cons.prems(3) by (simp add: pw)
  have ls: "length (slice pos ?a dk) = ?a - pos" using Cons.prems(4) v by (intro length_slice) linarith
  have ns: "slice pos ?a dk ! i = dk ! (pos + i)" if "i < ?a - pos" for i
    using that Cons.prems(4) v by (simp add: slice_def)
  have nb: "?buf ! j = (if pos \<le> j \<and> j < ?a then dk ! j else buf ! j)" if "j < len" for j
    using that Cons.prems(3) ns [of "j - pos"] by (auto simp: pw nth_overlay ls nat_diff_distrib)
  have mx: "max pos ?e = ?e" using v by linarith
  have after: "\<forall>x\<in>set rs. int ?e \<le> rstart x \<and> rend x \<le> int len"
    using Cons.prems(1,2) v by (force simp: normalized_def)
  have "fill_gaps buf dk pos (map (\<lambda>r. (nat (rstart r), nat (rend r))) (r # rs) @ [(len, len)])
      = fill_gaps ?buf dk ?e (map (\<lambda>r. (nat (rstart r), nat (rend r))) rs @ [(len, len)])"
    using mx by (simp add: Let_def)
  moreover note Cons.IH [OF nr after lb Cons.prems(4)]
  moreover have "?e \<le> len" using v by linarith
  moreover have "(if j < ?e \<or> int j \<in> covered rs then ?buf ! j else dk ! j)
      = (if j < pos \<or> int j \<in> covered (r # rs) then buf ! j else dk ! j)" if "j < len" for j
  proof -
    have "int j \<in> span_set r \<longleftrightarrow> ?a \<le> j \<and> j < ?e" using v by (auto simp: span_set_def)
    moreover have "int j \<in> covered rs \<Longrightarrow> ?e \<le> j" using after v by (fastforce simp: covered_def span_set_def)
    ultimately show ?thesis using nb [OF that] v by auto
  qed
  ultimately show ?case by simp
qed

lemma fill_finish_view:
  assumes f: "fill_finish s p len gen res = (s', r)" and geo: "geometry plen np s d" and inv: "cache_inv s"
    and ok: "piece_ok (plen p) (slot s p) g D" and res: "\<And>B. res = Inr B \<Longrightarrow> length B = len"
  shows "fixed s s' \<and> cache_inv s' \<and> (\<forall>q. q \<noteq> p \<longrightarrow> slot s' q = slot s q)"
    and "slot s' p = slot s p
      \<or> (\<exists>B data data'. res = Inr B \<and> vc (slot s p) = Some data \<and> vp (slot s p) \<noteq> None \<and> length data' = length data
           \<and> (\<forall>j < length data. data' ! j = (if int j \<in> cov (vp (slot s p)) then data ! j else B ! j))
           \<and> slot s' p = (slot s p)\<lparr>vc := Some data', vp := None\<rparr>)"
proof -
  have k: "fixed s s' \<and> cache_inv s' \<and> (\<forall>q. q \<noteq> p \<longrightarrow> slot s' q = slot s q)
    \<and> (slot s' p = slot s p
      \<or> (\<exists>B data data'. res = Inr B \<and> vc (slot s p) = Some data \<and> vp (slot s p) \<noteq> None \<and> length data' = length data
           \<and> (\<forall>j < length data. data' ! j = (if int j \<in> cov (vp (slot s p)) then data ! j else B ! j))
           \<and> slot s' p = (slot s p)\<lparr>vc := Some data', vp := None\<rparr>))"
  proof (cases "s' = s")
    case True
    then show ?thesis using inv by simp
  next
    case False
    obtain B kept data where e: "res = Inr B" "partial_slots s p = Some kept" "cache s p = Some data" "length data = len"
      and s': "s' = s\<lparr>cache := (cache s)(p \<mapsto> fill_gaps data B 0 (map (\<lambda>r. (nat (rstart r), nat (rend r))) kept @ [(len, len)])),
                  partial_slots := (partial_slots s)(p := None)\<rparr>"
      using f False by (auto simp: fill_finish_def split: if_splits sum.splits option.splits)
    let ?data = "fill_gaps data B 0 (map (\<lambda>r. (nat (rstart r), nat (rend r))) kept @ [(len, len)])"
    have sp: "spans_ok (plen p) kept" using piece_okD(11) [OF ok] e(2) by (simp add: slot_def)
    have n: "int len = plen p" using piece_okD(8) [OF ok] e(3,4) by (simp add: slot_def)
    have "\<forall>r\<in>set kept. int 0 \<le> rstart r \<and> rend r \<le> int len"
      using spans_in_slot [OF sp] e(4) n by (auto simp: in_slot_def)
    with fill_gaps_nth [of kept 0 len data B] sp e(4) res [OF e(1)]
    have d': "length ?data = length data" "\<forall>j < length data. ?data ! j = (if int j \<in> covered kept then data ! j else B ! j)"
      by (auto simp: spans_ok_def)
    have "cache_inv (s\<lparr>cache := (cache s)(p \<mapsto> ?data)\<rparr>)" using cache_inv_data [OF inv e(3) d'(1)] .
    then have "cache_inv s'" unfolding s' by (rule iffD2 [OF cache_inv_cong, rotated 3]) simp_all
    moreover have "fixed s s'" "\<forall>q. q \<noteq> p \<longrightarrow> slot s' q = slot s q" "slot s' p = (slot s p)\<lparr>vc := Some ?data, vp := None\<rparr>"
      unfolding s' by (simp_all add: fixed_def slot_def)
    ultimately show ?thesis using d' e by (auto simp: slot_def)
  qed
  then show "fixed s s' \<and> cache_inv s' \<and> (\<forall>q. q \<noteq> p \<longrightarrow> slot s' q = slot s q)" by blast
  from k show "slot s' p = slot s p
      \<or> (\<exists>B data data'. res = Inr B \<and> vc (slot s p) = Some data \<and> vp (slot s p) \<noteq> None \<and> length data' = length data
           \<and> (\<forall>j < length data. data' ! j = (if int j \<in> cov (vp (slot s p)) then data ! j else B ! j))
           \<and> slot s' p = (slot s p)\<lparr>vc := Some data', vp := None\<rparr>)" by blast
qed

section \<open>Reading a cached piece\<close>

lemma read_slot_view:
  assumes r: "read_slot s p expected n off = Some (s', nx)" and inv: "cache_inv s" and c: "cache s p = Some data"
  shows "cache_inv s'" "shed s s'"
    "nx = ReadDone (Inr (if off \<ge> int (length data) then [] else slice (nat off) (nat off + min (nat (int (length data) - off)) n) data))"
proof -
  obtain o' where o': "touch (cache_order s) (as_i32 p) = Some o'" "cache_inv (s\<lparr>cache_order := o'\<rparr>)"
    using touch_keeps_inv [OF inv, of p] c by auto
  then have s': "s' = s\<lparr>cache_order := o'\<rparr>" and "nx = ReadDone (Inr (if off \<ge> int (length data) then []
      else slice (nat off) (nat off + min (nat (int (length data) - off)) n) data))"
    using r c by (auto simp: read_slot_def)
  then show "cache_inv s'" "shed s s'"
    "nx = ReadDone (Inr (if off \<ge> int (length data) then [] else slice (nat off) (nat off + min (nat (int (length data) - off)) n) data))"
    using o'(2) by (auto simp: shed_def)
qed

end
