(* ===== verification/WriteBackSteps.thy ===== *)
theory WriteBackSteps
  imports WriteBackViews
begin

text \<open>
  The threads of the piece storage, interleaved (\<^verbatim>\<open>wt-storage/src/storage/write_back.rs\<close>,
  \<^verbatim>\<open>storage/piece.rs\<close>). A step is what a thread does while it holds the storage lock, or one system
  call made without it. Peers store blocks, pieces are flushed with and without the lock, victims are
  dropped, blocks are written through, failed pieces are thrown away and partial slots are filled from
  disk, in any order. The invariant says that every received byte is in RAM and marked for writing, or on
  disk; it is what makes eviction, completion and reading correct.
\<close>

section \<open>Steps\<close>

datatype pc =
    Idle
  | Flushing nat piece_flush "planned_write list" "storage_error option"
  | Through nat int bytes piece_flush "planned_write list" "storage_error option"
  | Filling nat nat "(nat \<times> nat \<times> nat \<times> nat) list" nat bytes nat

text \<open>
  \<open>got\<close> is the last byte stored at an offset of a piece since the piece was last thrown away; \<open>born\<close>
  counts the slots made for a piece. Both are ghosts: no operation looks at them.
\<close>

record wb_state =
  st :: storage_inner
  dk :: disk
  pcs :: "nat \<Rightarrow> pc"
  got :: "nat \<Rightarrow> nat \<Rightarrow> u8 option"
  born :: "nat \<Rightarrow> nat"

text \<open>
  \<open>unknown\<close> in a step: the block accounting hands out no block of which a byte is already stored. Two
  guards exclude the interleavings shown harmful in theory \<open>WriteBackRaces\<close>: \<open>fill_end\<close> requires that
  the slot is still the one the fill began with, and \<open>read_hit\<close> that the piece is still cached.
\<close>

definition outcome :: "storage_error option \<Rightarrow> storage_error + unit" where
  "outcome err = (case err of None \<Rightarrow> Inr () | Some e \<Rightarrow> Inl e)"

definition after_write :: "planned_write list \<Rightarrow> storage_error + unit \<Rightarrow> planned_write list \<times> storage_error option" where
  "after_write ws r = (case r of Inr _ \<Rightarrow> (ws, None) | Inl e \<Rightarrow> ([], Some e))"

inductive wb_step :: "(nat \<Rightarrow> int) \<Rightarrow> nat \<Rightarrow> wb_state \<Rightarrow> wb_state \<Rightarrow> bool" for plen np where
  receive:
  "p < np \<Longrightarrow> p \<notin> evicting (st x) \<Longrightarrow> \<not> (cache (st x) p = None \<and> p \<in> flushing (st x)) \<Longrightarrow>
   buf \<noteq> [] \<Longrightarrow> 0 \<le> off \<Longrightarrow> off + int (length buf) \<le> plen p \<Longrightarrow> unknown (got x p) off buf \<Longrightarrow>
   write_attempt (st x) attempts p (plen p) off buf = Some (s', nx) \<Longrightarrow>
   wb_step plen np x (x\<lparr>st := s',
     got := (case nx of Done (Inr _) \<Rightarrow> (got x)(p := learned (got x p) off buf) | _ \<Rightarrow> got x),
     born := (if cache (st x) p = None \<and> cache s' p \<noteq> None then (born x)(p := Suc (born x p)) else born x)\<rparr>)"
| flush_begin:
  "pcs x t = Idle \<Longrightarrow> p < np \<Longrightarrow> p \<notin> flushing (st x) \<Longrightarrow> begin_flush (st x) p = (s', Inr plan) \<Longrightarrow>
   wb_step plen np x (x\<lparr>st := s', pcs := (pcs x)(t := Flushing p plan (pf_writes plan) None)\<rparr>)"
| flush_nothing:
  "begin_flush (st x) p = (s', Inl r) \<Longrightarrow> wb_step plen np x (x\<lparr>st := s'\<rparr>)"
| flush_io:
  "pcs x t = Flushing p plan (w # ws) None \<Longrightarrow> flush_write wo (dk x) [w] = (d', r) \<Longrightarrow>
   after_write ws r = (ws', err) \<Longrightarrow>
   wb_step plen np x (x\<lparr>dk := d', pcs := (pcs x)(t := Flushing p plan ws' err)\<rparr>)"
| flush_end:
  "pcs x t = Flushing p plan [] err \<Longrightarrow> finish_flush (st x) p plan (outcome err) = (s', r) \<Longrightarrow>
   wb_step plen np x (x\<lparr>st := s', pcs := (pcs x)(t := Idle)\<rparr>)"
| flush_locked:
  "flush_piece_locked wo (st x) (dk x) p = Some (s', d', r) \<Longrightarrow> wb_step plen np x (x\<lparr>st := s', dk := d'\<rparr>)"
| evict:
  "evict_done (st x) victim p flushed = Some (s', nx) \<Longrightarrow> wb_step plen np x (x\<lparr>st := s'\<rparr>)"
| through_start:
  "pcs x t = Idle \<Longrightarrow> p < np \<Longrightarrow> cache (st x) p = None \<Longrightarrow> p \<notin> flushing (st x) \<Longrightarrow>
   buf \<noteq> [] \<Longrightarrow> 0 \<le> off \<Longrightarrow> off + int (length buf) \<le> plen p \<Longrightarrow> unknown (got x p) off buf \<Longrightarrow>
   through_begin (st x) p off buf = (s', Inr plan) \<Longrightarrow>
   wb_step plen np x (x\<lparr>st := s', pcs := (pcs x)(t := Through p off buf plan (pf_writes plan) None)\<rparr>)"
| through_io:
  "pcs x t = Through p off buf plan (w # ws) None \<Longrightarrow> flush_write wo (dk x) [w] = (d', r) \<Longrightarrow>
   after_write ws r = (ws', err) \<Longrightarrow>
   wb_step plen np x (x\<lparr>dk := d', pcs := (pcs x)(t := Through p off buf plan ws' err)\<rparr>)"
| through_end:
  "pcs x t = Through p off buf plan [] err \<Longrightarrow> through_finish (st x) p buf plan (outcome err) = (s', Some r) \<Longrightarrow>
   wb_step plen np x (x\<lparr>st := s', pcs := (pcs x)(t := Idle),
     got := (case r of Inr _ \<Rightarrow> (got x)(p := learned (got x p) off buf) | Inl _ \<Rightarrow> got x)\<rparr>)"
| reject:
  "mark_not_complete frozen spawned (st x) p = Some s' \<Longrightarrow>
   wb_step plen np x (x\<lparr>st := s', got := (if frozen \<or> flag (completed (st x)) p then got x else (got x)(p := \<lambda>_. None))\<rparr>)"
| complete:
  "wb_step plen np x (x\<lparr>st := complete_piece spawned (st x) p\<rparr>)"
| fill_start:
  "pcs x t = Idle \<Longrightarrow> fill_begin (st x) p = Inr (len, rds, gen) \<Longrightarrow>
   wb_step plen np x (x\<lparr>pcs := (pcs x)(t := Filling p len rds gen (replicate len 0) (born x p))\<rparr>)"
| fill_io:
  "pcs x t = Filling p len ((h, pos, lo, hi) # rds) gen buf b \<Longrightarrow>
   read_exact_at ro (dk x) h pos (hi - lo) = Inr bs \<Longrightarrow>
   wb_step plen np x (x\<lparr>pcs := (pcs x)(t := Filling p len rds gen (pwrite buf lo bs) b)\<rparr>)"
| fill_error:
  "pcs x t = Filling p len rds gen buf b \<Longrightarrow> fill_finish (st x) p len gen (Inl e) = (s', r) \<Longrightarrow>
   wb_step plen np x (x\<lparr>st := s', pcs := (pcs x)(t := Idle)\<rparr>)"
| fill_end:
  "pcs x t = Filling p len [] gen buf b \<Longrightarrow> born x p = b \<Longrightarrow> fill_finish (st x) p len gen (Inr buf) = (s', r) \<Longrightarrow>
   wb_step plen np x (x\<lparr>st := s', pcs := (pcs x)(t := Idle)\<rparr>)"
| read_hit:
  "cache (st x) p \<noteq> None \<Longrightarrow> read_slot (st x) p expected n off = Some (s', nx) \<Longrightarrow> wb_step plen np x (x\<lparr>st := s'\<rparr>)"

section \<open>Invariant\<close>

fun piece_of_pc :: "pc \<Rightarrow> nat option" where
  "piece_of_pc Idle = None"
| "piece_of_pc (Flushing p plan todo err) = Some p"
| "piece_of_pc (Through p off buf plan todo err) = Some p"
| "piece_of_pc (Filling p len rds gen buf b) = Some p"

text \<open>The threads that have reserved their piece in \<open>flushing\<close>.\<close>

fun owns :: "pc \<Rightarrow> nat \<Rightarrow> bool" where
  "owns (Flushing p plan todo err) q \<longleftrightarrow> p = q"
| "owns (Through p off buf plan todo err) q \<longleftrightarrow> p = q"
| "owns _ q \<longleftrightarrow> False"

definition plan_ok :: "storage_inner \<Rightarrow> int \<Rightarrow> nat \<Rightarrow> piece_flush \<Rightarrow> planned_write list \<Rightarrow> bool" where
  "plan_ok s n p plan todo \<longleftrightarrow>
     pf_gen plan = files_gen s \<and> set todo \<subseteq> set (pf_writes plan) \<and> in_piece s n p (pf_writes plan)"

definition block_cells :: "int \<Rightarrow> bytes \<Rightarrow> nat \<Rightarrow> u8 \<Rightarrow> bool" where
  "block_cells off buf j c \<longleftrightarrow> off \<le> int j \<and> int j < off + int (length buf) \<and> c = buf ! nat (int j - off)"

fun thread_ok :: "(nat \<Rightarrow> int) \<Rightarrow> nat \<Rightarrow> storage_inner \<Rightarrow> disk \<Rightarrow> (nat \<Rightarrow> nat \<Rightarrow> u8 option) \<Rightarrow> (nat \<Rightarrow> nat) \<Rightarrow> pc \<Rightarrow> bool" where
  "thread_ok plen np s d g bn Idle \<longleftrightarrow> True"
| "thread_ok plen np s d g bn (Flushing p plan todo err) \<longleftrightarrow>
     p < np \<and> plan_ok s (plen p) p plan todo
     \<and> flushing_ok (slot s p) (g p) (on_disk d s (plen p) p) (pcells s p (pf_writes plan)) (pcells s p todo) (err = None)"
| "thread_ok plen np s d g bn (Through p off buf plan todo err) \<longleftrightarrow>
     p < np \<and> plan_ok s (plen p) p plan todo \<and> block_fits (plen p) off buf \<and> pcells s p (pf_writes plan) = block_cells off buf
     \<and> through_ok (slot s p) (g p) (on_disk d s (plen p) p) (block_cells off buf) (pcells s p todo) (err = None)"
| "thread_ok plen np s d g bn (Filling p len rds gen buf b) \<longleftrightarrow>
     p < np \<and> gen = files_gen s \<and> int len = plen p \<and> length buf = len \<and> reads_ok s p len rds \<and> b \<le> bn p
     \<and> (b = bn p \<longrightarrow> filling_ok (slot s p) (g p) buf (pending rds))"

definition wb_inv :: "(nat \<Rightarrow> int) \<Rightarrow> nat \<Rightarrow> wb_state \<Rightarrow> bool" where
  "wb_inv plen np x \<longleftrightarrow>
     geometry plen np (st x) (dk x) \<and> cache_inv (st x)
     \<and> (\<forall>p < np. piece_ok (plen p) (slot (st x) p) (got x p) (on_disk (dk x) (st x) (plen p) p))
     \<and> (\<forall>p. cache (st x) p \<noteq> None \<longrightarrow> p < np)
     \<and> (\<forall>t. thread_ok plen np (st x) (dk x) (got x) (born x) (pcs x t))
     \<and> (\<forall>t u p. owns (pcs x t) p \<and> owns (pcs x u) p \<longrightarrow> t = u)"

lemma wb_invD:
  assumes "wb_inv plen np x"
  shows "geometry plen np (st x) (dk x)" "cache_inv (st x)"
    "p < np \<Longrightarrow> piece_ok (plen p) (slot (st x) p) (got x p) (on_disk (dk x) (st x) (plen p) p)"
    "cache (st x) p \<noteq> None \<Longrightarrow> p < np"
    "thread_ok plen np (st x) (dk x) (got x) (born x) (pcs x t)"
    "owns (pcs x t) p \<Longrightarrow> owns (pcs x u) p \<Longrightarrow> t = u"
  using assms unfolding wb_inv_def by blast+

text \<open>A reserved piece is in \<open>flushing\<close>.\<close>

lemma owns_flushing: "thread_ok plen np s d g bn pc \<Longrightarrow> owns pc p \<Longrightarrow> vf (slot s p) \<and> p < np"
  by (cases pc) (auto simp: flushing_ok_def through_ok_def)

text \<open>What a step must carry over for the threads it does not run.\<close>

definition carry_owner :: "slot_view \<Rightarrow> (nat \<Rightarrow> u8 option) \<Rightarrow> (nat \<Rightarrow> u8) \<Rightarrow> slot_view \<Rightarrow> (nat \<Rightarrow> u8 option) \<Rightarrow> (nat \<Rightarrow> u8) \<Rightarrow> bool" where
  "carry_owner v g D v' g' D' \<longleftrightarrow>
     (\<forall>C T b. flushing_ok v g D C T b \<longrightarrow> flushing_ok v' g' D' C T b) \<and> (\<forall>C T b. through_ok v g D C T b \<longrightarrow> through_ok v' g' D' C T b)"

definition carry_fill :: "slot_view \<Rightarrow> (nat \<Rightarrow> u8 option) \<Rightarrow> slot_view \<Rightarrow> (nat \<Rightarrow> u8 option) \<Rightarrow> bool" where
  "carry_fill v g v' g' \<longleftrightarrow> (\<forall>B P. filling_ok v g B P \<longrightarrow> filling_ok v' g' B P)"

lemma carry_refl [simp]: "carry_owner v g D v g D" "carry_fill v g v g"
  by (simp_all add: carry_owner_def carry_fill_def)

lemma carry_shed: "shed_view v v' \<Longrightarrow> carry_owner v g D v' g D" "shed_view v v' \<Longrightarrow> carry_fill v g v' g"
  unfolding carry_owner_def carry_fill_def using threads_shed by blast+

lemma carry_idle: "\<not> vf v \<Longrightarrow> carry_owner v g D v' g' D'"
  by (simp add: carry_owner_def flushing_ok_def through_ok_def)

lemma thread_carry:
  assumes t: "thread_ok plen np s d g bn pc" and fx: "fixed s s'"
    and ow: "\<And>p. owns pc p \<Longrightarrow> carry_owner (slot s p) (g p) (on_disk d s (plen p) p) (slot s' p) (g' p) (on_disk d' s (plen p) p)"
    and fl: "\<And>p. piece_of_pc pc = Some p \<Longrightarrow> bn p \<le> bn' p \<and> (bn' p = bn p \<longrightarrow> carry_fill (slot s p) (g p) (slot s' p) (g' p))"
  shows "thread_ok plen np s' d' g' bn' pc"
proof (cases pc)
  case (Flushing p plan todo err)
  then show ?thesis using t ow [of p] fixed_same [OF fx] by (auto simp: carry_owner_def plan_ok_def)
next
  case (Through p off buf plan todo err)
  then show ?thesis using t ow [of p] fixed_same [OF fx] by (auto simp: carry_owner_def plan_ok_def)
next
  case (Filling p len rds gen buf b)
  then show ?thesis using t fl [of p] fixed_same [OF fx] reads_ok_fixed [OF fx] by (auto simp: carry_fill_def)
qed simp

text \<open>
  A step changes the view, the received bytes and the disk bytes of one piece \<open>p\<close>, drops clean slots of
  others, and moves at most the thread \<open>t\<close>.
\<close>

lemma wb_inv_step:
  assumes inv: "wb_inv plen np x"
    and fx: "fixed (st x) (st y)" and op: "opened (dk y) (sfiles (st x))" and ci: "cache_inv (st y)"
    and oth: "\<And>q. q \<noteq> p \<Longrightarrow> shed_view (slot (st x) q) (slot (st y) q)"
    and dsk: "\<And>q. q < np \<Longrightarrow> q \<noteq> p \<Longrightarrow> on_disk (dk y) (st x) (plen q) q = on_disk (dk x) (st x) (plen q) q"
    and got: "\<And>q. q \<noteq> p \<Longrightarrow> got y q = got x q" and brn: "\<And>q. q \<noteq> p \<Longrightarrow> born y q = born x q" "born x p \<le> born y p"
    and here: "p < np \<Longrightarrow> piece_ok (plen p) (slot (st y) p) (got y p) (on_disk (dk y) (st x) (plen p) p)"
    and new: "cache (st y) p \<noteq> None \<Longrightarrow> p < np"
    and others: "\<And>u. u \<noteq> t \<Longrightarrow> pcs y u = pcs x u"
    and ow: "\<And>u. u \<noteq> t \<Longrightarrow> owns (pcs x u) p \<Longrightarrow>
      carry_owner (slot (st x) p) (got x p) (on_disk (dk x) (st x) (plen p) p) (slot (st y) p) (got y p) (on_disk (dk y) (st x) (plen p) p)"
    and fl: "born y p = born x p \<Longrightarrow> p < np \<Longrightarrow> carry_fill (slot (st x) p) (got x p) (slot (st y) p) (got y p)"
    and me: "thread_ok plen np (st y) (dk y) (got y) (born y) (pcs y t)"
    and mine: "\<And>q. owns (pcs y t) q \<Longrightarrow> owns (pcs x t) q \<or> \<not> vf (slot (st x) q)"
  shows "wb_inv plen np y"
proof -
  note i = wb_invD [OF inv]
  have "piece_ok (plen q) (slot (st y) q) (got y q) (on_disk (dk y) (st y) (plen q) q)" if "q < np" for q
    using here piece_ok_shed [OF i(3) [OF that] oth, of] dsk [OF that] got that
    unfolding fixed_same(1) [OF fx] by (cases "q = p") auto
  moreover have "q < np" if "cache (st y) q \<noteq> None" for q
  proof (cases "q = p")
    case False
    then have "vc (slot (st y) q) = vc (slot (st x) q)" using oth [OF False] that by (auto simp: shed_view_def dropped_def slot_def)
    then show ?thesis using that i(4) [of q] by (simp add: slot_def)
  qed (use new that in simp)
  moreover have "thread_ok plen np (st y) (dk y) (got y) (born y) (pcs y u)" for u
  proof (cases "u = t")
    case False
    have "thread_ok plen np (st y) (dk y) (got y) (born y) (pcs x u)"
    proof (rule thread_carry [OF i(5) fx])
      fix q assume o: "owns (pcs x u) q"
      then have "q < np" using owns_flushing [OF i(5)] by blast
      then show "carry_owner (slot (st x) q) (got x q) (on_disk (dk x) (st x) (plen q) q) (slot (st y) q) (got y q) (on_disk (dk y) (st x) (plen q) q)"
        using ow [OF False] o carry_shed(1) [OF oth] dsk got by (cases "q = p") simp_all
    next
      fix q assume q: "piece_of_pc (pcs x u) = Some q"
      have "q < np" using i(5) [of u] q by (cases "pcs x u") auto
      then show "born x q \<le> born y q \<and> (born y q = born x q \<longrightarrow> carry_fill (slot (st x) q) (got x q) (slot (st y) q) (got y q))"
        using fl brn carry_shed(2) [OF oth] got by (cases "q = p") simp_all
    qed
    then show ?thesis using others [OF False] by simp
  qed (use me in simp)
  moreover have "u = v" if o: "owns (pcs y u) q" "owns (pcs y v) q" for u v q
  proof -
    have fr: "\<not> owns (pcs x w) q" if "owns (pcs y t) q" "w \<noteq> t" for w
      using mine [OF that(1)] i(6) [of t q w] that(2) owns_flushing [OF i(5), of w q] by blast
    show ?thesis using o fr [of u] fr [of v] i(6) [of u q v] others [of u] others [of v] by (cases "u = t"; cases "v = t") auto
  qed
  ultimately show ?thesis
    using geometry_fixed [OF i(1) fx op] ci unfolding wb_inv_def by auto
qed

text \<open>Two special cases: no thread moves, and no slot changes except that clean ones are dropped.\<close>

lemma wb_inv_quiet:
  assumes inv: "wb_inv plen np x"
    and fx: "fixed (st x) (st y)" and op: "opened (dk y) (sfiles (st x))" and ci: "cache_inv (st y)"
    and oth: "\<And>q. q \<noteq> p \<Longrightarrow> shed_view (slot (st x) q) (slot (st y) q)"
    and dsk: "\<And>q. q < np \<Longrightarrow> q \<noteq> p \<Longrightarrow> on_disk (dk y) (st x) (plen q) q = on_disk (dk x) (st x) (plen q) q"
    and got: "\<And>q. q \<noteq> p \<Longrightarrow> got y q = got x q" and brn: "\<And>q. q \<noteq> p \<Longrightarrow> born y q = born x q" "born x p \<le> born y p"
    and here: "p < np \<Longrightarrow> piece_ok (plen p) (slot (st y) p) (got y p) (on_disk (dk y) (st x) (plen p) p)"
    and new: "cache (st y) p \<noteq> None \<Longrightarrow> p < np"
    and pcs: "pcs y = pcs x"
    and ow: "p < np \<Longrightarrow> carry_owner (slot (st x) p) (got x p) (on_disk (dk x) (st x) (plen p) p) (slot (st y) p) (got y p) (on_disk (dk y) (st x) (plen p) p)"
    and fl: "born y p = born x p \<Longrightarrow> p < np \<Longrightarrow> carry_fill (slot (st x) p) (got x p) (slot (st y) p) (got y p)"
  shows "wb_inv plen np y"
proof (rule wb_inv_step [where p = p and t = 0, OF inv fx op ci oth dsk got brn here new])
  note i = wb_invD [OF inv]
  show "carry_owner (slot (st x) p) (got x p) (on_disk (dk x) (st x) (plen p) p) (slot (st y) p) (got y p) (on_disk (dk y) (st x) (plen p) p)"
    if "owns (pcs x u) p" for u using ow owns_flushing [OF i(5) that] by blast
  show "carry_fill (slot (st x) p) (got x p) (slot (st y) p) (got y p)" if "born y p = born x p" "p < np" using fl that by blast
  show "thread_ok plen np (st y) (dk y) (got y) (born y) (pcs y 0)" unfolding pcs
  proof (rule thread_carry [OF i(5) fx])
    fix q assume "owns (pcs x 0) q"
    then have "q < np" using owns_flushing [OF i(5)] by blast
    then show "carry_owner (slot (st x) q) (got x q) (on_disk (dk x) (st x) (plen q) q) (slot (st y) q) (got y q) (on_disk (dk y) (st x) (plen q) q)"
      using ow carry_shed(1) [OF oth] dsk got by (cases "q = p") simp_all
  next
    fix q assume q: "piece_of_pc (pcs x 0) = Some q"
    have "q < np" using i(5) [of 0] q by (cases "pcs x 0") auto
    then show "born x q \<le> born y q \<and> (born y q = born x q \<longrightarrow> carry_fill (slot (st x) q) (got x q) (slot (st y) q) (got y q))"
      using fl brn carry_shed(2) [OF oth] got by (cases "q = p") simp_all
  qed
qed (simp_all add: pcs)

lemma wb_inv_shed:
  assumes inv: "wb_inv plen np x" and sh: "shed (st x) (st y)" and ci: "cache_inv (st y)"
    and same: "dk y = dk x" "got y = got x" "born y = born x" "pcs y = pcs x"
  shows "wb_inv plen np y"
proof -
  note i = wb_invD [OF inv]
  have v: "fixed (st x) (st y)" "shed_view (slot (st x) q) (slot (st y) q)" for q using sh by (simp_all add: shed_def)
  show ?thesis
  proof (rule wb_inv_quiet [where p = 0, OF inv v(1) _ ci v(2)])
    show "opened (dk y) (sfiles (st x))" using geometryD(5) [OF i(1)] same(1) by simp
    show "piece_ok (plen 0) (slot (st y) 0) (got y 0) (on_disk (dk y) (st x) (plen 0) 0)" if "0 < np"
      using piece_ok_shed [OF i(3) [OF that] v(2)] same by simp
    show "0 < np" if "cache (st y) 0 \<noteq> None"
      using v(2) [of 0] i(4) [of 0] that by (auto simp: shed_view_def dropped_def slot_def)
  qed (simp_all add: same carry_shed [OF v(2)])
qed

section \<open>Every step keeps the invariant\<close>

lemma write_attempt_forms:
  assumes w: "write_attempt s k p n off buf = Some (s', nx)" and nc: "\<not> closed s"
  obtains s1 c where "ensure_cache_slot_locked s p n = Some (s1, Inr (Ready c))" "store_block s1 p n c off buf = Some s'" "nx = Done (Inr (length buf))"
    | s1 r where "ensure_cache_slot_locked s p n = Some (s1, r)" "\<forall>c. r \<noteq> Inr (Ready c)" "s' = s1 \<or> (\<exists>ev. s' = s1\<lparr>evicting := ev\<rparr>)"
        "\<forall>k. nx \<noteq> Done (Inr k)"
proof -
  obtain s1 r where e: "ensure_cache_slot_locked s p n = Some (s1, r)"
    using w nc by (auto simp: write_attempt_def split: bind_splits)
  show ?thesis
  proof (cases "\<exists>c. r = Inr (Ready c)")
    case True
    then obtain c where c: "r = Inr (Ready c)" by blast
    then show ?thesis using that(1) [of s1 c] e w nc
      by (cases "store_block s1 p n c off buf") (simp_all add: write_attempt_def)
  next
    case False
    then have "\<forall>c. r \<noteq> Inr (Ready c)" by blast
    moreover have "(s' = s1 \<or> (\<exists>ev. s' = s1\<lparr>evicting := ev\<rparr>)) \<and> (\<forall>k. nx \<noteq> Done (Inr k))"
    proof (cases r)
      case (Inl er)
      then show ?thesis using e w nc by (auto simp: write_attempt_def split: if_splits)
    next
      case (Inr sl)
      then obtain v where "sl = FlushFirst v" using False by (cases sl) auto
      then show ?thesis using e w nc Inr by (auto simp: write_attempt_def split: if_splits)
    qed
    ultimately show ?thesis using that(2) [OF e] by blast
  qed
qed

lemma receive_step:
  assumes inv: "wb_inv plen np x" and p: "p < np" and gd: "\<not> (cache (st x) p = None \<and> p \<in> flushing (st x))"
    and b: "buf \<noteq> []" "0 \<le> off" "off + int (length buf) \<le> plen p" and u: "unknown (got x p) off buf"
    and w: "write_attempt (st x) k p (plen p) off buf = Some (s', nx)"
  shows "wb_inv plen np (x\<lparr>st := s',
     got := (case nx of Done (Inr _) \<Rightarrow> (got x)(p := learned (got x p) off buf) | _ \<Rightarrow> got x),
     born := (if cache (st x) p = None \<and> cache s' p \<noteq> None then (born x)(p := Suc (born x p)) else born x)\<rparr>)" (is "wb_inv plen np ?y")
proof -
  note i = wb_invD [OF inv] and g = geometryD [OF wb_invD(1) [OF inv]]
  note ok = i(3) [OF p]
  have len: "\<forall>data. cache (st x) p = Some data \<longrightarrow> int (length data) = plen p" using piece_okD(8) [OF ok] by (simp add: slot_def)
  have fit: "block_fits (plen p) off buf" using b g(9) [OF p] by (simp add: block_fits_def)
  note ens = ensure_slot_view [OF _ i(2) g(11) [OF p] g(7) [OF p] len]
  from w g(3) show ?thesis
  proof (cases rule: write_attempt_forms)
    case (1 s1 c)
    note e = ens [OF 1(1)]
    obtain data where d: "cache s1 p = Some data"
      using e by (cases c) (auto simp: slot_def)
    have ns: "\<not> streaming s1" using e g(2) by (simp add: fixed_def)
    obtain data' where sb: "splice data off buf = Some data'" "cache_inv s'" "fixed s1 s'" "\<forall>q. q \<noteq> p \<longrightarrow> slot s' q = slot s1 q"
      "slot s' p = stored (plen p) off buf data' (if c then (slot s1 p)\<lparr>vp := Some []\<rparr> else slot s1 p)"
      using store_block_view [OF 1(2) _ d ns] e by blast
    define v where "v = (if c then new_slot (plen p) (slot (st x) p) else slot (st x) p)"
    have sv: "slot s' p = stored (plen p) off buf data' v" "vc v = Some data"
      using sb(5) e d by (auto simp: v_def new_slot_def slot_def)
    have vok: "piece_ok (plen p) v (got x p) (on_disk (dk x) (st x) (plen p) p)"
      using ok piece_ok_new [OF ok _ g(7) [OF p]] e by (auto simp: v_def slot_def)
    have "vc (slot s' p) \<noteq> None" unfolding sv(1) by (simp add: stored_def)
    then have cs: "cache s' p \<noteq> None" by (simp add: slot_def)
    have born: "born ?y p = (if c then Suc (born x p) else born x p)" using cs e by (cases c) auto
    show ?thesis
    proof (rule wb_inv_quiet [where p = p, OF inv])
      show "fixed (st x) (st ?y)" using e fixed_trans sb(3) by simp blast
      show "shed_view (slot (st x) q) (slot (st ?y) q)" if "q \<noteq> p" for q using e sb(4) that by simp
      show "piece_ok (plen p) (slot (st ?y) p) (got ?y p) (on_disk (dk ?y) (st x) (plen p) p)"
        using piece_ok_stored [OF fit vok sv(2) sb(1) u] sv(1) 1(3) by simp
      show "carry_owner (slot (st x) p) (got x p) (on_disk (dk x) (st x) (plen p) p) (slot (st ?y) p) (got ?y p) (on_disk (dk ?y) (st x) (plen p) p)"
      proof (cases c)
        case True
        then have "\<not> vf (slot (st x) p)" using e gd by (simp add: slot_def)
        then show ?thesis by (rule carry_idle)
      next
        case False
        then show ?thesis using threads_stored(1) [OF fit vok sv(2) u] sv 1(3)
          by (auto simp: carry_owner_def v_def through_ok_def)
      qed
      show "carry_fill (slot (st x) p) (got x p) (slot (st ?y) p) (got ?y p)" if "born ?y p = born x p"
      proof -
        have "\<not> c" using born that by (auto split: if_splits)
        then show ?thesis using threads_stored(2) [OF fit vok sv(2) u] sv(1) 1(3) by (auto simp: carry_fill_def v_def)
      qed
    qed (use g(5) sb(2) p 1(3) in \<open>simp_all\<close>)
  next
    case (2 s1 r)
    note e = ens [OF 2(1)]
    have rr: "r \<noteq> Inr (Ready True)" using 2(2) by blast
    have s': "slot s' = slot s1" "fixed s1 s'" "cache_inv s' = cache_inv s1" using 2(3) by auto
    have "shed_view (slot (st x) q) (slot s' q)" for q using e rr unfolding s'(1) by (cases "q = p") auto
    then have "shed (st x) s'" using e fixed_trans [OF _ s'(2)] unfolding shed_def by blast
    moreover have "cache_inv s'" using e s' by simp
    moreover have "cache s' p = cache (st x) p" using fun_cong [OF s'(1), of p] e rr by (simp add: slot_def)
    ultimately show ?thesis using 2(4) by (intro wb_inv_shed [OF inv]) (auto split: write_next.splits sum.splits)
  qed
qed

lemma flush_begin_step:
  assumes inv: "wb_inv plen np x" and t: "pcs x t = Idle" and p: "p < np" and nf: "p \<notin> flushing (st x)"
    and b: "begin_flush (st x) p = (s', Inr plan)"
  shows "wb_inv plen np (x\<lparr>st := s', pcs := (pcs x)(t := Flushing p plan (pf_writes plan) None)\<rparr>)" (is "wb_inv plen np ?y")
proof -
  note i = wb_invD [OF inv] and g = geometryD [OF wb_invD(1) [OF inv]]
  obtain data where s': "pf_gen plan = files_gen (st x)" "fixed (st x) s'" "cache_inv s' = cache_inv (st x)"
    "slot s' = (slot (st x))(p := begun (slot (st x) p))" using begin_flush_plan [OF b] by blast
  note pl = flush_plan_view [OF i(1) p i(3) [OF p] b] and bg = begun_ok [OF i(3) [OF p]]
  have nv: "\<not> vf (slot (st x) p)" using nf by (simp add: slot_def)
  show ?thesis
  proof (rule wb_inv_step [where p = p and t = t, OF inv])
    show "carry_owner (slot (st x) p) (got x p) (on_disk (dk x) (st x) (plen p) p) (slot (st ?y) p) (got ?y p) (on_disk (dk ?y) (st x) (plen p) p)"
      using nv by (rule carry_idle)
    show "thread_ok plen np (st ?y) (dk ?y) (got ?y) (born ?y) (pcs ?y t)"
      using p s'(1) pl bg(2) fixed_same [OF s'(2)] by (simp add: s'(4) plan_ok_def)
    show "carry_fill (slot (st x) p) (got x p) (slot (st ?y) p) (got ?y p)" using bg(3) by (simp add: s'(4) carry_fill_def)
  qed (use s' g(5) i(2) p bg(1) nv in simp_all)
qed

lemma after_write_cases:
  assumes "after_write ws r = (ws', err)"
  shows "r = Inr () \<and> ws' = ws \<and> err = None \<or> isl r \<and> ws' = [] \<and> err \<noteq> None"
  using assms by (cases r) (auto simp: after_write_def)

lemma pcells_Cons: "pcells s p (w # ws) j c \<longleftrightarrow> pcells s p [w] j c \<or> pcells s p ws j c"
  unfolding pcells_def by (rule cells_Cons)

lemma flush_io_step:
  assumes inv: "wb_inv plen np x" and t: "pcs x t = Flushing p plan (w # ws) None" and fw: "flush_write wo (dk x) [w] = (d', r)"
    and aw: "after_write ws r = (ws', err)"
  shows "wb_inv plen np (x\<lparr>dk := d', pcs := (pcs x)(t := Flushing p plan ws' err)\<rparr>)" (is "wb_inv plen np ?y")
proof -
  note i = wb_invD [OF inv]
  let ?s = "st x" and ?C = "pcells (st x) p (pf_writes plan)"
  have th: "p < np" "plan_ok ?s (plen p) p plan (w # ws)"
    "flushing_ok (slot ?s p) (got x p) (on_disk (dk x) ?s (plen p) p) ?C (pcells ?s p (w # ws)) True"
    using i(5) [of t] t by simp_all
  have ipl: "in_piece ?s (plen p) p (pf_writes plan)" "set (w # ws) \<subseteq> set (pf_writes plan)" using th(2) by (auto simp: plan_ok_def)
  have ip: "in_piece ?s (plen p) p [w]" using in_piece_subset [OF ipl(1)] ipl(2) by simp
  note wv = write_view [OF i(1) th(1) ip fw]
  have wc: "\<forall>j c. pcells ?s p [w] j c \<longrightarrow> ?C j c" unfolding pcells_def using cells_mono [of "[w]" "pf_writes plan"] ipl(2) by auto
  have got: "\<forall>j c. pcells ?s p [w] j c \<longrightarrow> got x p j = Some c \<or> got x p j = None"
    by (intro allI impI flushing_got [OF th(3)]) (simp add: wc)
  have fin: "err = None \<Longrightarrow> r = Inr () \<and> ws' = ws" "set ws' \<subseteq> set ws" using after_write_cases [OF aw] by auto
  have me: "flushing_ok (slot ?s p) (got x p) (on_disk d' ?s (plen p) p) ?C (pcells ?s p ws') (err = None)"
    by (rule flushing_writes [OF th(3) wv(2) wc]) (use fin(1) wv(4) pcells_Cons in blast)+
  show ?thesis
  proof (rule wb_inv_step [where p = p and t = t, OF inv])
    show "piece_ok (plen p) (slot (st ?y) p) (got ?y p) (on_disk (dk ?y) ?s (plen p) p)" using hits_got [OF i(3) [OF th(1)] wv(2) got] by simp
    show "carry_owner (slot ?s p) (got x p) (on_disk (dk x) ?s (plen p) p) (slot (st ?y) p) (got ?y p) (on_disk (dk ?y) ?s (plen p) p)"
      if "u \<noteq> t" "owns (pcs x u) p" for u using i(6) [of t p u] t that by simp
    show "thread_ok plen np (st ?y) (dk ?y) (got ?y) (born ?y) (pcs ?y t)"
      using th(1,2) me fin(2) by (auto simp: plan_ok_def)
  qed (use wv(1,3) i(2) th(1) t in simp_all)
qed

lemma flush_end_step:
  assumes inv: "wb_inv plen np x" and t: "pcs x t = Flushing p plan [] err" and f: "finish_flush (st x) p plan (outcome err) = (s', r)"
  shows "wb_inv plen np (x\<lparr>st := s', pcs := (pcs x)(t := Idle)\<rparr>)" (is "wb_inv plen np ?y")
    and "r = Inr True \<Longrightarrow> got x p j = Some b \<Longrightarrow> on_disk (dk x) (st x) (plen p) p j = b"
proof -
  note i = wb_invD [OF inv] and g = geometryD [OF wb_invD(1) [OF inv]]
  let ?s = "st x" and ?D = "on_disk (dk x) (st x) (plen p) p" and ?C = "pcells (st x) p (pf_writes plan)"
  have none: "pcells ?s p [] = (\<lambda>_ _. False)" by (auto simp: pcells_def fun_eq_iff)
  have th: "p < np" "pf_gen plan = files_gen ?s" "flushing_ok (slot ?s p) (got x p) ?D ?C (\<lambda>_ _. False) (err = None)"
    using i(5) [of t] t none by (simp_all add: plan_ok_def)
  note fv = finish_flush_view [OF f g(3) th(2)]
  note ok = i(3) [OF th(1)] and en = ended_ok [OF i(3) [OF th(1)]]
  have cl: "piece_ok (plen p) (cleaned (slot ?s p)) (got x p) ?D \<and> (\<forall>j b. got x p j = Some b \<longrightarrow> ?D j = b)"
    if "err = None" "vn (slot ?s p) = None \<or> vn (slot ?s p) = Some [] \<or> \<not> vr (slot ?s p) \<or> vc (slot ?s p) = None"
  proof -
    have "cov (vn (slot ?s p)) = {}" using that(2) piece_okD(7,12) [OF ok] by (cases "vn (slot ?s p)") auto
    moreover have "flushing_ok (slot ?s p) (got x p) ?D ?C (\<lambda>_ _. False) True" using th(3) that(1) by simp
    ultimately show ?thesis using cleaned_ok [OF ok] by blast
  qed
  have "piece_ok (plen p) (slot s' p) (got x p) ?D \<and> carry_fill (slot ?s p) (got x p) (slot s' p) (got x p)
    \<and> (r = Inr True \<longrightarrow> (\<forall>j b. got x p j = Some b \<longrightarrow> ?D j = b))"
  proof (cases err)
    case None
    then have out: "outcome err = Inr ()" by (simp add: outcome_def)
    have f0: "flushing_ok (slot ?s p) (got x p) ?D ?C (\<lambda>_ _. False) True" using th(3) None by simp
    from fv(3) [OF out] show ?thesis
    proof (rule disjE)
      assume "slot s' p = still_dirty (slot ?s p) \<and> vn (slot ?s p) \<noteq> None \<and> r = Inr False"
      then show ?thesis using still_dirty_ok [OF ok f0] en(3) by (simp add: carry_fill_def)
    next
      assume "slot s' p = cleaned (slot ?s p) \<and> r = Inr True
        \<and> (vn (slot ?s p) = None \<or> vn (slot ?s p) = Some [] \<or> \<not> vr (slot ?s p) \<or> vc (slot ?s p) = None)"
      then show ?thesis using cl [OF None] en(4) by (simp add: carry_fill_def)
    qed
  next
    case (Some e)
    then show ?thesis using fv(2) [of e] en(1,2) by (simp add: outcome_def carry_fill_def)
  qed
  note k = this
  then show "r = Inr True \<Longrightarrow> got x p j = Some b \<Longrightarrow> ?D j = b" by blast
  show "wb_inv plen np ?y"
  proof (rule wb_inv_step [where p = p and t = t, OF inv])
    show "carry_owner (slot ?s p) (got x p) ?D (slot (st ?y) p) (got ?y p) (on_disk (dk ?y) ?s (plen p) p)"
      if "u \<noteq> t" "owns (pcs x u) p" for u using i(6) [of t p u] t that by simp
  qed (use fv(1) k g(5) i(2) th(1) in simp_all)
qed

lemma flush_locked_step:
  assumes inv: "wb_inv plen np x" and f: "flush_piece_locked wo (st x) (dk x) p = Some (s', d', r)"
  shows "wb_inv plen np (x\<lparr>st := s', dk := d'\<rparr>)" (is "wb_inv plen np ?y")
proof (cases "p < np")
  case False
  note i = wb_invD [OF inv]
  have "cache (st x) p = None" using i(4) [of p] False by blast
  then have "s' = st x" "d' = dk x" using f by (auto simp: flush_piece_locked_def split: if_splits)
  then show ?thesis using inv by simp
next
  case p: True
  note i = wb_invD [OF inv]
  obtain left where l: "fixed (st x) s'" "cache_inv s'" "opened d' (sfiles (st x))" "\<forall>q. q \<noteq> p \<longrightarrow> slot s' q = slot (st x) q"
    "slot s' p = flushed_locked left (slot (st x) p)" "cov left \<subseteq> cov (vs (slot (st x) p))"
    "\<forall>rs. left = Some rs \<longrightarrow> spans_ok (plen p) rs \<and> vc (slot (st x) p) \<noteq> None"
    "hits (on_disk (dk x) (st x) (plen p) p) (on_disk d' (st x) (plen p) p) (dirty_bytes (slot (st x) p))"
    "\<forall>q < np. q \<noteq> p \<longrightarrow> on_disk d' (st x) (plen q) q = on_disk (dk x) (st x) (plen q) q"
    "\<forall>j. int j \<in> cov (vs (slot (st x) p)) - cov left \<longrightarrow> on_disk d' (st x) (plen p) p j = the (vc (slot (st x) p)) ! j"
    by (rule flush_locked_view [OF i(1) p i(3) [OF p] i(2) f])
  note k = locked_ok [OF i(3) [OF p] l(8,6,7,10)]
  show ?thesis
  proof (rule wb_inv_quiet [where p = p, OF inv])
    show "carry_owner (slot (st x) p) (got x p) (on_disk (dk x) (st x) (plen p) p) (slot (st ?y) p) (got ?y p) (on_disk (dk ?y) (st x) (plen p) p)"
    proof -
      have "through_ok (flushed_locked left v) g D' C T b" if "through_ok v g D C T b" "v = slot (st x) p" "on_disk (dk x) (st x) (plen p) p = D"
        "D' = on_disk d' (st x) (plen p) p" for v g D D' C T b
      proof -
        have vc: "vc v = None" using that(1) by (simp add: through_ok_def)
        then have "cov (vs v) = {}" using piece_okD(12) [OF i(3) [OF p]] that(2) by simp
        then have "D' = D" using l(8) that(2-4) by (auto simp: hits_def dirty_bytes_def)
        then show ?thesis using that(1) by (simp add: through_ok_def flushed_locked_def)
      qed
      then show ?thesis using k(2) l(5) by (simp add: carry_owner_def)
    qed
    show "carry_fill (slot (st x) p) (got x p) (slot (st ?y) p) (got ?y p)" using k(3) l(5) by (simp add: carry_fill_def)
  qed (use l(1-4,9) k(1) p in \<open>simp_all add: l(5)\<close>)
qed

lemma through_start_step:
  assumes inv: "wb_inv plen np x" and t: "pcs x t = Idle" and p: "p < np" and c: "cache (st x) p = None" and nf: "p \<notin> flushing (st x)"
    and b: "buf \<noteq> []" "0 \<le> off" "off + int (length buf) \<le> plen p" and u: "unknown (got x p) off buf"
    and tb: "through_begin (st x) p off buf = (s', Inr plan)"
  shows "wb_inv plen np (x\<lparr>st := s', pcs := (pcs x)(t := Through p off buf plan (pf_writes plan) None)\<rparr>)" (is "wb_inv plen np ?y")
proof -
  note i = wb_invD [OF inv] and g = geometryD [OF wb_invD(1) [OF inv]]
  have fit: "block_fits (plen p) off buf" using b g(9) [OF p] by (simp add: block_fits_def)
  obtain ps where s': "pf_gen plan = files_gen (st x)" "fixed (st x) s'" "cache_inv s' = cache_inv (st x)"
    "slot s' = (slot (st x))(p := (slot (st x) p)\<lparr>vf := True\<rparr>)" using through_begin_view [OF tb] by blast
  have pl: "in_piece (st x) (plen p) p (pf_writes plan)" "pcells (st x) p (pf_writes plan) = block_cells off buf"
    using through_plan_view [OF i(1) p fit tb] by (auto simp: block_cells_def fun_eq_iff)
  have un: "\<forall>j c. block_cells off buf j c \<longrightarrow> got x p j = None" using u by (auto simp: unknown_def block_cells_def)
  have vc: "vc (slot (st x) p) = None" using c by (simp add: slot_def)
  note k = through_starts [OF i(3) [OF p] vc un]
  have nv: "\<not> vf (slot (st x) p)" using nf by (simp add: slot_def)
  show ?thesis
  proof (rule wb_inv_step [where p = p and t = t, OF inv])
    show "carry_owner (slot (st x) p) (got x p) (on_disk (dk x) (st x) (plen p) p) (slot (st ?y) p) (got ?y p) (on_disk (dk ?y) (st x) (plen p) p)"
      using nv by (rule carry_idle)
    show "thread_ok plen np (st ?y) (dk ?y) (got ?y) (born ?y) (pcs ?y t)"
      using p s'(1) pl k(2) fit fixed_same [OF s'(2)] by (simp add: s'(4) plan_ok_def)
    show "carry_fill (slot (st x) p) (got x p) (slot (st ?y) p) (got ?y p)" using k(3) by (simp add: s'(4) carry_fill_def)
  qed (use s' g(5) i(2) p k(1) nv in simp_all)
qed

lemma through_io_step:
  assumes inv: "wb_inv plen np x" and t: "pcs x t = Through p off buf plan (w # ws) None" and fw: "flush_write wo (dk x) [w] = (d', r)"
    and aw: "after_write ws r = (ws', err)"
  shows "wb_inv plen np (x\<lparr>dk := d', pcs := (pcs x)(t := Through p off buf plan ws' err)\<rparr>)" (is "wb_inv plen np ?y")
proof -
  note i = wb_invD [OF inv]
  let ?s = "st x" and ?C = "block_cells off buf"
  have th: "p < np" "plan_ok ?s (plen p) p plan (w # ws)" "block_fits (plen p) off buf" "pcells ?s p (pf_writes plan) = ?C"
    "through_ok (slot ?s p) (got x p) (on_disk (dk x) ?s (plen p) p) ?C (pcells ?s p (w # ws)) True"
    using i(5) [of t] t by simp_all
  have ipl: "in_piece ?s (plen p) p (pf_writes plan)" "set (w # ws) \<subseteq> set (pf_writes plan)" using th(2) by (auto simp: plan_ok_def)
  have ip: "in_piece ?s (plen p) p [w]" using in_piece_subset [OF ipl(1)] ipl(2) by simp
  note wv = write_view [OF i(1) th(1) ip fw]
  have wc: "\<forall>j c. pcells ?s p [w] j c \<longrightarrow> ?C j c" unfolding th(4) [symmetric] pcells_def using cells_mono [of "[w]" "pf_writes plan"] ipl(2) by auto
  have got: "\<forall>j c. pcells ?s p [w] j c \<longrightarrow> got x p j = Some c \<or> got x p j = None" 
  proof (intro allI impI disjI2)
    fix j c assume "pcells ?s p [w] j c"
    then have "?C j c" using wc by simp
    moreover have "\<forall>j c. ?C j c \<longrightarrow> got x p j = None" using th(5) unfolding through_ok_def by (elim conjE)
    ultimately show "got x p j = None" by blast
  qed
  have fin: "err = None \<Longrightarrow> r = Inr () \<and> ws' = ws" "set ws' \<subseteq> set ws" using after_write_cases [OF aw] by auto
  have me: "through_ok (slot ?s p) (got x p) (on_disk d' ?s (plen p) p) ?C (pcells ?s p ws') (err = None)"
  proof (rule through_writes [OF th(5) wv(2) wc])
    show "\<forall>j c c'. ?C j c \<longrightarrow> ?C j c' \<longrightarrow> c = c'" by (simp add: block_cells_def)
  qed (use fin(1) wv(4) pcells_Cons in blast)+
  show ?thesis
  proof (rule wb_inv_step [where p = p and t = t, OF inv])
    show "piece_ok (plen p) (slot (st ?y) p) (got ?y p) (on_disk (dk ?y) ?s (plen p) p)" using hits_got [OF i(3) [OF th(1)] wv(2) got] by simp
    show "carry_owner (slot ?s p) (got x p) (on_disk (dk x) ?s (plen p) p) (slot (st ?y) p) (got ?y p) (on_disk (dk ?y) ?s (plen p) p)"
      if "u \<noteq> t" "owns (pcs x u) p" for u using i(6) [of t p u] t that by simp
    show "thread_ok plen np (st ?y) (dk ?y) (got ?y) (born ?y) (pcs ?y t)"
      using th(1-4) me fin(2) by (auto simp: plan_ok_def)
  qed (use wv(1,3) i(2) th(1) t in simp_all)
qed

lemma through_end_step:
  assumes inv: "wb_inv plen np x" and t: "pcs x t = Through p off buf plan [] err"
    and f: "through_finish (st x) p buf plan (outcome err) = (s', Some r)"
  shows "wb_inv plen np (x\<lparr>st := s', pcs := (pcs x)(t := Idle),
     got := (case r of Inr _ \<Rightarrow> (got x)(p := learned (got x p) off buf) | Inl _ \<Rightarrow> got x)\<rparr>)" (is "wb_inv plen np ?y")
proof -
  note i = wb_invD [OF inv] and g = geometryD [OF wb_invD(1) [OF inv]]
  let ?s = "st x" and ?D = "on_disk (dk x) (st x) (plen p) p"
  have none: "pcells ?s p [] = (\<lambda>_ _. False)" by (auto simp: pcells_def fun_eq_iff)
  have th: "p < np" "block_fits (plen p) off buf" "through_ok (slot ?s p) (got x p) ?D (block_cells off buf) (\<lambda>_ _. False) (err = None)"
    using i(5) [of t] t none by simp_all
  note fv = through_finish_view [OF f g(3)]
  note te = through_ends [OF i(3) [OF th(1)] th(3)]
  have vc: "vc ((slot ?s p)\<lparr>vf := False\<rparr>) = None" using th(3) by (simp add: through_ok_def)
  have k: "piece_ok (plen p) ((slot ?s p)\<lparr>vf := False\<rparr>) (got ?y p) ?D \<and> carry_fill (slot ?s p) (got x p) ((slot ?s p)\<lparr>vf := False\<rparr>) (got ?y p)"
  proof (cases r)
    case (Inl e)
    then show ?thesis using te by (simp add: carry_fill_def)
  next
    case (Inr n)
    then have "err = None" using fv(2) by (cases err) (auto simp: outcome_def)
    then have "\<forall>j. off \<le> int j \<and> int j < off + int (length buf) \<longrightarrow> ?D j = buf ! nat (int j - off)"
      using th(3) by (auto simp: through_ok_def block_cells_def)
    from through_learned [OF te(1) vc th(2) this] show ?thesis using Inr by (simp add: carry_fill_def)
  qed
  show ?thesis
  proof (rule wb_inv_step [where p = p and t = t, OF inv])
    show "carry_owner (slot ?s p) (got x p) ?D (slot (st ?y) p) (got ?y p) (on_disk (dk ?y) ?s (plen p) p)"
      if "u \<noteq> t" "owns (pcs x u) p" for u using i(6) [of t p u] t that by simp
  qed (use fv(1) k g(5) i(2) th(1) in \<open>simp_all split: sum.split\<close>)
qed

lemma reject_step:
  assumes inv: "wb_inv plen np x" and m: "mark_not_complete frozen spawned (st x) p = Some s'"
  shows "wb_inv plen np (x\<lparr>st := s', got := (if frozen \<or> flag (completed (st x)) p then got x else (got x)(p := \<lambda>_. None))\<rparr>)"
    (is "wb_inv plen np ?y")
proof (cases "frozen \<or> flag (completed (st x)) p")
  case True
  then have "s' = st x" using m by (auto simp: mark_not_complete_def)
  then show ?thesis using inv True by simp
next
  case False
  note i = wb_invD [OF inv] and g = geometryD [OF wb_invD(1) [OF inv]]
  have rv: "cache_inv s'" "fixed (st x) s'" "\<forall>q. q \<noteq> p \<longrightarrow> slot s' q = slot (st x) q"
    "slot s' p = (if cache (st x) p = None then slot (st x) p else dropped (slot (st x) p))"
    using reject_view [OF m i(2) g(3,1,2)] False by auto
  have sd: "slot s' p = dropped (slot (st x) p)" if "p < np"
  proof (cases "cache (st x) p = None")
    case True
    then have "vc (slot (st x) p) = None" by (simp add: slot_def)
    moreover from this have "vs (slot (st x) p) = None" "vn (slot (st x) p) = None" "\<not> vd (slot (st x) p)"
      using piece_okD(6,12) [OF i(3) [OF that]] by auto
    ultimately have "dropped (slot (st x) p) = slot (st x) p" by (simp add: dropped_def)
    then show ?thesis using rv(4) True by simp
  next
    case False
    then show ?thesis using rv(4) by auto
  qed
  show ?thesis
  proof (rule wb_inv_quiet [where p = p, OF inv])
    show "piece_ok (plen p) (slot (st ?y) p) (got ?y p) (on_disk (dk ?y) (st x) (plen p) p)" if "p < np"
      using rejected_ok(1) [OF i(3) [OF that]] sd [OF that] False by simp
    show "carry_owner (slot (st x) p) (got x p) (on_disk (dk x) (st x) (plen p) p) (slot (st ?y) p) (got ?y p) (on_disk (dk ?y) (st x) (plen p) p)"
      if "p < np" using rejected_ok(2,3) [OF i(3) [OF that]] sd [OF that] False by (simp add: carry_owner_def)
    show "carry_fill (slot (st x) p) (got x p) (slot (st ?y) p) (got ?y p)" if "p < np"
      using rejected_ok(4) [OF i(3) [OF that]] sd [OF that] by (simp add: carry_fill_def)
    show "p < np" if "cache (st ?y) p \<noteq> None" using that rv(4) i(4) [of p] by (auto simp: slot_def dropped_def split: if_splits)
  qed (use rv(1-3) g(5) False in simp_all)
qed

lemma idle_step:
  assumes inv: "wb_inv plen np x" and me: "thread_ok plen np (st x) (dk x) (got x) (born x) pc'" and own: "\<And>p. \<not> owns pc' p"
  shows "wb_inv plen np (x\<lparr>pcs := (pcs x)(t := pc')\<rparr>)"
  using wb_invD [OF inv] me own unfolding wb_inv_def by auto

lemma fill_start_step:
  assumes inv: "wb_inv plen np x" and b: "fill_begin (st x) p = Inr (len, rds, gen)"
  shows "wb_inv plen np (x\<lparr>pcs := (pcs x)(t := Filling p len rds gen (replicate len 0) (born x p))\<rparr>)"
proof (rule idle_step [OF inv])
  note i = wb_invD [OF inv]
  have p: "p < np" using b i(4) [of p] by (auto simp: fill_begin_def split: option.splits)
  note ok = i(3) [OF p]
  have "int (length data) = plen p" if "cache (st x) p = Some data" for data using piece_okD(8) [OF ok] that by (simp add: slot_def)
  note fb = fill_begin_view [OF i(1) p b this]
  have "j < len" if "got x p j = Some b" for j b using piece_okD(1) [OF ok that] fb(1) by simp
  then have "filling_ok (slot (st x) p) (got x p) (replicate len 0) {..<len}" by (auto simp: filling_ok_def)
  then show "thread_ok plen np (st x) (dk x) (got x) (born x) (Filling p len rds gen (replicate len 0) (born x p))"
    using p fb by simp
qed simp

lemma pending_Cons: "pending ((h, pos, lo, hi) # rds) = {lo..<hi} \<union> pending rds"
  by (auto simp: pending_def)

lemma fill_io_step:
  assumes inv: "wb_inv plen np x" and t: "pcs x t = Filling p len ((h, pos, lo, hi) # rds) gen buf b"
    and rd: "read_exact_at ro (dk x) h pos (hi - lo) = Inr bs"
  shows "wb_inv plen np (x\<lparr>pcs := (pcs x)(t := Filling p len rds gen (pwrite buf lo bs) b)\<rparr>)"
proof (rule idle_step [OF inv])
  note i = wb_invD [OF inv]
  have th: "p < np" "gen = files_gen (st x)" "int len = plen p" "length buf = len" "reads_ok (st x) p len ((h, pos, lo, hi) # rds)" "b \<le> born x p"
    "b = born x p \<Longrightarrow> filling_ok (slot (st x) p) (got x p) buf (pending ((h, pos, lo, hi) # rds))"
    using i(5) [of t] t by simp_all
  note rv = read_view [OF i(1) th(1,5) rd th(4,3)]
  note ok = i(3) [OF th(1)]
  have "reads_ok (st x) p len rds" using th(5) by (simp add: reads_ok_def)
  moreover have "filling_ok (slot (st x) p) (got x p) (pwrite buf lo bs) (pending rds)" if "b = born x p"
  proof (rule fill_read [OF ok th(7) [OF that], where R = "{lo..<hi}"])
    show "\<forall>data. vc (slot (st x) p) = Some data \<longrightarrow> length buf = length data" using piece_okD(8) [OF ok] th(3,4) by auto
    show "\<forall>j < length buf. pwrite buf lo bs ! j = (if j \<in> {lo..<hi} then on_disk (dk x) (st x) (plen p) p j else buf ! j)"
      using rv(2) th(4) by simp
  qed (simp add: pending_Cons)
  ultimately show "thread_ok plen np (st x) (dk x) (got x) (born x) (Filling p len rds gen (pwrite buf lo bs) b)"
    using th(1-3,6) rv(1) by simp
qed simp

lemma fill_end_step:
  assumes inv: "wb_inv plen np x" and t: "pcs x t = Filling p len rds gen buf b" and f: "fill_finish (st x) p len gen res = (s', r)"
    and res: "isl res \<or> res = Inr buf \<and> rds = [] \<and> born x p = b"
  shows "wb_inv plen np (x\<lparr>st := s', pcs := (pcs x)(t := Idle)\<rparr>)" (is "wb_inv plen np ?y")
proof -
  note i = wb_invD [OF inv] and g = geometryD [OF wb_invD(1) [OF inv]]
  have th: "p < np" "int len = plen p" "length buf = len" "b = born x p \<Longrightarrow> filling_ok (slot (st x) p) (got x p) buf (pending rds)"
    using i(5) [of t] t by simp_all
  note ok = i(3) [OF th(1)]
  have lb: "length B = len" if "res = Inr B" for B using res that th(3) by auto
  note fv = fill_finish_view [OF f i(1,2) ok lb]
  have k: "piece_ok (plen p) (slot s' p) (got x p) (on_disk (dk x) (st x) (plen p) p)
    \<and> carry_owner (slot (st x) p) (got x p) (on_disk (dk x) (st x) (plen p) p) (slot s' p) (got x p) (on_disk (dk x) (st x) (plen p) p)
    \<and> carry_fill (slot (st x) p) (got x p) (slot s' p) (got x p)"
  proof (cases "slot s' p = slot (st x) p")
    case True
    then show ?thesis using ok by simp
  next
    case False
    then obtain B data data' where d: "res = Inr B" "vc (slot (st x) p) = Some data" "vp (slot (st x) p) \<noteq> None" "length data' = length data"
      "\<forall>j < length data. data' ! j = (if int j \<in> cov (vp (slot (st x) p)) then data ! j else B ! j)"
      "slot s' p = (slot (st x) p)\<lparr>vc := Some data', vp := None\<rparr>"
      using fv(2) by blast
    have B: "B = buf" and fo: "filling_ok (slot (st x) p) (got x p) buf {}"
      using res d(1) th(4) by (auto simp: pending_def)
    note fk = filled_ok [OF ok fo d(2,3,4) d(5) [unfolded B]]
    show ?thesis using fk d(2) unfolding d(6) by (auto simp: carry_owner_def carry_fill_def through_ok_def)
  qed
  show ?thesis
    by (rule wb_inv_step [where p = p and t = t, OF inv]) (use fv(1) k g(5) th(1) in simp_all)
qed

lemma wb_step_inv:
  assumes "wb_step plen np x y" and inv: "wb_inv plen np x"
  shows "wb_inv plen np y"
  using assms(1)
proof cases
  case (receive p buf off attempts s' nx)
  then show ?thesis using receive_step [OF inv] by simp
next
  case (flush_begin t p s' plan)
  then show ?thesis using flush_begin_step [OF inv] by simp
next
  case (flush_nothing p s' r)
  note n = begin_flush_nothing [OF flush_nothing(2)]
  show ?thesis unfolding flush_nothing(1)
    by (rule wb_inv_shed [OF inv]) (use n(1-3) wb_invD(2) [OF inv] in \<open>simp_all add: shed_def\<close>)
next
  case (flush_io t p plan w ws wo d' r ws' err)
  then show ?thesis using flush_io_step [OF inv] by simp
next
  case (flush_end t p plan err s' r)
  then show ?thesis using flush_end_step(1) [OF inv] by simp
next
  case (flush_locked wo p s' d' r)
  then show ?thesis using flush_locked_step [OF inv] by simp
next
  case (evict victim p flushed s' nx)
  show ?thesis unfolding evict(1)
    by (rule wb_inv_shed [OF inv]) (use evict_done_view [OF evict(2) wb_invD(2) [OF inv]] in simp_all)
next
  case (through_start t p buf off s' plan)
  then show ?thesis using through_start_step [OF inv] by simp
next
  case (through_io t p off buf plan w ws wo d' r ws' err)
  then show ?thesis using through_io_step [OF inv] by simp
next
  case (through_end t p off buf plan err s' r)
  then show ?thesis using through_end_step [OF inv] by simp
next
  case (reject frozen spawned p s')
  then show ?thesis using reject_step [OF inv] by simp
next
  case (complete spawned p)
  show ?thesis unfolding complete(1)
    by (rule wb_inv_shed [OF inv]) (use complete_frame [where b = spawned and s = "st x" and p = p] wb_invD(2) [OF inv] in \<open>simp_all add: shed_def\<close>)
next
  case (fill_start t p len rds gen)
  then show ?thesis using fill_start_step [OF inv] by simp
next
  case (fill_io t p len h pos lo hi rds gen buf b ro bs)
  then show ?thesis using fill_io_step [OF inv] by simp
next
  case (fill_error t p len rds gen buf b e s' r)
  then show ?thesis using fill_end_step [OF inv] by simp
next
  case (fill_end t p len gen buf b s' r)
  then show ?thesis using fill_end_step [OF inv] by simp
next
  case (read_hit p expected n off s' nx)
  then obtain data where d: "cache (st x) p = Some data" by blast
  show ?thesis unfolding read_hit(1)
    by (rule wb_inv_shed [OF inv]) (use read_slot_view(1,2) [OF read_hit(3) wb_invD(2) [OF inv] d] in simp_all)
qed

definition wb_start :: "(nat \<Rightarrow> int) \<Rightarrow> nat \<Rightarrow> wb_state \<Rightarrow> bool" where
  "wb_start plen np x \<longleftrightarrow>
     geometry plen np (st x) (dk x) \<and> cache_inv (st x)
     \<and> (\<forall>p. slot (st x) p = \<lparr>vc = None, vd = False, vs = None, vn = None, vp = None, vf = False, vr = False\<rparr>)
     \<and> (\<forall>t. pcs x t = Idle) \<and> (\<forall>p j. got x p j = None)"

lemma wb_start_inv: "wb_start plen np x \<Longrightarrow> wb_inv plen np x"
  unfolding wb_start_def wb_inv_def by (auto simp: piece_ok_def held_def) (metis option.distinct(1) slot_def slot_view.select_convs(1))

lemma wb_reach_inv:
  assumes "(wb_step plen np)\<^sup>*\<^sup>* x0 x" "wb_start plen np x0"
  shows "wb_inv plen np x"
  using assms by (induction rule: rtranclp_induct) (auto intro: wb_start_inv wb_step_inv)

lemma held_covered:
  assumes ok: "piece_ok n (slot s p) g D" and c: "cache s p \<noteq> None" and nf: "\<not> fill_needed s p off (int k)"
    and j: "off \<le> int j" "int j < off + int k"
  shows "held (slot s p) j"
proof (cases "partial_slots s p")
  case None
  then show ?thesis using c by (simp add: held_def slot_def)
next
  case (Some rs)
  have "normalized rs" using piece_okD(11) [OF ok] Some by (simp add: slot_def spans_ok_def)
  moreover have "ranges_cover rs off (off + int k)" using nf Some by (simp add: fill_needed_def)
  ultimately have "int j \<in> covered rs" using ranges_cover_iff [of rs off "off + int k"] j by auto
  then show ?thesis using c Some by (simp add: held_def slot_def)
qed

lemma slice_at:
  assumes "0 \<le> off" "off \<le> int j" "j < length data" "j < nat off + k"
  shows "nat (int j - off) < length (slice (nat off) (nat off + k) data)" "slice (nat off) (nat off + k) data ! nat (int j - off) = data ! j"
  using assms by (auto simp: slice_def nat_diff_distrib)

lemma files_read_received:
  assumes inv: "wb_inv plen np x" and h: "p < np" "got x p j = Some b" "0 \<le> off" "off \<le> int j" "int j < off + int n"
    and r: "read_enter (st x) p (plen p) n off = Some (ReadFiles rds k)" "\<forall>h pos n. ro h pos n = None"
  shows "\<exists>bs. run_reads ro (dk x) rds (replicate k 0) = Inr bs \<and> bs ! nat (int j - off) = b"
proof -
  note i = wb_invD [OF inv] and g = geometryD [OF wb_invD(1) [OF inv]]
  note ok = i(3) [OF h(1)]
  have jn: "int j < plen p" using piece_okD(1) [OF ok h(2)] .
  have e: "cache (st x) p = None" "k = min (nat (plen p - off)) n" "plan_file_reads (sfiles (st x)) (int p * chunk_length (st x) + off) k = Inr rds"
    using r by (auto simp: read_enter_def read_uncached_def Let_def split: if_splits sum.splits)
  let ?a = "int p * chunk_length (st x) + off"
  have "k \<le> nat (plen p - off)" using e(2) by simp
  then have kp: "int k \<le> plen p - off" using jn h(4) by linarith
  have rng: "0 \<le> ?a" "?a + int (length (replicate k (0 :: u8))) \<le> span_total (sfiles (st x))"
    using g(6) g(10) [OF h(1)] kp h(3) by auto
  obtain ps where ps: "plan_file_reads (sfiles (st x)) ?a k = Inr ps"
    "run_reads ro (dk x) ps (replicate k 0) = Inr (slice (nat ?a) (nat ?a + k) (torrent_image (dk x) (sfiles (st x))))"
    using read_files_image(2) [OF g(4,5) _ rng, of ro] r by auto
  have kj: "j < nat off + k" using e(2) jn h(3,5) by linarith
  have "vs (slot (st x) p) = None" using piece_okD(12) [OF ok] e(1) by (simp add: slot_def)
  then have "on_disk (dk x) (st x) (plen p) p j = b" using piece_okD(3) [OF ok h(2)] by simp
  then have "torrent_image (dk x) (sfiles (st x)) ! nat (?a + (int j - off)) = b" using jn by (simp add: on_disk_def img_def)
  moreover have "nat (?a + (int j - off)) = nat ?a + nat (int j - off)" using rng(1) h(4) by (intro nat_add_distrib) auto
  moreover have "nat (int j - off) < k" using kj h(3,4) by linarith
  moreover have "nat ?a + k \<le> length (torrent_image (dk x) (sfiles (st x)))"
    using image_length [OF g(5)] rng by simp
  ultimately show ?thesis using ps e(3) by (simp add: slice_def)
qed

section \<open>A storage to start from\<close>

text \<open>An attached download with nothing cached.\<close>

definition fresh_storage :: "file_descriptor list \<Rightarrow> int \<Rightarrow> int \<Rightarrow> storage_inner" where
  "fresh_storage fs chunk limit =
     \<lparr>cache = Map.empty, cache_dirty = Map.empty, dirty_spans = Map.empty, flush_new = Map.empty, flushing = {},
      cache_order = new_lru, cache_bytes = 0, max_cache_bytes = limit, completed = Map.empty, startup_pieces = Map.empty,
      startup_saved = Map.empty, preload_pieces = None, stream_demand = Map.empty, stream_lost = Map.empty,
      stream_whole = Map.empty, stream_ranges = Map.empty, stream_revision = 0, chunk_length = chunk, sinfo = None,
      sfiles = fs, attached = True, closed = False, streaming = False, partial_slots = Map.empty,
      saved_partial = Map.empty, flush_err = None, files_gen = 0, evicting = {}, flush_raced = {}, identities = [],
      checkpoint_dirty = False, checkpoint_seq = 0, checkpoint_gen = 0, pending_sync_fds = {}, checkpoint_flushing = False,
      checkpoint_flush_scheduled = False, checkpoint_last_err = None, checkpoint_failures = 0, checkpoint_retry = 0\<rparr>"

definition one_file :: "int \<Rightarrow> file_descriptor list" where
  "one_file n = [\<lparr>fd_file = Some 7, fd_offset = 0, fd_length = n, fd_path = [97], fd_external = False\<rparr>]"

definition fresh_run :: "int \<Rightarrow> int \<Rightarrow> int \<Rightarrow> wb_state" where
  "fresh_run n chunk limit =
     \<lparr>st = fresh_storage (one_file n) chunk limit, dk = (\<lambda>_. replicate (nat n) 0), pcs = (\<lambda>_. Idle), got = (\<lambda>_ _. None), born = (\<lambda>_. 0)\<rparr>"

lemma fresh_start:
  assumes "0 < n" "n \<le> 2 ^ 58"
  shows "wb_start (\<lambda>_. n) 1 (fresh_run n n limit)"
  using assms lru_inv_new
  by (auto simp: wb_start_def fresh_run_def geometry_def fresh_storage_def one_file_def opened_def handle_def span_total_def
      slot_def flag_def cache_inv_def)

lemma fresh_start_4: "wb_start (\<lambda>_. 4) 1 (fresh_run 4 4 9)"
  by (rule fresh_start) simp_all

text \<open>The first steps of the witnesses: a block of two bytes arrives, and the piece is flushed.\<close>

definition run_s1 :: storage_inner where
  "run_s1 = fst (the (write_attempt (st (fresh_run 4 4 9)) 1 0 4 1 [7, 8]))"

definition run_plan :: piece_flush where
  "run_plan = projr (snd (begin_flush run_s1 0))"

definition run_s2 :: storage_inner where
  "run_s2 = fst (begin_flush run_s1 0)"

definition run_x1 :: wb_state where
  "run_x1 = (fresh_run 4 4 9)\<lparr>st := run_s1, got := (\<lambda>_ _. None)(0 := learned (\<lambda>_. None) 1 [7, 8]), born := (\<lambda>_. 0)(0 := 1)\<rparr>"

lemma run_receive: "wb_step (\<lambda>_. 4) 1 (fresh_run 4 4 9) run_x1"
proof -
  have "map_option snd (write_attempt (st (fresh_run 4 4 9)) 1 0 4 1 [7, 8]) = Some (Done (Inr 2))" by code_simp
  then have w: "write_attempt (st (fresh_run 4 4 9)) 1 0 4 1 [7, 8] = Some (run_s1, Done (Inr 2))"
    by (auto simp: run_s1_def)
  have "cache run_s1 0 \<noteq> None" unfolding run_s1_def by code_simp
  then have e: "run_x1 = (fresh_run 4 4 9)\<lparr>st := run_s1,
      got := (case Done (Inr 2) of Done (Inr _) \<Rightarrow> (got (fresh_run 4 4 9))(0 := learned (got (fresh_run 4 4 9) 0) 1 [7, 8]) | _ \<Rightarrow> got (fresh_run 4 4 9)),
      born := (if cache (st (fresh_run 4 4 9)) 0 = None \<and> cache run_s1 0 \<noteq> None then (born (fresh_run 4 4 9))(0 := Suc (born (fresh_run 4 4 9) 0))
        else born (fresh_run 4 4 9))\<rparr>"
    by (simp add: run_x1_def fresh_run_def fresh_storage_def)
  show ?thesis unfolding e
    by (rule wb_step.receive [OF _ _ _ _ _ _ _ w]) (simp_all add: fresh_run_def fresh_storage_def unknown_def)
qed

section \<open>Properties\<close>

text \<open>
  C2: In every interleaving in which a fill from disk ends in the slot it began with and a read finds its
  slot still there (the two exceptions are the subject of theory \<open>WriteBackRaces\<close>), a read gives back the
  received bytes: from a slot that covers the range, with or without waiting for the lock, and from the
  files when the piece has no slot.
\<close>

theorem received_bytes_readable:
  assumes "wb_start plen np x0" and "(wb_step plen np)\<^sup>*\<^sup>* x0 x" and "p < np" and "got x p j = Some b"
    and "0 \<le> off" and "off \<le> int j" and "int j < off + int n"
  shows "(\<forall>bs. read_at_in_memory (st x) p n off = Some bs \<longrightarrow> bs ! nat (int j - off) = b)
    \<and> (\<forall>s' bs. cache (st x) p \<noteq> None \<and> \<not> fill_needed (st x) p off (int n) \<and> read_slot (st x) p (plen p) n off = Some (s', ReadDone (Inr bs))
         \<longrightarrow> nat (int j - off) < length bs \<and> bs ! nat (int j - off) = b)
    \<and> (\<forall>rds k ro. read_enter (st x) p (plen p) n off = Some (ReadFiles rds k) \<and> (\<forall>h pos n. ro h pos n = None)
         \<longrightarrow> (\<exists>bs. run_reads ro (dk x) rds (replicate k 0) = Inr bs \<and> bs ! nat (int j - off) = b))"
proof (intro conjI allI impI)
  have inv: "wb_inv plen np x" using wb_reach_inv assms(1,2) by blast
  note i = wb_invD [OF inv] and g = geometryD [OF wb_invD(1) [OF inv]]
  note ok = i(3) [OF assms(3)]
  have jn: "int j < plen p" using piece_okD(1) [OF ok assms(4)] .
  have val: "data ! j = b \<and> j < length data" if "cache (st x) p = Some data" "\<not> fill_needed (st x) p off (int n)" for data
    using held_covered [OF ok _ that(2) assms(6,7)] piece_okD(2,8) [OF ok] that(1) assms(4) jn by (auto simp: slot_def)
  show "bs ! nat (int j - off) = b" if r: "read_at_in_memory (st x) p n off = Some bs" for bs
  proof -
    obtain data where d: "cache (st x) p = Some data" "bs = slice (nat off) (nat (off + int n)) data" "\<not> fill_needed (st x) p off (int n)"
      using r by (auto simp: read_at_in_memory_def fill_needed_def Let_def split: if_splits option.splits)
    have "nat (off + int n) = nat off + n" using assms(5) by simp
    then show ?thesis using val [OF d(1,3)] slice_at(2) [of off j data n] assms(5-7) d(2) by auto
  qed
  show "nat (int j - off) < length bs" "bs ! nat (int j - off) = b"
    if r: "cache (st x) p \<noteq> None \<and> \<not> fill_needed (st x) p off (int n) \<and> read_slot (st x) p (plen p) n off = Some (s', ReadDone (Inr bs))" for s' bs
  proof -
    obtain data where d: "cache (st x) p = Some data" using r by blast
    have v: "data ! j = b" "j < length data" using val [OF d] r by blast+
    have rs: "read_slot (st x) p (plen p) n off = Some (s', ReadDone (Inr bs))" using r by blast
    have "bs = slice (nat off) (nat off + min (nat (int (length data) - off)) n) data"
      using read_slot_view(3) [OF rs i(2) d] v(2) assms(6) by simp
    then show "nat (int j - off) < length bs" "bs ! nat (int j - off) = b"
      using slice_at [of off j data "min (nat (int (length data) - off)) n"] v r assms(5-7) by auto
  qed
  show "\<exists>bs. run_reads ro (dk x) rds (replicate k 0) = Inr bs \<and> bs ! nat (int j - off) = b"
    if "read_enter (st x) p (plen p) n off = Some (ReadFiles rds k) \<and> (\<forall>h pos n. ro h pos n = None)" for rds k ro
    using files_read_received [OF inv assms(3-7)] that by blast
qed

theorem received_bytes_readable_witness:
  "\<exists>bs. (wb_step (\<lambda>_. 4) 1)\<^sup>*\<^sup>* (fresh_run 4 4 9) run_x1 \<and> read_at_in_memory (st run_x1) 0 2 1 = Some bs \<and> bs ! 1 = 8"
proof -
  have r: "(wb_step (\<lambda>_. 4) 1)\<^sup>*\<^sup>* (fresh_run 4 4 9) run_x1" using run_receive by (rule r_into_rtranclp)
  have "read_at_in_memory run_s1 0 2 1 \<noteq> None" unfolding run_s1_def by code_simp
  then obtain bs where bs: "read_at_in_memory (st run_x1) 0 2 1 = Some bs" by (auto simp: run_x1_def)
  have "got run_x1 0 2 = Some 8" by (simp add: run_x1_def learned_def)
  then have "bs ! 1 = 8"
    using received_bytes_readable [OF fresh_start_4 r, of 0 2 8 1 2] bs by simp
  then show ?thesis using r bs by blast
qed

text \<open>
  C3: In the same interleavings nothing received is only in RAM without being marked for writing: when the slot of a piece is clean
  or gone, the received bytes are on disk. A flush that answers that the piece is clean has put every
  received byte on disk, also the bytes that arrived while it wrote.
\<close>

theorem flushed_bytes_on_disk:
  assumes "wb_start plen np x0" and "(wb_step plen np)\<^sup>*\<^sup>* x0 x" and "p < np" and "got x p j = Some b"
  shows "(\<not> flag (cache_dirty (st x)) p \<or> cache (st x) p = None \<longrightarrow> on_disk (dk x) (st x) (plen p) p j = b)
    \<and> (\<forall>s'. begin_flush (st x) p = (s', Inl (Inr True)) \<longrightarrow> on_disk (dk x) (st x) (plen p) p j = b)
    \<and> (\<forall>t plan err s'. pcs x t = Flushing p plan [] err \<and> finish_flush (st x) p plan (outcome err) = (s', Inr True)
         \<longrightarrow> on_disk (dk x) (st x) (plen p) p j = b)"
proof (intro conjI allI impI)
  have inv: "wb_inv plen np x" using wb_reach_inv assms(1,2) by blast
  note ok = wb_invD(3) [OF inv assms(3)]
  show clean: "on_disk (dk x) (st x) (plen p) p j = b" if "\<not> flag (cache_dirty (st x)) p \<or> cache (st x) p = None"
  proof -
    have "vs (slot (st x) p) = None" using that piece_okD(6,12) [OF ok] by (auto simp: slot_def)
    then show ?thesis using piece_okD(3) [OF ok assms(4)] by simp
  qed
  show "on_disk (dk x) (st x) (plen p) p j = b" if "begin_flush (st x) p = (s', Inl (Inr True))" for s'
    using begin_flush_nothing(4) [OF that] clean by blast
  show "on_disk (dk x) (st x) (plen p) p j = b"
    if "pcs x t = Flushing p plan [] err \<and> finish_flush (st x) p plan (outcome err) = (s', Inr True)" for t plan err s'
    using flush_end_step(2) [OF inv] that assms(4) by blast
qed

theorem flushed_bytes_on_disk_witness:
  "\<exists>x. (wb_step (\<lambda>_. 4) 1)\<^sup>*\<^sup>* (fresh_run 4 4 9) x \<and> snd (finish_flush (st x) 0 run_plan (Inr ())) = Inr True
     \<and> on_disk (dk x) (st x) 4 0 2 = 8"
proof -
  have nl: "\<not> isl (snd (begin_flush (fst (the (write_attempt (st (fresh_run 4 4 9)) 1 0 4 1 [7, 8]))) 0))" by code_simp
  then have b: "begin_flush run_s1 0 = (run_s2, Inr run_plan)"
    by (simp add: run_s2_def run_plan_def run_s1_def prod_eq_iff)
  have "length (pf_writes (projr (snd (begin_flush (fst (the (write_attempt (st (fresh_run 4 4 9)) 1 0 4 1 [7, 8]))) 0)))) = 1"
    by code_simp
  then obtain w where w: "pf_writes run_plan = [w]" by (auto simp: run_plan_def run_s1_def length_Suc_conv)
  have fin: "snd (finish_flush run_s2 0 run_plan (Inr ())) = Inr True"
    unfolding run_s2_def run_plan_def run_s1_def by code_simp
  have nf: "0 \<notin> flushing run_s1" unfolding run_s1_def by code_simp
  let ?x2 = "run_x1\<lparr>st := run_s2, pcs := (pcs run_x1)(0 := Flushing 0 run_plan (pf_writes run_plan) None)\<rparr>"
  have 2: "wb_step (\<lambda>_. 4) 1 run_x1 ?x2"
    by (rule wb_step.flush_begin) (use b nf in \<open>simp_all add: run_x1_def fresh_run_def\<close>)
  obtain d' where d': "flush_write (\<lambda>_ _ _. None) (dk ?x2) [w] = (d', Inr ())"
    by (cases w) (auto simp: write_all_at_def)
  let ?x3 = "?x2\<lparr>dk := d', pcs := (pcs ?x2)(0 := Flushing 0 run_plan [] None)\<rparr>"
  have 3: "wb_step (\<lambda>_. 4) 1 ?x2 ?x3"
    by (rule wb_step.flush_io [where wo = "\<lambda>_ _ _. None" and w = w and ws = "[]" and r = "Inr ()"])
      (use w d' in \<open>simp_all add: after_write_def\<close>)
  have r: "(wb_step (\<lambda>_. 4) 1)\<^sup>*\<^sup>* (fresh_run 4 4 9) ?x3" 
    by (rule converse_rtranclp_into_rtranclp, rule run_receive, rule converse_rtranclp_into_rtranclp, rule 2, rule r_into_rtranclp, rule 3)
  have "got ?x3 0 2 = Some 8" by (simp add: run_x1_def learned_def)
  moreover have "finish_flush (st ?x3) 0 run_plan (outcome None) = (fst (finish_flush run_s2 0 run_plan (Inr ())), Inr True)"
    using fin by (simp add: outcome_def prod_eq_iff)
  ultimately have "on_disk (dk ?x3) (st ?x3) 4 0 2 = 8"
    using flushed_bytes_on_disk [OF fresh_start_4 r, of 0 2 8] by fastforce
  then show ?thesis using r fin by (intro exI [of _ ?x3]) simp
qed

end
