(* ===== verification/WriteBackRaces.thy ===== *)
theory WriteBackRaces
  imports WriteBackSteps
begin

text \<open>
  Two interleavings of the storage threads that the source does not guard against. A fill from disk that
  overlaps the eviction of its slot puts stale bytes into the next slot of the piece; and a read whose slot
  is evicted while it fills puts the piece back into the recency list without a slot, after which the
  eviction loop need not end. The steps of theory \<open>WriteBackSteps\<close> exclude exactly these two: a fill
  ends in the slot it began with, and a read touches the recency list only while the piece is cached.
\<close>

section \<open>Operations run to their end\<close>

definition receive_block :: "storage_inner \<Rightarrow> nat \<Rightarrow> int \<Rightarrow> int \<Rightarrow> bytes \<Rightarrow> storage_inner option" where
  "receive_block s p n off buf = (case write_attempt s 1 p n off buf of Some (s', Done (Inr _)) \<Rightarrow> Some s' | _ \<Rightarrow> None)"

definition flush_now :: "storage_inner \<Rightarrow> disk \<Rightarrow> nat \<Rightarrow> (storage_inner \<times> disk) option" where
  "flush_now s d p = (case flush_piece_unlocked (\<lambda>_ _ _. None) s d p of (s', d', Inr True) \<Rightarrow> Some (s', d') | _ \<Rightarrow> None)"

definition fill_plan :: "storage_inner \<Rightarrow> nat \<Rightarrow> (nat \<times> (nat \<times> nat \<times> nat \<times> nat) list \<times> nat) option" where
  "fill_plan s p = (case fill_begin s p of Inr r \<Rightarrow> Some r | Inl _ \<Rightarrow> None)"

definition fill_reads :: "disk \<Rightarrow> nat \<Rightarrow> (nat \<times> nat \<times> nat \<times> nat) list \<Rightarrow> bytes option" where
  "fill_reads d len rds = (case run_reads (\<lambda>_ _ _. None) d rds (replicate len 0) of Inr b \<Rightarrow> Some b | Inl _ \<Rightarrow> None)"

section \<open>A stale fill\<close>

text \<open>
  C38: \<open>fill_partial_slot_unlocked\<close> does not notice that its slot was evicted and made again while it read
  the disk. Let a fill begin in any state and read its \<open>copy\<close> of the piece. If, when it takes the lock again, the
  piece has a partial slot of the same length that lacks the range \<open>off..off + n\<close>, then the fill succeeds, the slot
  counts as complete, and every later read of that range from RAM returns the copy, whatever the disk holds
  by then. So when a block was received into that range and flushed in between, so that reading the same plan
  again gives other bytes, RAM serves bytes that are not those received.
\<close>

theorem fill_race:
  assumes "fill_begin s0 p = Inr (len, rds, gen)"
    and "run_reads ro d0 rds (replicate len 0) = Inr copy" and "length copy = len"
    and "run_reads ro d rds (replicate len 0) = Inr now" and "slice off (off + n) now \<noteq> slice off (off + n) copy"
    and "\<not> closed s" and "files_gen s = gen" and "\<not> flag (stream_lost s) p"
    and "cache s p = Some buf" and "length buf = len"
    and "partial_slots s p = Some kept" and "normalized kept" and "\<forall>r\<in>set kept. rend r \<le> int len"
    and "off + n \<le> len" and "\<forall>j. off \<le> j \<and> j < off + n \<longrightarrow> int j \<notin> covered kept"
  shows "\<exists>s'. fill_finish s p len gen (Inr copy) = (s', Inr ()) \<and> partial_slots s' p = None
    \<and> read_at_in_memory s' p n (int off) = Some (slice off (off + n) copy)
    \<and> read_at_in_memory s' p n (int off) \<noteq> Some (slice off (off + n) now)"
proof -
  let ?data = "fill_gaps buf copy 0 (map (\<lambda>r. (nat (rstart r), nat (rend r))) kept @ [(len, len)])"
  have "\<forall>r\<in>set kept. int 0 \<le> rstart r \<and> rend r \<le> int len"
    using assms(12,13) by (auto simp: normalized_def valid_range_def)
  from fill_gaps_nth [OF assms(12) this assms(10,3)]
  have data: "length ?data = len" "\<forall>j < len. ?data ! j = (if int j \<in> covered kept then buf ! j else copy ! j)" by simp_all
  have "slice off (off + n) ?data = slice off (off + n) copy"
  proof (rule nth_equalityI)
    show "length (slice off (off + n) ?data) = length (slice off (off + n) copy)"
      using data(1) assms(3) by (simp add: slice_def)
    show "slice off (off + n) ?data ! i = slice off (off + n) copy ! i" if i: "i < length (slice off (off + n) ?data)" for i
    proof -
      have "i < n" using i by (simp add: slice_def)
      then have "int (off + i) \<notin> covered kept" by (intro assms(15) [rule_format]) simp
      then show ?thesis using \<open>i < n\<close> data assms(3,14) by (simp add: slice_def)
    qed
  qed
  then show ?thesis
    using assms(5-11,14) data(1) by (auto simp: fill_finish_def read_at_in_memory_def Let_def simp flip: of_nat_add)
qed

text \<open>
  The run of the witness has room for one slot of four bytes. A read of piece 0 flushes it and reads its bytes
  from disk; before it takes the lock again, a second block of the piece arrives and is saved, the slot is
  given to piece 1 and back to piece 0 for a third block. The result is the state before the fill began, its plan and
  copy, and the state and disk when it takes the lock again.
\<close>

definition fill_race_run ::
  "(storage_inner \<times> (nat \<times> (nat \<times> nat \<times> nat \<times> nat) list \<times> nat) \<times> disk \<times> storage_inner \<times> disk) option" where
  "fill_race_run = do {
     s \<leftarrow> receive_block (fresh_storage (one_file 8) 4 4) 0 4 0 [1];
     (s0, d0) \<leftarrow> flush_now s (\<lambda>_. replicate 8 0) 0;
     plan \<leftarrow> fill_plan s0 0;
     s \<leftarrow> receive_block s0 0 4 2 [5, 6];
     (s, d) \<leftarrow> flush_now s d0 0;
     s \<leftarrow> receive_block s 1 4 0 [9];
     (s, d) \<leftarrow> flush_now s d 1;
     s \<leftarrow> receive_block s 0 4 1 [2];
     Some (s0, plan, d0, s, d) }"

lemma fill_race_state:
  "case fill_race_run of None \<Rightarrow> False | Some (s0, (len, rds, gen), d0, s, d) \<Rightarrow>
     fill_plan s0 0 = Some (len, rds, gen) \<and> len = 4
     \<and> fill_reads d0 len rds = Some [1, 0, 0, 0] \<and> fill_reads d len rds = Some [1, 0, 5, 6]
     \<and> \<not> closed s \<and> files_gen s = gen \<and> \<not> flag (stream_lost s) 0 \<and> map_option length (cache s 0) = Some 4
     \<and> partial_slots s 0 = Some [\<lparr>rstart = 1, rend = 2\<rparr>]"
  by code_simp

theorem fill_race_witness:
  "\<exists>s0 len rds gen d0 s d s'. fill_race_run = Some (s0, (len, rds, gen), d0, s, d)
     \<and> fill_reads d len rds = Some [1, 0, 5, 6]
     \<and> fill_finish s 0 len gen (Inr [1, 0, 0, 0]) = (s', Inr ()) \<and> read_at_in_memory s' 0 2 2 = Some [0, 0]"
proof -
  obtain x where x: "fill_race_run = Some x" using fill_race_state by (cases fill_race_run) simp_all
  obtain s0 plan d0 s d where "x = (s0, plan, d0, s, d)" by (rule prod_cases5)
  moreover obtain len rds gen where "plan = (len, rds, gen)" by (rule prod_cases3)
  ultimately have run: "fill_race_run = Some (s0, (len, rds, gen), d0, s, d)" using x by simp
  have st: "fill_plan s0 0 = Some (len, rds, gen)" "len = 4" "fill_reads d0 len rds = Some [1, 0, 0, 0]"
      "fill_reads d len rds = Some [1, 0, 5, 6]" "\<not> closed s" "files_gen s = gen" "\<not> flag (stream_lost s) 0"
      "map_option length (cache s 0) = Some 4" "partial_slots s 0 = Some [\<lparr>rstart = 1, rend = 2\<rparr>]"
    using fill_race_state unfolding run by auto
  obtain buf where buf: "cache s 0 = Some buf" "length buf = len" using st(2,8) by auto
  have plan: "fill_begin s0 0 = Inr (len, rds, gen)"
    using st(1) by (auto simp: fill_plan_def split: sum.splits)
  have reads: "run_reads (\<lambda>_ _ _. None) d0 rds (replicate len 0) = Inr [1, 0, 0, 0]"
      "run_reads (\<lambda>_ _ _. None) d rds (replicate len 0) = Inr [1, 0, 5, 6]"
    using st(3,4) by (auto simp: fill_reads_def split: sum.splits)
  have "\<exists>s'. fill_finish s 0 len gen (Inr [1, 0, 0, 0]) = (s', Inr ()) \<and> partial_slots s' 0 = None
    \<and> read_at_in_memory s' 0 2 (int 2) = Some (slice 2 (2 + 2) [1, 0, 0, 0])
    \<and> read_at_in_memory s' 0 2 (int 2) \<noteq> Some (slice 2 (2 + 2) [1, 0, 5, 6])"
    by (rule fill_race [OF plan reads(1) _ reads(2) _ st(5-7) buf st(9)])
      (auto simp: st(2) slice_def normalized_def valid_range_def covered_def span_set_def)
  then show ?thesis using run st(4) by (fastforce simp: slice_def)
qed

section \<open>A recency entry without a slot\<close>

lemma evict_clean_stuck:
  assumes L: "lru_inv (cache_order s)" and full: "cache_bytes s + e > max_cache_bytes s"
    and v: "(case find (clean_victim s i True) (order (cache_order s)) of Some p \<Rightarrow> Some p
       | None \<Rightarrow> find (clean_victim s i False) (order (cache_order s))) = Some k"
    and c: "cache s (as_usize k) = None"
  shows "evict_clean fuel s i e = None"
proof (induction fuel)
  case 0
  then show ?case using full by (subst evict_clean.simps) simp
next
  case (Suc fuel)
  have "drop_cache_locked s (as_usize k) = Some s" using c by (simp add: drop_cache_locked_def)
  then show ?case using full v Suc.IH
    by (subst evict_clean.simps) (auto simp: lru.scan_law [OF L] split: option.splits)
qed

text \<open>
  C39: The eviction loop of \<open>ensure_cache_slot_locked\<close> can run forever. When a piece without a slot is
  touched, as \<open>read_piece_data_unlocked\<close> does if the slot was evicted while it was filled, and every
  cached piece is dirty or being flushed, a request for room picks that piece as its clean victim in every
  turn and never frees a byte; the storage lock is held all along.
\<close>

theorem stale_recency_never_ends:
  assumes "cache_inv s" and "cache s p = None" and "\<not> unsaved s p" and "p < 2147483648"
    and "read_slot s p len n off = Some (s', nx)"
    and "\<forall>q. cache s q \<noteq> None \<longrightarrow> unsaved s q"
    and "cache s index = None" and "index \<noteq> p" and "cache_bytes s + expected > max_cache_bytes s"
  shows "evict_clean fuel s' index expected = None \<and> ensure_cache_slot_locked s' index expected = None"
proof -
  note L = cache_inv_lru [OF assms(1)]
  have pk: "as_i32 p = int p" "as_usize (int p) = p" using assms(4) by (simp_all add: as_i32_id as_usize_id)
  have notin: "int p \<notin> set (order (cache_order s))" using cache_inv_keyD(3) [OF assms(1), of "int p"] assms(2) by auto
  obtain ord where ord: "touch (cache_order s) (int p) = Some ord" "lru_inv ord" "order ord = order (cache_order s) @ [int p]"
    using lru.touch_law [OF L, of "int p"] notin by (auto simp: remove1_idem)
  have s': "s' = s\<lparr>cache_order := ord\<rparr>" using assms(5) ord(1) pk by (simp add: read_slot_def Let_def)
  have cv: "clean_victim s' index b = clean_victim s index b" for b unfolding s' by (simp add: clean_victim_def fun_eq_iff)
  have old: "\<not> clean_victim s index b k" if "k \<in> set (order (cache_order s))" for b k
    using cache_inv_keyD [OF assms(1) that] assms(6) clean_victim_not_unsaved [of s index b k] by auto
  then have skip: "find (clean_victim s index b) (order (cache_order s)) = None" for b by (auto simp: find_None_iff)
  have here: "clean_victim s index False (int p)" using assms(3,8) pk by (auto simp: clean_victim_def unsaved_def Let_def)
  have app: "find P (xs @ [k]) = (case find P xs of Some y \<Rightarrow> Some y | None \<Rightarrow> if P k then Some k else None)" for P xs and k :: int
    by (induction xs) auto
  have v: "(case find (clean_victim s' index True) (order (cache_order s')) of Some p \<Rightarrow> Some p
       | None \<Rightarrow> find (clean_victim s' index False) (order (cache_order s'))) = Some (int p)"
    unfolding cv by (simp add: s' ord(3) app skip here)
  have stuck: "evict_clean fuel s' index expected = None" for fuel
    by (rule evict_clean_stuck [OF _ _ v]) (use ord(2) assms(2,9) pk in \<open>simp_all add: s'\<close>)
  then have "make_slot s' index expected = None" by (simp add: make_slot_def)
  then show ?thesis using stuck assms(7) by (simp add: ensure_cache_slot_cases s')
qed

text \<open>
  The run of the witness: piece 0 is read while it is incomplete; while its missing bytes are read from
  disk, a block of piece 1 takes the only slot.
\<close>

definition stale_run :: "storage_inner option" where
  "stale_run = do {
     s \<leftarrow> receive_block (fresh_storage (one_file 12) 4 4) 0 4 0 [1];
     (s, d) \<leftarrow> flush_now s (\<lambda>_. replicate 12 0) 0;
     (len, rds, gen) \<leftarrow> fill_plan s 0;
     copy \<leftarrow> fill_reads d len rds;
     s \<leftarrow> receive_block s 1 4 0 [9];
     Some (fst (fill_finish s 0 len gen (Inr copy))) }"

lemma receive_block_inv:
  assumes r: "receive_block s p n off buf = Some s'" and inv: "cache_inv s" and m: "\<not> closed s" "\<not> streaming s"
    and p: "p < 2147483648" "0 \<le> n" and len: "\<forall>data. cache s p = Some data \<longrightarrow> int (length data) = n"
  shows "cache_inv s' \<and> fixed s s'"
proof -
  obtain k where "write_attempt s 1 p n off buf = Some (s', Done (Inr k))"
    using r by (auto simp: receive_block_def split: option.splits prod.splits write_next.splits sum.splits)
  then show ?thesis using m(1)
  proof (cases rule: write_attempt_forms)
    case (1 s1 c)
    note e = ensure_slot_view [OF 1(1) inv p len]
    obtain data where d: "cache s1 p = Some data" using e by (cases c) (auto simp: slot_def)
    have "\<not> streaming s1" using e m(2) by (simp add: fixed_def)
    then show ?thesis using store_block_view [OF 1(2) _ d] e fixed_trans by blast
  next
    case (2 s1 r)
    then show ?thesis by blast
  qed
qed

lemma flush_now_inv:
  assumes f: "flush_now s d p = Some (s', d')" and inv: "cache_inv s" and m: "\<not> closed s"
  shows "cache_inv s' \<and> fixed s s'"
proof (cases "begin_flush s p")
  case (Pair s1 r)
  show ?thesis
  proof (cases r)
    case (Inl x)
    then have "s' = s1" using f Pair by (auto simp: flush_now_def flush_piece_unlocked_def split: sum.splits bool.splits)
    then show ?thesis using begin_flush_nothing [OF Pair [unfolded Inl]] inv by simp
  next
    case (Inr plan)
    obtain data where b: "pf_gen plan = files_gen s" "fixed s s1" "cache_inv s1 = cache_inv s"
      using begin_flush_plan [OF Pair [unfolded Inr]] by blast
    obtain w r' where fin: "finish_flush s1 p plan w = (s', r')"
      using f Pair Inr by (auto simp: flush_now_def flush_piece_unlocked_def split: prod.splits sum.splits bool.splits)
    have "\<not> closed s1" "pf_gen plan = files_gen s1" using b m by (simp_all add: fixed_def)
    from finish_flush_view(1) [OF fin this] show ?thesis using b(2,3) inv fixed_trans by blast
  qed
qed

lemma fill_finish_gone: "cache s p = None \<Longrightarrow> fst (fill_finish s p len gen res) = s"
  by (simp add: fill_finish_def split: sum.split option.split)


lemma stale_run_slots:
  "do { s1 \<leftarrow> receive_block (fresh_storage (one_file 12) 4 4) 0 4 0 [1];
        (s2, d) \<leftarrow> flush_now s1 (\<lambda>_. replicate 12 0) 0;
        s3 \<leftarrow> receive_block s2 1 4 0 [9];
        Some (cache s2 1, cache s3 0) } = Some (None, None)"
  by code_simp

lemma fresh_storage_inv: "cache_inv (fresh_storage fs chunk limit)"
  using lru_inv_new by (simp add: fresh_storage_def cache_inv_def)

lemma stale_run_inv:
  assumes "stale_run = Some s"
  shows "cache_inv s"
proof -
  let ?s = "fresh_storage (one_file 12) 4 4"
  obtain s1 s2 d2 s3 len rds gen copy where r1: "receive_block ?s 0 4 0 [1] = Some s1"
    and r2: "flush_now s1 (\<lambda>_. replicate 12 0) 0 = Some (s2, d2)" and r3: "receive_block s2 1 4 0 [9] = Some s3"
    and s: "s = fst (fill_finish s3 0 len gen (Inr copy))"
    using assms by (auto simp: stale_run_def bind_eq_Some_conv split: prod.splits)
  have c: "cache s2 1 = None" "cache s3 0 = None" using stale_run_slots r3 by (simp_all add: r1 r2)
  have s0: "\<not> closed ?s" "\<not> streaming ?s" "cache ?s 0 = None" by (simp_all add: fresh_storage_def)
  have i1: "cache_inv s1" "fixed ?s s1" using receive_block_inv [OF r1 fresh_storage_inv s0(1,2)] s0(3) by auto
  then have i2: "cache_inv s2" "fixed s1 s2" using flush_now_inv [OF r2] s0 by (auto simp: fixed_def)
  then have "\<not> closed s2" "\<not> streaming s2" using i1(2) s0 by (auto simp: fixed_def)
  then have "cache_inv s3" using receive_block_inv [OF r3 i2(1)] c(1) by auto
  then show ?thesis using c(2) by (simp add: s fill_finish_gone)
qed

lemma stale_run_state:
  "case stale_run of None \<Rightarrow> False | Some s \<Rightarrow> cache s 0 = None \<and> \<not> unsaved s 0 \<and> order (cache_order s) = [1] \<and> unsaved s 1
     \<and> cache s 2 = None \<and> cache_bytes s + 4 > max_cache_bytes s \<and> (case read_slot s 0 4 4 0 of None \<Rightarrow> False | Some _ \<Rightarrow> True)"
  by code_simp

theorem stale_recency_never_ends_witness:
  "\<exists>s s' nx. stale_run = Some s \<and> read_slot s 0 4 4 0 = Some (s', nx) \<and> ensure_cache_slot_locked s' 2 4 = None"
proof -
  obtain s where s: "stale_run = Some s" and f: "cache s 0 = None" "\<not> unsaved s 0" "order (cache_order s) = [1]" "unsaved s 1"
      "cache s 2 = None" "cache_bytes s + 4 > max_cache_bytes s" and "read_slot s 0 4 4 0 \<noteq> None"
    using stale_run_state by (cases stale_run) (auto split: option.splits)
  then obtain s' nx where rd: "read_slot s 0 4 4 0 = Some (s', nx)" by auto
  note inv = stale_run_inv [OF s]
  have "\<forall>q. cache s q \<noteq> None \<longrightarrow> unsaved s q"
    using cache_inv_cached [OF inv] f(3,4) by auto
  then have "ensure_cache_slot_locked s' 2 4 = None"
    using stale_recency_never_ends [OF inv f(1,2) _ rd _ f(5) _ f(6)] by auto
  then show ?thesis using s rd by blast
qed

end
