(* ===== verification/CheckpointDrain.thy ===== *)
theory CheckpointDrain
  imports WriteBack Checkpoint
begin

text \<open>
  Making completed pieces durable (\<^verbatim>\<open>wt-storage/src/storage/checkpoint_flush.rs\<close>, with the callers in
  \<^verbatim>\<open>storage.rs\<close> and the loading side in \<^verbatim>\<open>storage/write_back.rs\<close>): a drain takes a snapshot of
  the completion bits and of the files that need a sync under the storage lock, syncs and writes the
  checkpoint without it, and looks at the generations again before it reports the result. The hooks that
  only tests install are left out. The outcomes of the system calls are parameters.
\<close>

section \<open>The phases of a drain\<close>

record identity_snapshot =
  is_file :: "nat option"
  is_identity :: file_identity

text \<open>\<open>FileIdentitySnapshot::new\<close>; \<open>dup\<close> is how duplicating a descriptor ends.\<close>

definition snapshot_new :: "(nat \<Rightarrow> string option) \<Rightarrow> file_descriptor \<Rightarrow> string + identity_snapshot" where
  "snapshot_new dup f =
     (let bare = bare_identity (fd_external f) (fd_length f) (fd_path f) in
      case fd_file f of
        None \<Rightarrow> Inr \<lparr>is_file = None, is_identity = bare\<rparr>
      | Some h \<Rightarrow> (case dup h of Some e \<Rightarrow> Inl e | None \<Rightarrow> Inr \<lparr>is_file = Some h, is_identity = bare\<rparr>))"

primrec snapshots :: "(nat \<Rightarrow> string option) \<Rightarrow> file_descriptor list \<Rightarrow> string + identity_snapshot list" where
  "snapshots dup [] = Inr []"
| "snapshots dup (f # fs) =
     (case snapshot_new dup f of
        Inl e \<Rightarrow> Inl e
      | Inr i \<Rightarrow> (case snapshots dup fs of Inl e \<Rightarrow> Inl e | Inr is \<Rightarrow> Inr (i # is)))"

definition capture :: "(nat \<Rightarrow> metadata option) \<Rightarrow> identity_snapshot \<Rightarrow> file_identity" where
  "capture stat i =
     (case is_file i of
        Some h \<Rightarrow> fst (identity_from_file (stat h) (id_external (is_identity i)) (id_length (is_identity i)) (id_path (is_identity i)))
      | None \<Rightarrow> is_identity i)"

record drain_snapshot =
  ds_gen :: nat
  ds_seq :: nat
  ds_checkpoint :: "(piece_checkpoint \<times> nat \<times> identity_snapshot list) option"
  ds_syncs :: "(nat \<times> (string + nat option)) list"

definition completion_bits :: "storage_inner \<Rightarrow> nat \<Rightarrow> bool list" where
  "completion_bits s n = map (flag (completed s)) [0..<n]"

definition take_checkpoint :: "(nat \<Rightarrow> string option) \<Rightarrow> bytes \<Rightarrow> storage_inner
    \<Rightarrow> string + (piece_checkpoint \<times> nat \<times> identity_snapshot list) option" where
  "take_checkpoint dup info_hash s =
     (if checkpoint_dirty s \<and> \<not> streaming s
      then case sinfo s of
        None \<Rightarrow> Inr None
      | Some info \<Rightarrow>
          (let n = num_pieces info in
           case snapshots dup (sfiles s) of
             Inl e \<Rightarrow> Inl e
           | Inr fs \<Rightarrow>
               Inr (Some (\<lparr>cp_info_hash = info_hash, cp_piece_length = chunk_length s, cp_num_pieces = n,
                           cp_files = [], cp_complete = completion_bits s n\<rparr>, files_gen s, fs)))
      else Inr None)"

text \<open>The descriptor to sync for one pending number: gone from the storage, duplicated, or not.\<close>

definition sync_source :: "(nat \<Rightarrow> string option) \<Rightarrow> file_descriptor list \<Rightarrow> nat \<Rightarrow> nat \<times> (string + nat option)" where
  "sync_source dup fs fd =
     (fd, case find (\<lambda>h. h = fd) (List.map_filter fd_file fs) of
            None \<Rightarrow> Inr None
          | Some h \<Rightarrow> (case dup h of Some e \<Rightarrow> Inl e | None \<Rightarrow> Inr (Some h)))"

text \<open>Phase 1. \<open>draining\<close> is the order in which the set of pending descriptors is emptied.\<close>

definition drain_begin :: "(nat \<Rightarrow> string option) \<Rightarrow> (nat set \<Rightarrow> nat list) \<Rightarrow> bytes \<Rightarrow> storage_inner
    \<Rightarrow> storage_inner \<times> (bool + drain_snapshot)" where
  "drain_begin dup draining info_hash s =
     (if closed s \<or> \<not> attached s then (s, Inl True)
      else case take_checkpoint dup info_hash s of
        Inl e \<Rightarrow> (s\<lparr>checkpoint_last_err := Some e\<rparr>, Inl False)
      | Inr cp \<Rightarrow>
          (s\<lparr>pending_sync_fds := {}\<rparr>,
           Inr \<lparr>ds_gen = checkpoint_gen s, ds_seq = checkpoint_seq s, ds_checkpoint = cp,
                ds_syncs = map (sync_source dup (sfiles s)) (draining (pending_sync_fds s))\<rparr>))"

text \<open>Phase 2: one sync, and what happens when one of them failed.\<close>

definition sync_one :: "(nat \<Rightarrow> string option) \<Rightarrow> string + nat option \<Rightarrow> string option" where
  "sync_one sync_all src =
     (case src of Inl e \<Rightarrow> Some e | Inr None \<Rightarrow> None | Inr (Some h) \<Rightarrow> sync_all h)"

primrec sync_loop :: "(nat \<Rightarrow> string option) \<Rightarrow> (nat \<times> (string + nat option)) list \<Rightarrow> nat list \<Rightarrow> string option
    \<Rightarrow> nat list \<times> string option" where
  "sync_loop sync_all [] failed err = (failed, err)"
| "sync_loop sync_all (x # xs) failed err =
     (case sync_one sync_all (snd x) of
        None \<Rightarrow> sync_loop sync_all xs failed err
      | Some e \<Rightarrow> sync_loop sync_all xs (failed @ [fst x]) (Some e))"

definition sync_failed :: "nat list \<Rightarrow> string \<Rightarrow> storage_inner \<Rightarrow> storage_inner" where
  "sync_failed failed err s = s\<lparr>pending_sync_fds := pending_sync_fds s \<union> set failed, checkpoint_last_err := Some err\<rparr>"

text \<open>Phase 3: the identities are those of the snapshot; \<open>Inl\<close> ends the drain.\<close>

definition drain_check :: "nat \<Rightarrow> nat \<Rightarrow> file_identity list \<Rightarrow> storage_inner \<Rightarrow> storage_inner \<times> (bool + unit)" where
  "drain_check gen fgen ids s =
     (if closed s \<or> \<not> attached s \<or> checkpoint_gen s \<noteq> gen then (s, Inl True)
      else if files_gen s \<noteq> fgen then (s, Inl False)
      else (s\<lparr>identities := ids\<rparr>, Inr ()))"

text \<open>Phase 5, after the checkpoint has been written or not.\<close>

definition drain_finish :: "nat \<Rightarrow> nat \<Rightarrow> nat \<Rightarrow> storage_error + unit \<Rightarrow> string option \<Rightarrow> fpath \<Rightarrow> string
    \<Rightarrow> storage_inner \<Rightarrow> file_system \<Rightarrow> storage_inner \<times> file_system \<times> bool" where
  "drain_finish gen fgen seq written del_err base hash_hex s fs =
     (if checkpoint_gen s \<noteq> gen \<or> files_gen s \<noteq> fgen
      then (s\<lparr>checkpoint_last_err := Some (case written of
                Inl e \<Rightarrow> error_text e
              | Inr _ \<Rightarrow> ''checkpoint publish aborted: generation changed'')\<rparr>,
            fst (delete_piece_checkpoint del_err fs base hash_hex), True)
      else case written of
        Inr _ \<Rightarrow> (s\<lparr>checkpoint_dirty := (checkpoint_dirty s \<and> checkpoint_seq s \<noteq> seq), checkpoint_last_err := None\<rparr>, fs, True)
      | Inl e \<Rightarrow> (s\<lparr>checkpoint_last_err := Some (error_text e)\<rparr>, fs, False))"

text \<open>
  A whole drain that no other thread interrupts. \<open>dirty\<close> lists the dirty pieces when they are to be
  flushed first. \<open>None\<close> is a panic.
\<close>

record drain_calls =
  dc_dup :: "nat \<Rightarrow> string option"
  dc_draining :: "nat set \<Rightarrow> nat list"
  dc_write :: write_outcome
  dc_sync :: "nat \<Rightarrow> string option"
  dc_stat :: "nat \<Rightarrow> metadata option"
  dc_file :: write_calls
  dc_delete :: "string option"

definition flush_first :: "write_outcome \<Rightarrow> nat list option \<Rightarrow> storage_inner \<Rightarrow> disk \<Rightarrow> (storage_inner \<times> disk) option" where
  "flush_first wo dirty s d =
     (if closed s \<or> \<not> attached s then Some (s, d)
      else case dirty of
        None \<Rightarrow> Some (s, d)
      | Some is \<Rightarrow> map_option (\<lambda>(s, d, _). (s, d)) (flush_all_dirty_locked wo s d is))"

definition publish :: "drain_calls \<Rightarrow> drain_snapshot \<Rightarrow> fpath \<Rightarrow> string \<Rightarrow> storage_inner \<Rightarrow> file_system
    \<Rightarrow> (storage_inner \<times> file_system \<times> bool) option" where
  "publish c snap base hash_hex s fs =
     (case ds_checkpoint snap of
        None \<Rightarrow> Some (s, fs, True)
      | Some (cp, fgen, ids) \<Rightarrow>
          (let cp = cp\<lparr>cp_files := map (capture (dc_stat c)) ids\<rparr> in
           case drain_check (ds_gen snap) fgen (cp_files cp) s of
             (s, Inl r) \<Rightarrow> Some (s, fs, r)
           | (s, Inr _) \<Rightarrow>
               (case write_piece_checkpoint (dc_file c) fs (checkpoint_path base hash_hex) cp of
                  None \<Rightarrow> None
                | Some (fss, written) \<Rightarrow>
                    Some (drain_finish (ds_gen snap) fgen (ds_seq snap) written (dc_delete c) base hash_hex s (last fss)))))"

definition drain_sync_and_checkpoint_with :: "drain_calls \<Rightarrow> nat list option \<Rightarrow> bytes \<Rightarrow> fpath \<Rightarrow> string
    \<Rightarrow> storage_inner \<Rightarrow> disk \<Rightarrow> file_system \<Rightarrow> (storage_inner \<times> disk \<times> file_system \<times> bool) option" where
  "drain_sync_and_checkpoint_with c dirty info_hash base hash_hex s d fs =
     (case flush_first (dc_write c) dirty s d of
        None \<Rightarrow> None
      | Some (s, d) \<Rightarrow>
          (case drain_begin (dc_dup c) (dc_draining c) info_hash s of
             (s, Inl r) \<Rightarrow> Some (s, d, fs, r)
           | (s, Inr snap) \<Rightarrow>
               (case sync_loop (dc_sync c) (ds_syncs snap) [] None of
                  (failed, Some e) \<Rightarrow> Some (sync_failed failed e s, d, fs, False)
                | (_, None) \<Rightarrow> map_option (\<lambda>(s, fs, r). (s, d, fs, r)) (publish c snap base hash_hex s fs))))"

section \<open>Who runs drains\<close>

definition scheduled_begin :: "storage_inner \<Rightarrow> storage_inner \<times> bool" where
  "scheduled_begin s =
     (let s = s\<lparr>checkpoint_flush_scheduled := False\<rparr> in
      if closed s \<or> \<not> attached s \<or> streaming s \<or> checkpoint_flushing s then (s, False)
      else if \<not> checkpoint_dirty s \<and> pending_sync_fds s = {} then (s, False)
      else (s\<lparr>checkpoint_flushing := True\<rparr>, True))"

text \<open>The retry delay doubles from 100 ms with every failure in a row, up to 3.2 s.\<close>

definition retry_delay :: "nat \<Rightarrow> duration" where
  "retry_delay failures = min (100000000 * 2 ^ min (failures - 1) 5) 30000000000"

definition scheduled_end :: "bool \<Rightarrow> bool \<Rightarrow> storage_inner \<Rightarrow> storage_inner" where
  "scheduled_end spawned ok s =
     (let s = s\<lparr>checkpoint_flushing := False\<rparr> in
      if closed s then s
      else
        let s = (if ok then s\<lparr>checkpoint_failures := 0, checkpoint_retry := 0\<rparr>
                 else s\<lparr>checkpoint_failures := checkpoint_failures s + 1,
                        checkpoint_retry := retry_delay (checkpoint_failures s + 1)\<rparr>)
        in schedule_checkpoint_flush_locked spawned s)"

text \<open>\<open>wait_checkpoint_idle_locked\<close> returns in such a state; \<open>mark_verified\<close> and \<open>close\<close> wait for it.\<close>

definition checkpoint_idle :: "storage_inner \<Rightarrow> bool" where
  "checkpoint_idle s \<longleftrightarrow> \<not> checkpoint_flushing s"

definition mark_verified_begin :: "storage_inner \<Rightarrow> storage_inner" where
  "mark_verified_begin s = (bump_checkpoint s)\<lparr>checkpoint_flushing := True\<rparr>"

definition drain_now_end :: "storage_inner \<Rightarrow> storage_inner" where
  "drain_now_end s = s\<lparr>checkpoint_flushing := False\<rparr>"

definition delete_checkpoint_locked :: "storage_inner \<Rightarrow> storage_inner" where
  "delete_checkpoint_locked s =
     s\<lparr>checkpoint_dirty := False, identities := [], checkpoint_last_err := None,
       checkpoint_gen := (checkpoint_gen s + 1) mod 2 ^ 64\<rparr>"

text \<open>The last part of \<open>close\<close>, once the drain is over.\<close>

definition close_finish :: "storage_inner \<Rightarrow> storage_inner" where
  "close_finish s =
     s\<lparr>closed := True, evicting := {}, checkpoint_gen := (checkpoint_gen s + 1) mod 2 ^ 64,
       sfiles := map (\<lambda>f. f\<lparr>fd_file := None\<rparr>) (sfiles s), files_gen := (files_gen s + 1) mod 2 ^ 64,
       attached := False, cache := Map.empty, cache_dirty := Map.empty, completed := Map.empty, cache_bytes := 0,
       dirty_spans := Map.empty, flush_new := Map.empty, partial_slots := Map.empty, saved_partial := Map.empty,
       cache_order := reset (cache_order s), stream_revision := (stream_revision s + 1) mod 2 ^ 64\<rparr>"

section \<open>Starting again\<close>

definition capture_identities_locked :: "(nat \<Rightarrow> metadata option) \<Rightarrow> storage_inner \<Rightarrow> storage_inner" where
  "capture_identities_locked stat s =
     s\<lparr>identities := map (\<lambda>f. case fd_file f of
         Some h \<Rightarrow> fst (identity_from_file (stat h) (fd_external f) (fd_length f) (fd_path f))
       | None \<Rightarrow> bare_identity (fd_external f) (fd_length f) (fd_path f)) (sfiles s)\<rparr>"

text \<open>\<open>None\<close> is an index out of range.\<close>

definition piece_files_stable_locked :: "storage_inner \<Rightarrow> nat \<Rightarrow> file_identity list \<Rightarrow> file_identity list \<Rightarrow> bool option" where
  "piece_files_stable_locked s index saved current =
     (let start = int index * chunk_length s; (a, b) = overlapping_file_range (sfiles s) start (start + piece_length_of s index) in
      case find (\<lambda>i. i \<ge> length saved \<or> i \<ge> length current \<or> \<not> file_stable (saved ! i) (current ! i)) [a..<b] of
        None \<Rightarrow> Some True
      | Some i \<Rightarrow> if i \<ge> length saved \<or> i \<ge> length current then None else Some False)"

primrec load_bits :: "storage_inner \<Rightarrow> file_identity list \<Rightarrow> file_identity list \<Rightarrow> nat \<Rightarrow> bool list \<Rightarrow> storage_inner option" where
  "load_bits s saved current p [] = Some s"
| "load_bits s saved current p (ok # oks) =
     (if \<not> ok then load_bits s saved current (p + 1) oks
      else case piece_files_stable_locked s p saved current of
        None \<Rightarrow> None
      | Some steady \<Rightarrow>
          load_bits (if steady then s\<lparr>completed := (completed s)(p \<mapsto> True)\<rparr> else s) saved current (p + 1) oks)"

definition load_checkpoint_locked :: "string option \<Rightarrow> (fpath \<Rightarrow> bytes option) \<Rightarrow> bytes \<Rightarrow> fpath \<Rightarrow> string \<Rightarrow> file_identity list
    \<Rightarrow> storage_inner \<Rightarrow> (storage_inner \<times> bool) option" where
  "load_checkpoint_locked io_err fs info_hash base hash_hex ids s =
     (case read_piece_checkpoint io_err fs (checkpoint_path base hash_hex) of
        None \<Rightarrow> None
      | Some (Inl _) \<Rightarrow> Some (s, False)
      | Some (Inr cp) \<Rightarrow>
          (if cp_info_hash cp \<noteq> info_hash \<or> cp_piece_length cp \<noteq> chunk_length s
              \<or> cp_num_pieces cp \<noteq> (case sinfo s of Some i \<Rightarrow> num_pieces i | None \<Rightarrow> 0)
           then Some (s, False)
           else if length (cp_files cp) \<noteq> length ids then Some (s, False)
           else map_option (\<lambda>s. (s, True)) (load_bits s (cp_files cp) ids 0 (cp_complete cp))))"

end
