(* ===== verification/CheckpointSteps.thy ===== *)
theory CheckpointSteps
  imports CheckpointDrain WriteBackSteps
begin

text \<open>
  Drains that run beside the storage threads of theory \<open>WriteBackSteps\<close>, and a crash at any moment. A
  step of a drain is one phase of theory \<open>CheckpointDrain\<close> under the lock, one sync, or the write of the
  checkpoint. The invariant says that a finished piece keeps its bytes, that each of them is durable or
  lies in a file whose sync is due or under way, and that a checkpoint only lists durable pieces. That at
  most one drain runs at a time follows from \<open>checkpoint_flushing\<close>. The destination files stay the same
  throughout: \<open>update_selection\<close> and \<open>close\<close> end a run.
\<close>

section \<open>What the storage threads leave alone\<close>

definition marks :: "storage_inner \<Rightarrow> (nat \<Rightarrow> bool option) \<times> nat set \<times> bool \<times> info option \<times> file_descriptor list \<times> int" where
  "marks s = (completed s, pending_sync_fds s, checkpoint_flushing s, sinfo s, sfiles s, chunk_length s)"

lemma marks_simps [simp]:
  "marks (s\<lparr>cache := a\<rparr>) = marks s" "marks (s\<lparr>cache_bytes := b\<rparr>) = marks s" "marks (s\<lparr>cache_dirty := c\<rparr>) = marks s"
  "marks (s\<lparr>dirty_spans := e\<rparr>) = marks s" "marks (s\<lparr>flush_new := f\<rparr>) = marks s" "marks (s\<lparr>cache_order := g\<rparr>) = marks s"
  "marks (s\<lparr>flushing := h\<rparr>) = marks s" "marks (s\<lparr>flush_raced := i\<rparr>) = marks s" "marks (s\<lparr>partial_slots := k\<rparr>) = marks s"
  "marks (s\<lparr>stream_ranges := l\<rparr>) = marks s" "marks (s\<lparr>stream_whole := m\<rparr>) = marks s" "marks (s\<lparr>evicting := n\<rparr>) = marks s"
  "marks (s\<lparr>saved_partial := p\<rparr>) = marks s" "marks (s\<lparr>flush_err := q\<rparr>) = marks s"
  by (simp_all add: marks_def)

lemma drop_marks: "drop_cache_locked s p = Some t \<Longrightarrow> marks t = marks s"
  by (auto simp: drop_cache_locked_def split: option.splits bind_splits)

lemma evict_clean_marks: "evict_clean fuel s i e = Some (t, r) \<Longrightarrow> marks t = marks s"
proof (induction fuel arbitrary: s)
  case (0 s)
  then show ?case by (subst (asm) evict_clean.simps) (auto split: if_splits)
next
  case (Suc fuel s)
  show ?case
  proof (cases "t = s")
    case False
    then obtain p u where "drop_cache_locked s p = Some u" "evict_clean fuel u i e = Some (t, r)"
      using Suc.prems by (subst (asm) evict_clean.simps) (auto split: if_splits option.splits bind_splits)
    then show ?thesis using Suc.IH drop_marks by metis
  qed simp
qed

lemma make_slot_marks: "make_slot s i e = Some (t, r) \<Longrightarrow> marks t = marks s"
  unfolding make_slot_def
  by (auto split: bind_splits sum.splits option.splits if_splits simp: insert_slot_def dest!: evict_clean_marks)

lemma ensure_slot_marks: "ensure_cache_slot_locked s i e = Some (t, r) \<Longrightarrow> marks t = marks s"
  unfolding ensure_cache_slot_cases
  by (auto split: bind_splits option.splits if_splits dest!: make_slot_marks drop_marks)

lemma store_block_marks: "store_block s i n c off buf = Some t \<Longrightarrow> marks t = marks s"
  by (auto simp: store_block_def Let_def split: bind_splits option.splits if_splits)

lemma write_attempt_marks: "write_attempt s k i n off buf = Some (t, nx) \<Longrightarrow> marks t = marks s"
  unfolding write_attempt_def
  by (auto split: bind_splits sum.splits cache_slot.splits if_splits option.splits dest!: ensure_slot_marks store_block_marks)

lemma begin_flush_marks: "begin_flush s p = (t, r) \<Longrightarrow> marks t = marks s"
  by (auto simp: begin_flush_def split: if_splits sum.splits option.splits)

lemma saved_partial_marks [simp]: "marks (mark_saved_partial_locked s p) = marks s"
  by (simp add: mark_saved_partial_locked_def)

lemma finish_flush_marks: "finish_flush s p plan w = (t, r) \<Longrightarrow> marks t = marks s"
  by (auto simp: finish_flush_def Let_def mark_saved_partial_locked_def split: if_splits sum.splits option.splits)

lemma flush_locked_marks: "flush_piece_locked wo s d p = Some (t, d', r) \<Longrightarrow> marks t = marks s"
  by (auto simp: flush_piece_locked_def Let_def mark_saved_partial_locked_def split: if_splits option.splits sum.splits prod.splits)

lemma evict_done_marks: "evict_done s v p f = Some (t, nx) \<Longrightarrow> marks t = marks s"
  unfolding evict_done_def Let_def
  by (auto split: bind_splits if_splits dest!: drop_marks)

lemma through_begin_marks: "through_begin s p off buf = (t, r) \<Longrightarrow> marks t = marks s"
  by (auto simp: through_begin_def through_plan_def release_flush_def split: if_splits sum.splits)

lemma through_finish_marks: "through_finish s p buf plan w = (t, r) \<Longrightarrow> marks t = marks s"
  by (auto simp: through_finish_def release_flush_def mark_saved_partial_locked_def split: if_splits sum.splits)

lemma fill_finish_marks: "fill_finish s p len gen w = (t, r) \<Longrightarrow> marks t = marks s"
  by (auto simp: fill_finish_def split: if_splits sum.splits option.splits)

lemma read_slot_marks: "read_slot s p e n off = Some (t, nx) \<Longrightarrow> marks t = marks s"
  by (auto simp: read_slot_def Let_def split: bind_splits)

lemmas op_marks = write_attempt_marks begin_flush_marks finish_flush_marks flush_locked_marks evict_done_marks
  through_begin_marks through_finish_marks fill_finish_marks read_slot_marks


text \<open>What a step of a storage thread does to the completion bits and to the syncs that are due.\<close>

definition piece_handles :: "storage_inner \<Rightarrow> nat \<Rightarrow> nat set" where
  "piece_handles s p =
     (let start = int p * chunk_length s in
      set (List.map_filter fd_file (files_overlapping (sfiles s) start (start + piece_length_of s p))))"

lemma wb_step_marks:
  assumes "wb_step plen np x y"
  obtains (same) "marks (st y) = marks (st x)"
    | (reject) frozen spawned p where "mark_not_complete frozen spawned (st x) p = Some (st y)"
    | (complete) spawned p where "st y = complete_piece spawned (st x) p"
  using assms
proof cases
  case (receive p buf off attempts s' nx)
  then show ?thesis using same op_marks(1) by simp
next
  case (reject frozen spawned p s')
  then show ?thesis using that(2) by simp
next
  case (complete spawned p)
  then show ?thesis using that(3) by simp
qed (rule same, simp add: op_marks)+

definition progressed :: "storage_inner \<Rightarrow> storage_inner \<Rightarrow> bool" where
  "progressed s t \<longleftrightarrow> sfiles t = sfiles s \<and> chunk_length t = chunk_length s \<and> sinfo t = sinfo s
     \<and> checkpoint_flushing t = checkpoint_flushing s
     \<and> pending_sync_fds s \<subseteq> pending_sync_fds t \<and> (finite (pending_sync_fds s) \<longrightarrow> finite (pending_sync_fds t))
     \<and> (\<forall>p. flag (completed s) p \<longrightarrow> flag (completed t) p)
     \<and> (\<forall>p. flag (completed t) p \<and> \<not> flag (completed s) p \<longrightarrow> piece_handles s p \<subseteq> pending_sync_fds t)"

lemma marks_progressed: "marks t = marks s \<Longrightarrow> progressed s t"
  by (simp add: marks_def progressed_def)

lemma schedule_marks: "marks (schedule_checkpoint_flush_locked b s) = marks s" "marks (bump_checkpoint s) = marks s"
  by (simp_all add: schedule_checkpoint_flush_locked_def bump_checkpoint_def marks_def)

lemma reject_progressed:
  assumes "mark_not_complete frozen b s p = Some t"
  shows "progressed s t \<and> (\<forall>q. flag (completed t) q \<longrightarrow> flag (completed s) q)"
proof (cases "closed s \<or> \<not> attached s \<or> frozen \<or> flag (completed s) p")
  case True
  then show ?thesis using assms by (auto simp: mark_not_complete_def progressed_def)
next
  case False
  define s1 where "s1 = s\<lparr>completed := (completed s)(p := None)\<rparr>"
  define s2 where "s2 = (if streaming s1 then s1\<lparr>stream_lost := (stream_lost s1)(p := None), stream_ranges := (stream_ranges s1)(p := None),
     stream_whole := (stream_whole s1)(p := None)\<rparr> else s1)"
  have "mark_not_complete frozen b s p = do { u \<leftarrow> drop_cache_locked s2 p; Some (schedule_checkpoint_flush_locked b (bump_checkpoint u)) }"
    using False by (simp add: mark_not_complete_def s1_def s2_def Let_def)
  then obtain u where u: "drop_cache_locked s2 p = Some u" "t = schedule_checkpoint_flush_locked b (bump_checkpoint u)"
    using assms by (cases "drop_cache_locked s2 p") simp_all
  have "marks t = marks s2" using drop_marks [OF u(1)] by (simp add: u(2) schedule_marks)
  also have "marks s2 = marks s1" by (simp add: s2_def marks_def)
  finally show ?thesis using False by (auto simp: s1_def marks_def progressed_def flag_def)
qed

lemma complete_progressed: "progressed s (complete_piece b s p)"
proof -
  define t where "t = complete_piece b s p"
  have "marks t = ((completed s)(p \<mapsto> True), pending_sync_fds s \<union> piece_handles s p, checkpoint_flushing s, sinfo s, sfiles s, chunk_length s)"
    unfolding t_def complete_piece_def Let_def schedule_marks
    by (simp add: marks_def note_piece_files_need_sync_locked_def Let_def piece_handles_def piece_length_of_def)
  moreover have "finite (piece_handles s p)" by (simp add: piece_handles_def Let_def)
  ultimately show ?thesis by (auto simp: progressed_def marks_def flag_def t_def split: if_splits)
qed

lemma wb_step_progressed: "wb_step plen np x y \<Longrightarrow> progressed (st x) (st y)"
  by (erule wb_step_marks) (auto intro: marks_progressed complete_progressed dest: reject_progressed)

section \<open>A finished piece stays as it is\<close>

definition calm :: "storage_inner \<Rightarrow> nat \<Rightarrow> bool" where
  "calm s p \<longleftrightarrow> \<not> vd (slot s p) \<and> \<not> vf (slot s p)"

definition sealed :: "(nat \<Rightarrow> int) \<Rightarrow> nat \<Rightarrow> wb_state \<Rightarrow> nat \<Rightarrow> bool" where
  "sealed plen np x p \<longleftrightarrow> p < np \<and> (\<forall>j. int j < plen p \<longrightarrow> got x p j \<noteq> None) \<and> calm (st x) p"

lemma calm_shed: "calm s p \<Longrightarrow> shed_view (slot s p) (slot t p) \<Longrightarrow> calm t p"
  by (auto simp: calm_def shed_view_def dropped_def)

lemma calm_slot: "slot t p = slot s p \<Longrightarrow> calm t p = calm s p"
  by (simp add: calm_def)

lemma sealed_full:
  assumes "sealed plen np x p" "buf \<noteq> []" "0 \<le> off" "off + int (length buf) \<le> plen p"
  shows "\<not> unknown (got x p) off buf"
proof -
  have "0 < length buf" using assms(2) by simp
  then have "off \<le> int (nat off) \<and> int (nat off) < off + int (length buf)" using assms(3) by simp
  moreover have "int (nat off) < plen p" using calculation assms(4) by linarith
  then have "got x p (nat off) \<noteq> None" using assms(1) unfolding sealed_def by blast
  ultimately show ?thesis unfolding unknown_def by metis
qed

lemma sealed_unowned: "wb_inv plen np x \<Longrightarrow> sealed plen np x p \<Longrightarrow> \<not> owns (pcs x t) p"
  using owns_flushing [OF wb_invD(5)] by (auto simp: sealed_def calm_def)

lemma write_attempt_others:
  assumes inv: "wb_inv plen np x" and w: "write_attempt (st x) k p (plen p) off buf = Some (s', nx)" and p: "p < np" and q: "q \<noteq> p"
  shows "shed_view (slot (st x) q) (slot s' q)"
proof -
  note i = wb_invD [OF inv] and g = geometryD [OF wb_invD(1) [OF inv]]
  have len: "\<forall>data. cache (st x) p = Some data \<longrightarrow> int (length data) = plen p" using piece_okD(8) [OF i(3) [OF p]] by (simp add: slot_def)
  note ens = ensure_slot_view [OF _ i(2) g(11) [OF p] g(7) [OF p] len]
  from w g(3) show ?thesis
  proof (cases rule: write_attempt_forms)
    case (1 s1 c)
    note e = ens [OF 1(1)]
    obtain data where d: "cache s1 p = Some data" using e by (cases c) (auto simp: slot_def)
    have ns: "\<not> streaming s1" using e g(2) by (simp add: fixed_def)
    have "slot s' q = slot s1 q" using store_block_view [OF 1(2) _ d ns] e q by blast
    then show ?thesis using e q by simp
  next
    case (2 s1 r)
    have "slot s' = slot s1" using 2(3) by auto
    then show ?thesis using ens [OF 2(1)] q by simp
  qed
qed

lemma flush_end_calm:
  assumes inv: "wb_inv plen np x" and t: "pcs x t = Flushing q plan [] err" and f: "finish_flush (st x) q plan w = (s', r)" and p: "p \<noteq> q"
  shows "calm s' p = calm (st x) p"
proof -
  have "pf_gen plan = files_gen (st x)" using wb_invD(5) [OF inv, of t] t by (simp add: plan_ok_def)
  then have "slot s' p = slot (st x) p" using finish_flush_view(1) [OF f geometryD(3) [OF wb_invD(1) [OF inv]]] p by blast
  then show ?thesis by (rule calm_slot)
qed

lemma flush_locked_calm: "flush_piece_locked wo s d q = Some (s', d', r) \<Longrightarrow> calm s p \<Longrightarrow> calm s' p"
  by (auto simp: flush_piece_locked_def calm_def slot_def flag_def Let_def mark_saved_partial_locked_def
      split: if_splits option.splits sum.splits prod.splits)

lemma fill_finish_calm: "fill_finish s q len gen res = (s', r) \<Longrightarrow> calm s' p = calm s p"
  by (auto simp: fill_finish_def calm_def slot_def split: if_splits sum.splits option.splits)

lemma reject_calm:
  assumes m: "mark_not_complete frozen b s q = Some s'" and inv: "cache_inv s" and c: "calm s p"
    and go: "\<not> closed s" "attached s" "\<not> streaming s"
  shows "calm s' p"
proof (cases "frozen \<or> flag (completed s) q")
  case True
  then have "s' = s" using m by (auto simp: mark_not_complete_def)
  then show ?thesis using c by simp
next
  case False
  then have "slot s' p = (if p = q \<and> cache s q \<noteq> None then dropped (slot s p) else slot s p)"
    using reject_view [OF m inv go] by auto
  then show ?thesis using c by (auto simp: calm_def dropped_def)
qed

lemma sealed_step:
  assumes inv: "wb_inv plen np x" and st: "wb_step plen np x y" and s: "sealed plen np x p"
    and c: "flag (completed (st x)) p \<or> flag (completed (st y)) p"
  shows "sealed plen np y p \<and> got y p = got x p"
proof -
  note i = wb_invD [OF inv] and g = geometryD [OF wb_invD(1) [OF inv]]
  have cl: "calm (st x) p" "p < np" using s by (simp_all add: sealed_def)
  note no = sealed_unowned [OF inv s] and full = sealed_full [OF s]
  have "calm (st y) p \<and> got y p = got x p" using st
  proof cases
    case (receive q buf off attempts s' nx)
    then have "p \<noteq> q" using full by blast
    then show ?thesis using calm_shed [OF cl(1) write_attempt_others [OF inv receive(9) receive(2)]] unfolding receive(1)
      by (simp split: write_next.split sum.split)
  next
    case (flush_begin t q s' plan)
    obtain data where d: "flag (cache_dirty (st x)) q" "slot s' = (slot (st x))(q := begun (slot (st x) q))"
      using begin_flush_plan [OF flush_begin(5)] by blast
    then have "p \<noteq> q" using cl(1) by (auto simp: calm_def slot_def)
    then show ?thesis using d(2) cl(1) unfolding flush_begin(1) by (simp add: calm_def)
  next
    case (flush_nothing q s' r)
    then show ?thesis using begin_flush_nothing(3) [OF flush_nothing(2)] cl(1) by (simp add: calm_def)
  next
    case (flush_io t q plan w ws wo d' r ws' err)
    then show ?thesis using cl(1) by simp
  next
    case (flush_end t q plan err s' r)
    then have "p \<noteq> q" using no [of t] by auto
    then show ?thesis using flush_end flush_end_calm [OF inv flush_end(2,3)] cl(1) by simp
  next
    case (flush_locked wo q s' d' r)
    then show ?thesis using flush_locked_calm cl(1) by simp
  next
    case (evict victim q flushed s' nx)
    then show ?thesis using evict_done_view [OF evict(2) i(2)] calm_shed [OF cl(1)] by (simp add: shed_def)
  next
    case (through_start t q buf off s' plan)
    then have "p \<noteq> q" using full by blast
    moreover obtain ps where "slot s' = (slot (st x))(q := (slot (st x) q)\<lparr>vf := True\<rparr>)"
      using through_begin_view [OF through_start(10)] by blast
    ultimately show ?thesis using cl(1) unfolding through_start(1) by (simp add: calm_def)
  next
    case (through_io t q off buf plan w ws wo d' r ws' err)
    then show ?thesis using cl(1) by simp
  next
    case (through_end t q off buf plan err s' r)
    then have "p \<noteq> q" using no [of t] by auto
    moreover have "slot s' = (slot (st x))(q := (slot (st x) q)\<lparr>vf := False\<rparr>)" using through_finish_view(1) [OF through_end(3) g(3)] by blast
    ultimately show ?thesis using cl(1) unfolding through_end(1) by (simp add: calm_def split: sum.split)
  next
    case (reject frozen spawned q s')
    have "flag (completed (st x)) p" using c reject_progressed [OF reject(2)] unfolding reject(1) by auto
    then show ?thesis using reject_calm [OF reject(2) i(2) cl(1) g(3,1,2)] unfolding reject(1) by auto
  next
    case (complete spawned q)
    then show ?thesis using cl(1) by (simp add: calm_def complete_frame)
  next
    case (fill_start t q len rds gen)
    then show ?thesis using cl(1) by simp
  next
    case (fill_io t q len h pos lo hi rds gen buf b ro bs)
    then show ?thesis using cl(1) by simp
  next
    case (fill_error t q len rds gen buf b e s' r)
    then show ?thesis using fill_finish_calm [OF fill_error(3)] cl(1) by simp
  next
    case (fill_end t q len gen buf b s' r)
    then show ?thesis using fill_finish_calm [OF fill_end(4)] cl(1) by simp
  next
    case (read_hit q expected n off s' nx)
    then obtain data where "cache (st x) q = Some data" by blast
    then show ?thesis using read_hit read_slot_view(2) [OF read_hit(3) i(2)] calm_shed [OF cl(1)] by (simp add: shed_def)
  qed
  then show ?thesis using s by (simp add: sealed_def)
qed


section \<open>Drains beside the storage threads\<close>

text \<open>
  The points where a drain has released the lock. The first argument says whether it is a scheduled one.
\<close>

datatype drain_pc =
    DrainIdle
  | DrainEnter bool
  | DrainSync bool drain_snapshot "(nat \<times> (string + nat option)) list" "nat list" "string option"
  | DrainWrite bool drain_snapshot piece_checkpoint
  | DrainFinish bool drain_snapshot "storage_error + unit"
  | DrainEnd bool bool

text \<open>
  \<open>vals\<close> are the values a byte of the torrent may have after a crash: those it has had since its file was
  last synced. \<open>cfs\<close> is the file system with the checkpoint.
\<close>

record cp_state =
  wb :: wb_state
  vals :: "int \<Rightarrow> u8 set"
  cfs :: file_system
  dpc :: drain_pc

definition in_file :: "file_descriptor list \<Rightarrow> nat \<Rightarrow> int \<Rightarrow> bool" where
  "in_file fs h a \<longleftrightarrow> (\<exists>f\<in>set fs. fd_file f = Some h \<and> fd_offset f \<le> a \<and> a < fd_offset f + fd_length f)"

definition after_sync :: "file_descriptor list \<Rightarrow> disk \<Rightarrow> string + nat option \<Rightarrow> (int \<Rightarrow> u8 set) \<Rightarrow> int \<Rightarrow> u8 set" where
  "after_sync fs d src v a = (case src of Inr (Some h) \<Rightarrow> if in_file fs h a then {img d fs a} else v a | _ \<Rightarrow> v a)"

text \<open>\<open>mark_complete\<close> comes after the hash and after a flush that left the piece clean.\<close>

definition verified :: "(nat \<Rightarrow> int) \<Rightarrow> nat \<Rightarrow> wb_state \<Rightarrow> wb_state \<Rightarrow> bool" where
  "verified plen np x y \<longleftrightarrow> (\<forall>p. flag (completed (st y)) p \<and> \<not> flag (completed (st x)) p \<longrightarrow> sealed plen np x p)"

definition with_st :: "cp_state \<Rightarrow> storage_inner \<Rightarrow> cp_state" where
  "with_st y s = y\<lparr>wb := (wb y)\<lparr>st := s\<rparr>\<rparr>"

inductive cp_step :: "(nat \<Rightarrow> int) \<Rightarrow> nat \<Rightarrow> fpath \<Rightarrow> string \<Rightarrow> bytes \<Rightarrow> cp_state \<Rightarrow> cp_state \<Rightarrow> bool"
  for plen np base hex hash where
  storage:
  "wb_step plen np (wb y) x \<Longrightarrow> verified plen np (wb y) x \<Longrightarrow>
   cp_step plen np base hex hash y (y\<lparr>wb := x, vals := (\<lambda>a. insert (img (dk x) (sfiles (st x)) a) (vals y a))\<rparr>)"
| scheduled:
  "scheduled_begin (st (wb y)) = (s, True) \<Longrightarrow> cp_step plen np base hex hash y ((with_st y s)\<lparr>dpc := DrainEnter True\<rparr>)"
| not_needed:
  "scheduled_begin (st (wb y)) = (s, False) \<Longrightarrow> cp_step plen np base hex hash y (with_st y s)"
| mark_verified:
  "checkpoint_idle (st (wb y)) \<Longrightarrow>
   cp_step plen np base hex hash y ((with_st y (mark_verified_begin (st (wb y))))\<lparr>dpc := DrainEnter False\<rparr>)"
| snapshot:
  "dpc y = DrainEnter k \<Longrightarrow> (\<forall>S. finite S \<longrightarrow> set (draining S) = S) \<Longrightarrow>
   drain_begin dup draining hash (st (wb y)) = (s, Inr snap) \<Longrightarrow>
   cp_step plen np base hex hash y ((with_st y s)\<lparr>dpc := DrainSync k snap (ds_syncs snap) [] None\<rparr>)"
| no_snapshot:
  "dpc y = DrainEnter k \<Longrightarrow> drain_begin dup draining hash (st (wb y)) = (s, Inl r) \<Longrightarrow>
   cp_step plen np base hex hash y ((with_st y s)\<lparr>dpc := DrainEnd k r\<rparr>)"
| synced:
  "dpc y = DrainSync k snap ((fd, src) # todo) failed err \<Longrightarrow> sync_one sync_all src = None \<Longrightarrow>
   cp_step plen np base hex hash y
     (y\<lparr>dpc := DrainSync k snap todo failed err, vals := after_sync (sfiles (st (wb y))) (dk (wb y)) src (vals y)\<rparr>)"
| not_synced:
  "dpc y = DrainSync k snap ((fd, src) # todo) failed err \<Longrightarrow> sync_one sync_all src = Some e \<Longrightarrow>
   cp_step plen np base hex hash y (y\<lparr>dpc := DrainSync k snap todo (failed @ [fd]) (Some e)\<rparr>)"
| syncs_failed:
  "dpc y = DrainSync k snap [] failed (Some e) \<Longrightarrow>
   cp_step plen np base hex hash y ((with_st y (sync_failed failed e (st (wb y))))\<lparr>dpc := DrainEnd k False\<rparr>)"
| only_syncs:
  "dpc y = DrainSync k snap [] failed None \<Longrightarrow> ds_checkpoint snap = None \<Longrightarrow>
   cp_step plen np base hex hash y (y\<lparr>dpc := DrainEnd k True\<rparr>)"
| outdated:
  "dpc y = DrainSync k snap [] failed None \<Longrightarrow> ds_checkpoint snap = Some (cp, fgen, ids) \<Longrightarrow>
   drain_check (ds_gen snap) fgen (map (capture stat) ids) (st (wb y)) = (s, Inl r) \<Longrightarrow>
   cp_step plen np base hex hash y ((with_st y s)\<lparr>dpc := DrainEnd k r\<rparr>)"
| current:
  "dpc y = DrainSync k snap [] failed None \<Longrightarrow> ds_checkpoint snap = Some (cp, fgen, ids) \<Longrightarrow>
   drain_check (ds_gen snap) fgen (map (capture stat) ids) (st (wb y)) = (s, Inr ()) \<Longrightarrow>
   cp_step plen np base hex hash y ((with_st y s)\<lparr>dpc := DrainWrite k snap (cp\<lparr>cp_files := map (capture stat) ids\<rparr>)\<rparr>)"
| written:
  "dpc y = DrainWrite k snap cp \<Longrightarrow> write_piece_checkpoint calls (cfs y) (checkpoint_path base hex) cp = Some (fss, r) \<Longrightarrow>
   cp_step plen np base hex hash y (y\<lparr>cfs := last fss, dpc := DrainFinish k snap r\<rparr>)"
| finished:
  "dpc y = DrainFinish k snap r \<Longrightarrow> ds_checkpoint snap = Some (cp, fgen, ids) \<Longrightarrow>
   drain_finish (ds_gen snap) fgen (ds_seq snap) r del_err base hex (st (wb y)) (cfs y) = (s, fs, ok) \<Longrightarrow>
   cp_step plen np base hex hash y ((with_st y s)\<lparr>cfs := fs, dpc := DrainEnd k ok\<rparr>)"
| scheduled_done:
  "dpc y = DrainEnd True ok \<Longrightarrow>
   cp_step plen np base hex hash y ((with_st y (scheduled_end spawned ok (st (wb y))))\<lparr>dpc := DrainIdle\<rparr>)"
| drain_now_done:
  "dpc y = DrainEnd False ok \<Longrightarrow>
   cp_step plen np base hex hash y ((with_st y (drain_now_end (st (wb y))))\<lparr>dpc := DrainIdle\<rparr>)"
| forget:
  "cp_step plen np base hex hash y (with_st y (delete_checkpoint_locked (st (wb y))))"
| remove_file:
  "cp_step plen np base hex hash y (y\<lparr>cfs := fst (delete_piece_checkpoint del_err (cfs y) base hex)\<rparr>)"

section \<open>Invariant\<close>

text \<open>The bytes of a piece that a crash cannot change, and those that a pending sync will make so.\<close>

definition durable :: "cp_state \<Rightarrow> nat \<Rightarrow> nat \<Rightarrow> bool" where
  "durable y p j \<longleftrightarrow> vals y (int p * chunk_length (st (wb y)) + int j) \<subseteq> {the (got (wb y) p j)}"

definition will_be :: "cp_state \<Rightarrow> nat set \<Rightarrow> nat \<Rightarrow> nat \<Rightarrow> bool" where
  "will_be y S p j \<longleftrightarrow> durable y p j
     \<or> (\<exists>h\<in>S. in_file (sfiles (st (wb y))) h (int p * chunk_length (st (wb y)) + int j))"

fun in_flight :: "drain_pc \<Rightarrow> nat set" where
  "in_flight (DrainSync k snap todo failed err) = fst ` set todo \<union> set failed"
| "in_flight _ = {}"

definition claims :: "(nat \<Rightarrow> int) \<Rightarrow> cp_state \<Rightarrow> nat set \<Rightarrow> bool list \<Rightarrow> bool" where
  "claims plen y S bits \<longleftrightarrow> (\<forall>p < length bits. bits ! p \<longrightarrow>
     flag (completed (st (wb y))) p \<and> (\<forall>j. int j < plen p \<longrightarrow> will_be y S p j))"

fun drain_ok :: "(nat \<Rightarrow> int) \<Rightarrow> nat \<Rightarrow> bytes \<Rightarrow> cp_state \<Rightarrow> drain_pc \<Rightarrow> bool" where
  "drain_ok plen np hash y (DrainSync k snap todo failed err) \<longleftrightarrow>
     (failed \<noteq> [] \<longrightarrow> err \<noteq> None)
     \<and> (\<forall>x\<in>set todo. snd x = Inr None \<longrightarrow> (\<forall>f\<in>set (sfiles (st (wb y))). fd_file f \<noteq> Some (fst x)))
     \<and> (\<forall>x\<in>set todo. \<forall>h. snd x = Inr (Some h) \<longrightarrow> h = fst x)
     \<and> (\<forall>cp fgen ids. ds_checkpoint snap = Some (cp, fgen, ids) \<longrightarrow>
          claims plen y (fst ` set todo \<union> set failed) (cp_complete cp)
          \<and> (\<forall>stat. checkpoint_ok (cp\<lparr>cp_files := map (capture stat) ids\<rparr>)))"
| "drain_ok plen np hash y (DrainWrite k snap cp) \<longleftrightarrow> claims plen y {} (cp_complete cp) \<and> checkpoint_ok cp"
| "drain_ok plen np hash y _ \<longleftrightarrow> True"

definition published_ok :: "(nat \<Rightarrow> int) \<Rightarrow> cp_state \<Rightarrow> fpath \<Rightarrow> bool" where
  "published_ok plen y file \<longleftrightarrow> settled (cfs y) file
     \<and> (\<forall>data cp. contents (cfs y) file = Some data \<and> decode_checkpoint data = Some (Inr cp) \<longrightarrow> claims plen y {} (cp_complete cp))"

definition descriptors_ok :: "(nat \<Rightarrow> int) \<Rightarrow> nat \<Rightarrow> bytes \<Rightarrow> storage_inner \<Rightarrow> bool" where
  "descriptors_ok plen np hash s \<longleftrightarrow>
     length hash = 20 \<and> length (sfiles s) \<le> MAX_CHECKPOINT_FILES \<and> np \<le> MAX_CHECKPOINT_PIECES
     \<and> (\<forall>f\<in>set (sfiles s). i64_range (fd_length f) \<and> length (fd_path f) \<le> MAX_CHECKPOINT_PATH \<and> valid_utf8 (fd_path f))
     \<and> (\<exists>i. sinfo s = Some i \<and> num_pieces i = np) \<and> (\<forall>p < np. piece_length_of s p = plen p)"

definition cp_inv :: "(nat \<Rightarrow> int) \<Rightarrow> nat \<Rightarrow> fpath \<Rightarrow> string \<Rightarrow> bytes \<Rightarrow> cp_state \<Rightarrow> bool" where
  "cp_inv plen np base hex hash y \<longleftrightarrow>
     wb_inv plen np (wb y) \<and> descriptors_ok plen np hash (st (wb y))
     \<and> finite (pending_sync_fds (st (wb y)))
     \<and> (checkpoint_flushing (st (wb y)) \<longleftrightarrow> dpc y \<noteq> DrainIdle)
     \<and> (\<forall>p. flag (completed (st (wb y))) p \<longrightarrow> sealed plen np (wb y) p
          \<and> (\<forall>j. int j < plen p \<longrightarrow> will_be y (pending_sync_fds (st (wb y)) \<union> in_flight (dpc y)) p j))
     \<and> drain_ok plen np hash y (dpc y)
     \<and> published_ok plen y (checkpoint_path base hex)"


section \<open>Every step keeps the invariant\<close>

lemma cp_invD:
  assumes "cp_inv plen np base hex hash y"
  shows "wb_inv plen np (wb y)" "descriptors_ok plen np hash (st (wb y))" "finite (pending_sync_fds (st (wb y)))"
    "checkpoint_flushing (st (wb y)) \<longleftrightarrow> dpc y \<noteq> DrainIdle"
    "flag (completed (st (wb y))) p \<Longrightarrow> sealed plen np (wb y) p"
    "flag (completed (st (wb y))) p \<Longrightarrow> int j < plen p \<Longrightarrow> will_be y (pending_sync_fds (st (wb y)) \<union> in_flight (dpc y)) p j"
    "drain_ok plen np hash y (dpc y)" "published_ok plen y (checkpoint_path base hex)"
  using assms unfolding cp_inv_def by blast+

text \<open>A byte of a finished piece has its received value on disk, and lies in a file that is open.\<close>

lemma sealed_img:
  assumes inv: "wb_inv plen np x" and s: "sealed plen np x p" and j: "int j < plen p"
  shows "img (dk x) (sfiles (st x)) (int p * chunk_length (st x) + int j) = the (got x p j)"
proof -
  have p: "p < np" "\<not> vd (slot (st x) p)" and "got x p j \<noteq> None" using s j by (auto simp: sealed_def calm_def)
  then obtain b where b: "got x p j = Some b" by blast
  note ok = wb_invD(3) [OF inv p(1)]
  have "vs (slot (st x) p) = None" using piece_okD(6) [OF ok] p(2) by simp
  then have "on_disk (dk x) (st x) (plen p) p j = b" using piece_okD(3) [OF ok b] by simp
  then show ?thesis using j b by (simp add: on_disk_def)
qed

lemma piece_byte_handle:
  assumes inv: "wb_inv plen np x" and d: "descriptors_ok plen np hash (st x)" and p: "p < np" and j: "int j < plen p"
  shows "\<exists>h\<in>piece_handles (st x) p. in_file (sfiles (st x)) h (int p * chunk_length (st x) + int j)"
proof -
  note g = geometryD [OF wb_invD(1) [OF inv]]
  let ?s = "int p * chunk_length (st x)"
  let ?a = "?s + int j" and ?e = "?s + piece_length_of (st x) p"
  have l: "piece_length_of (st x) p = plen p" using d p by (auto simp: descriptors_ok_def)
  have "0 \<le> ?a" "?a < span_total (sfiles (st x))" using g(6) g(10) [OF p] j by auto
  then obtain f where f: "f \<in> set (sfiles (st x))" "fd_offset f \<le> ?a" "?a < fd_offset f + fd_length f"
    using file_at [OF g(4), of ?a] by auto
  obtain pre post where sp: "sfiles (st x) = pre @ files_overlapping (sfiles (st x)) ?s ?e @ post"
    "\<forall>f\<in>set pre. idle ?s ?e f" "\<forall>f\<in>set post. idle ?s ?e f"
    using files_overlapping_split [OF g(4)] .
  have "\<not> idle ?s ?e f" using f j l by (auto simp: idle_def)
  then have "f \<in> set (files_overlapping (sfiles (st x)) ?s ?e)" using f(1) sp by (metis Un_iff set_append)
  moreover obtain h where "fd_file f = Some h" using g(5) f(1) by (auto simp: opened_def)
  ultimately show ?thesis using f by (force simp: piece_handles_def in_file_def Let_def map_filter_def)
qed


lemma will_be_mono: "will_be y S p j \<Longrightarrow> S \<subseteq> T \<Longrightarrow> will_be y T p j"
  by (auto simp: will_be_def)

lemma claims_mono:
  assumes "claims plen y S bits"
    and "\<And>p j. flag (completed (st (wb y))) p \<Longrightarrow> int j < plen p \<Longrightarrow> will_be y S p j \<Longrightarrow> will_be y' S' p j"
    and "\<And>p. flag (completed (st (wb y))) p \<Longrightarrow> flag (completed (st (wb y'))) p"
  shows "claims plen y' S' bits"
  using assms unfolding claims_def by blast

text \<open>A step of a storage thread.\<close>

lemma storage_sealed:
  assumes inv: "cp_inv plen np base hex hash y" and w: "wb_step plen np (wb y) x" and v: "verified plen np (wb y) x"
    and c: "flag (completed (st x)) p"
  shows "sealed plen np x p" "got x p = got (wb y) p"
proof -
  have "sealed plen np (wb y) p" using cp_invD(5) [OF inv, of p] v c unfolding verified_def by blast
  then show "sealed plen np x p" "got x p = got (wb y) p" using sealed_step [OF cp_invD(1) [OF inv] w] c by blast+
qed

lemma storage_keeps:
  assumes inv: "cp_inv plen np base hex hash y" and w: "wb_step plen np (wb y) x" and v: "verified plen np (wb y) x"
    and y': "y' = y\<lparr>wb := x, vals := (\<lambda>a. insert (img (dk x) (sfiles (st x)) a) (vals y a))\<rparr>"
    and c: "flag (completed (st x)) p" and j: "int j < plen p"
  shows "durable y p j \<Longrightarrow> durable y' p j" "will_be y S p j \<Longrightarrow> will_be y' S p j"
proof -
  note i = cp_invD [OF inv]
  have pr: "progressed (st (wb y)) (st x)" using w by (rule wb_step_progressed)
  note s = storage_sealed [OF inv w v c]
  have "img (dk x) (sfiles (st x)) (int p * chunk_length (st x) + int j) = the (got x p j)"
    using sealed_img [OF wb_step_inv [OF w i(1)] s(1) j] .
  then show d: "durable y p j \<Longrightarrow> durable y' p j" using pr s(2) by (simp add: durable_def y' progressed_def)
  show "will_be y S p j \<Longrightarrow> will_be y' S p j" using d pr unfolding will_be_def by (auto simp: y' progressed_def)
qed

lemma storage_inv:
  assumes inv: "cp_inv plen np base hex hash y" and w: "wb_step plen np (wb y) x" and v: "verified plen np (wb y) x"
  shows "cp_inv plen np base hex hash (y\<lparr>wb := x, vals := (\<lambda>a. insert (img (dk x) (sfiles (st x)) a) (vals y a))\<rparr>)" (is "cp_inv _ _ _ _ _ ?y")
proof -
  note i = cp_invD [OF inv] and k = storage_keeps [OF inv w v refl]
  have pr: "progressed (st (wb y)) (st x)" using w by (rule wb_step_progressed)
  have wi: "wb_inv plen np x" using wb_step_inv [OF w i(1)] .
  have so: "flag (completed (st x)) p" if "flag (completed (st (wb y))) p" for p using that pr by (simp add: progressed_def)
  have cl: "claims plen ?y S bits" if "claims plen y S bits" for S bits
    using claims_mono [OF that, of ?y S] k(2) so by simp
  have d: "descriptors_ok plen np hash (st x)" using i(2) pr unfolding descriptors_ok_def progressed_def piece_length_of_def by simp
  have new: "will_be ?y (pending_sync_fds (st x) \<union> in_flight (dpc y)) p j" if c: "flag (completed (st x)) p" and j: "int j < plen p" for p j
  proof (cases "flag (completed (st (wb y))) p")
    case True
    have "will_be ?y (pending_sync_fds (st (wb y)) \<union> in_flight (dpc y)) p j" using k(2) [OF c j] i(6) [OF True j] by blast
    then show ?thesis by (rule will_be_mono) (use pr in \<open>auto simp: progressed_def\<close>)
  next
    case False
    then have "sealed plen np (wb y) p" using v c unfolding verified_def by blast
    then have "p < np" by (simp add: sealed_def)
    then obtain h where "h \<in> piece_handles (st (wb y)) p" "in_file (sfiles (st (wb y))) h (int p * chunk_length (st (wb y)) + int j)"
      using piece_byte_handle [OF i(1,2) _ j] by blast
    moreover have "piece_handles (st (wb y)) p \<subseteq> pending_sync_fds (st x)" using pr c False unfolding progressed_def by blast
    ultimately show ?thesis using pr by (auto simp: will_be_def progressed_def)
  qed
  have dr: "drain_ok plen np hash ?y (dpc y)" using i(7) cl pr by (cases "dpc y") (auto simp: progressed_def)
  have e: "cfs ?y = cfs y" by simp
  have pu: "published_ok plen ?y (checkpoint_path base hex)" using i(8) cl unfolding published_ok_def e by blast
  have fl: "checkpoint_flushing (st x) \<longleftrightarrow> dpc y \<noteq> DrainIdle" "finite (pending_sync_fds (st x))" using i(3,4) pr by (simp_all add: progressed_def)
  have se: "sealed plen np x p" if "flag (completed (st x)) p" for p
    using storage_sealed(1) [OF inv w v that] .
  have e': "wb ?y = x" "dpc ?y = dpc y" by simp_all
  show ?thesis unfolding cp_inv_def e' using wi d fl se new dr pu by blast
qed


text \<open>The steps of a drain change neither slots nor completion bits.\<close>

definition same_core :: "storage_inner \<Rightarrow> storage_inner \<Rightarrow> bool" where
  "same_core s t \<longleftrightarrow> slot t = slot s \<and> fixed s t \<and> cache_inv t = cache_inv s \<and> completed t = completed s \<and> sinfo t = sinfo s"

lemma same_coreI:
  assumes "cache t = cache s" "cache_dirty t = cache_dirty s" "dirty_spans t = dirty_spans s" "flush_new t = flush_new s"
    "partial_slots t = partial_slots s" "flushing t = flushing s" "flush_raced t = flush_raced s" "cache_order t = cache_order s"
    "cache_bytes t = cache_bytes s" "completed t = completed s" "sinfo t = sinfo s" "sfiles t = sfiles s" "chunk_length t = chunk_length s"
    "files_gen t = files_gen s" "attached t = attached s" "streaming t = streaming s" "closed t = closed s"
  shows "same_core s t"
  proof -
  have "slot t = slot s" by (rule ext) (simp add: slot_def assms)
  then show ?thesis unfolding same_core_def using cache_inv_cong [OF assms(1,8,9)] assms by (simp add: fixed_def)
qed

lemma same_core_refl [simp]: "same_core s s"
  by (rule same_coreI) simp_all

lemma drain_begin_core: "drain_begin dup dr hash s = (t, r) \<Longrightarrow> same_core s t"
  by (rule same_coreI) (auto simp: drain_begin_def split: if_splits sum.splits)

lemma drain_check_core: "drain_check g f ids s = (t, r) \<Longrightarrow> same_core s t"
  by (rule same_coreI) (auto simp: drain_check_def split: if_splits)

lemma drain_finish_core: "drain_finish g f q w de base hex s fs = (t, fs', ok) \<Longrightarrow> same_core s t"
  by (rule same_coreI) (auto simp: drain_finish_def split: if_splits sum.splits)

lemma scheduled_begin_core: "scheduled_begin s = (t, b) \<Longrightarrow> same_core s t"
  by (rule same_coreI) (auto simp: scheduled_begin_def Let_def split: if_splits)

lemma other_core: "same_core s (sync_failed failed e s)" "same_core s (scheduled_end b ok s)" "same_core s (mark_verified_begin s)"
    "same_core s (drain_now_end s)" "same_core s (delete_checkpoint_locked s)"
  by (rule same_coreI; simp add: sync_failed_def scheduled_end_def schedule_checkpoint_flush_locked_def mark_verified_begin_def
      bump_checkpoint_def drain_now_end_def delete_checkpoint_locked_def Let_def)+


lemma core_will_be:
  assumes "same_core (st (wb y)) s" and "wb y' = (wb y)\<lparr>st := s\<rparr>" and "vals y' = vals y"
  shows "will_be y' = will_be y" "claims plen y' = claims plen y"
proof -
  have c: "chunk_length s = chunk_length (st (wb y))" "sfiles s = sfiles (st (wb y))" "completed s = completed (st (wb y))"
    using assms(1) by (simp_all add: same_core_def fixed_def)
  have "durable y' = durable y" by (intro ext) (simp add: durable_def assms(2,3) c)
  then show wb: "will_be y' = will_be y" by (intro ext) (simp add: will_be_def assms(2) c)
  show "claims plen y' = claims plen y" by (intro ext) (simp add: claims_def wb assms(2) c)
qed

lemma core_inv:
  assumes inv: "cp_inv plen np base hex hash y" and co: "same_core (st (wb y)) s" and w: "wb y' = (wb y)\<lparr>st := s\<rparr>" and v: "vals y' = vals y"
    and fin: "finite (pending_sync_fds s)" and fl: "checkpoint_flushing s \<longleftrightarrow> dpc y' \<noteq> DrainIdle"
    and pend: "pending_sync_fds (st (wb y)) \<union> in_flight (dpc y) \<subseteq> pending_sync_fds s \<union> in_flight (dpc y')"
    and dr: "drain_ok plen np hash y' (dpc y')" and pu: "published_ok plen y' (checkpoint_path base hex)"
  shows "cp_inv plen np base hex hash y'"
proof -
  note i = cp_invD [OF inv] and k = core_will_be [OF co w v]
  have c: "slot s = slot (st (wb y))" "fixed (st (wb y)) s" "cache_inv s" "completed s = completed (st (wb y))" "sinfo s = sinfo (st (wb y))"
    using co wb_invD(2) [OF i(1)] by (simp_all add: same_core_def)
  have "shed (st (wb y)) s" using c(1,2) by (simp add: shed_def)
  then have wi: "wb_inv plen np (wb y')" using c(3) by (intro wb_inv_shed [OF i(1)]) (simp_all add: w)
  have d: "descriptors_ok plen np hash (st (wb y'))" using i(2) c(2,5)
    unfolding descriptors_ok_def by (simp add: w fixed_def piece_length_of_def)
  have se: "sealed plen np (wb y') p \<and> (\<forall>j. int j < plen p \<longrightarrow> will_be y' (pending_sync_fds (st (wb y')) \<union> in_flight (dpc y')) p j)"
    if f: "flag (completed (st (wb y'))) p" for p
  proof -
    have f': "flag (completed (st (wb y))) p" using f by (simp add: w c(4))
    have "sealed plen np (wb y') p" using i(5) [OF f'] by (simp add: sealed_def calm_def w c(1))
    moreover have "will_be y' (pending_sync_fds (st (wb y')) \<union> in_flight (dpc y')) p j" if "int j < plen p" for j
      unfolding k(1) using will_be_mono [OF i(6) [OF f' that] pend] by (simp add: w)
    ultimately show ?thesis by blast
  qed
  have e: "st (wb y') = s" by (simp add: w)
  show ?thesis unfolding cp_inv_def using wi d fin fl se dr pu unfolding e by blast
qed

text \<open>When the drain and the checkpoint file stay, or the drain stands where nothing is claimed.\<close>

lemma published_core:
  assumes "published_ok plen y file" "same_core (st (wb y)) s" "wb y' = (wb y)\<lparr>st := s\<rparr>" "vals y' = vals y" "cfs y' = cfs y"
  shows "published_ok plen y' file"
  using assms(1) unfolding published_ok_def assms(5) core_will_be(2) [OF assms(2-4)] .

lemma drain_ok_core:
  assumes "drain_ok plen np hash y d" "same_core (st (wb y)) s" "wb y' = (wb y)\<lparr>st := s\<rparr>" "vals y' = vals y"
  shows "drain_ok plen np hash y' d"
proof -
  have "sfiles s = sfiles (st (wb y))" using assms(2) by (simp add: same_core_def fixed_def)
  then show ?thesis using assms(1,3) core_will_be(2) [OF assms(2-4)] by (cases d) simp_all
qed

lemma snapshots_map:
  "snapshots dup fs = Inr is \<Longrightarrow> is = map (\<lambda>f. \<lparr>is_file = fd_file f, is_identity = bare_identity (fd_external f) (fd_length f) (fd_path f)\<rparr>) fs"
proof (induction fs arbitrary: "is")
  case (Cons f fs)
  then show ?case by (auto simp: snapshot_new_def Let_def split: sum.splits option.splits)
qed simp

lemma captured_ok:
  assumes "i64_range (fd_length f)" "length (fd_path f) \<le> MAX_CHECKPOINT_PATH" "valid_utf8 (fd_path f)"
  shows "identity_ok (capture stat \<lparr>is_file = fd_file f, is_identity = bare_identity (fd_external f) (fd_length f) (fd_path f)\<rparr>)"
  using assms
  by (auto simp: capture_def identity_ok_def bare_identity_def identity_from_file_def identity_from_metadata_def i64_range_def checked_i64_def Let_def
      split: option.splits)

lemma snapshot_claims:
  assumes inv: "cp_inv plen np base hex hash y" and e: "dpc y = DrainEnter k"
    and b: "drain_begin dup draining hash (st (wb y)) = (s, Inr snap)" and dr: "\<forall>S. finite S \<longrightarrow> set (draining S) = S"
  shows "fst ` set (ds_syncs snap) = pending_sync_fds (st (wb y))" "pending_sync_fds s = {}"
    and "drain_ok plen np hash y (DrainSync k snap (ds_syncs snap) [] None)"
proof -
  note i = cp_invD [OF inv]
  let ?s = "st (wb y)"
  obtain c where c: "take_checkpoint dup hash ?s = Inr c" "ds_checkpoint snap = c" "s = ?s\<lparr>pending_sync_fds := {}\<rparr>"
    "ds_syncs snap = map (sync_source dup (sfiles ?s)) (draining (pending_sync_fds ?s))"
    using b by (auto simp: drain_begin_def split: if_splits sum.splits)
  have "set (draining (pending_sync_fds ?s)) = pending_sync_fds ?s" using dr i(3) by blast
  then show fd: "fst ` set (ds_syncs snap) = pending_sync_fds ?s" by (simp add: c(4) image_image sync_source_def)
  show "pending_sync_fds s = {}" by (simp add: c(3))
  have src: "snd x = Inr None \<longrightarrow> (\<forall>f\<in>set (sfiles ?s). fd_file f \<noteq> Some (fst x))" "\<forall>h. snd x = Inr (Some h) \<longrightarrow> h = fst x"
    if "x \<in> set (ds_syncs snap)" for x
    using that by (fastforce simp: c(4) sync_source_def find_None_iff find_Some_iff map_filter_def split: option.splits)+
  have cp: "claims plen y (fst ` set (ds_syncs snap)) (cp_complete cp) \<and> (\<forall>stat. checkpoint_ok (cp\<lparr>cp_files := map (capture stat) ids\<rparr>))"
    if "ds_checkpoint snap = Some (cp, fgen, ids)" for cp fgen ids
  proof -
    obtain inf where inf: "sinfo ?s = Some inf" "num_pieces inf = np" using i(2) by (auto simp: descriptors_ok_def)
    have t: "snapshots dup (sfiles ?s) = Inr ids" "cp = \<lparr>cp_info_hash = hash, cp_piece_length = chunk_length ?s, cp_num_pieces = np,
        cp_files = [], cp_complete = completion_bits ?s np\<rparr>"
      using c(1,2) that inf by (auto simp: take_checkpoint_def Let_def split: if_splits sum.splits)
    have "will_be y (pending_sync_fds ?s) p j" if "flag (completed ?s) p" "int j < plen p" for p j
      using i(6) [OF that] e by simp
    then have "claims plen y (fst ` set (ds_syncs snap)) (cp_complete cp)" unfolding fd by (simp add: claims_def t(2) completion_bits_def)
    moreover have "checkpoint_ok (cp\<lparr>cp_files := map (capture stat) ids\<rparr>)" for stat
    proof -
      have "list_all identity_ok (map (capture stat) ids)"
        using i(2) captured_ok by (auto simp: snapshots_map [OF t(1)] list_all_iff descriptors_ok_def)
      moreover have "0 < chunk_length ?s" "chunk_length ?s \<le> i64_max"
        using geometryD(6) [OF wb_invD(1) [OF i(1)]] wb_invD(1) [OF i(1)] by (auto simp: geometry_def)
      ultimately show ?thesis using i(2) snapshots_map [OF t(1)] by (simp add: checkpoint_ok_def t(2) completion_bits_def descriptors_ok_def)
    qed
    ultimately show ?thesis by blast
  qed
  show "drain_ok plen np hash y (DrainSync k snap (ds_syncs snap) [] None)" using src cp by auto
qed


text \<open>A sync makes the bytes of its file durable.\<close>

lemma synced_will_be:
  assumes inv: "cp_inv plen np base hex hash y" and d: "dpc y = DrainSync k snap ((fd, src) # todo) failed err"
    and ok: "sync_one sync_all src = None"
    and y': "y' = y\<lparr>dpc := DrainSync k snap todo failed err, vals := after_sync (sfiles (st (wb y))) (dk (wb y)) src (vals y)\<rparr>"
    and c: "flag (completed (st (wb y))) p" "int j < plen p" and w: "will_be y (insert fd S) p j"
  shows "will_be y' S p j"
proof -
  note i = cp_invD [OF inv]
  let ?fs = "sfiles (st (wb y))" and ?a = "int p * chunk_length (st (wb y)) + int j"
  have im: "img (dk (wb y)) ?fs ?a = the (got (wb y) p j)" using sealed_img [OF i(1) i(5) [OF c(1)] c(2)] .
  have dur: "durable y' p j" if "durable y p j" using that im by (auto simp: durable_def y' after_sync_def split: sum.splits option.splits if_splits)
  have "durable y' p j" if a: "in_file ?fs fd ?a"
  proof -
    have s: "src = Inr None \<longrightarrow> (\<forall>f\<in>set ?fs. fd_file f \<noteq> Some fd)" "\<forall>h. src = Inr (Some h) \<longrightarrow> h = fd"
      using i(7) unfolding d by auto
    then have "src = Inr (Some fd)" using ok a by (cases src) (auto simp: sync_one_def in_file_def split: option.splits)
    then show ?thesis using a im by (simp add: durable_def y' after_sync_def)
  qed
  with dur show ?thesis using w unfolding will_be_def by (auto simp: y')
qed

lemma synced_inv:
  assumes inv: "cp_inv plen np base hex hash y" and d: "dpc y = DrainSync k snap ((fd, src) # todo) failed err"
    and ok: "sync_one sync_all src = None"
  shows "cp_inv plen np base hex hash
    (y\<lparr>dpc := DrainSync k snap todo failed err, vals := after_sync (sfiles (st (wb y))) (dk (wb y)) src (vals y)\<rparr>)" (is "cp_inv _ _ _ _ _ ?y")
proof -
  note i = cp_invD [OF inv] and w = synced_will_be [OF inv d ok refl]
  have fl: "in_flight (dpc y) = insert fd (in_flight (dpc ?y))" by (auto simp: d)
  have ins: "will_be y (insert fd S) p j" if "will_be y S p j" for S p j using that by (rule will_be_mono) blast
  have cl: "claims plen ?y S bits" if "claims plen y (insert fd S) bits" for S bits
    using claims_mono [OF that, of ?y S] w by simp
  have cl': "claims plen ?y S bits" if "claims plen y S bits" for S bits
    by (rule cl, rule claims_mono [OF that]) (use ins in simp_all)
  have "will_be ?y (pending_sync_fds (st (wb y)) \<union> in_flight (dpc ?y)) p j" if "flag (completed (st (wb y))) p" "int j < plen p" for p j
    using w [OF that] i(6) [OF that] unfolding fl by simp
  moreover have "drain_ok plen np hash ?y (dpc ?y)" using i(7) cl unfolding d by simp
  moreover have e: "cfs ?y = cfs y" "wb ?y = wb y" by simp_all
  have "published_ok plen ?y (checkpoint_path base hex)" using i(8) cl' unfolding published_ok_def e by blast
  ultimately show ?thesis using i(1-5) d unfolding cp_inv_def e by simp
qed

text \<open>The checkpoint file: written with what has been synced, or removed.\<close>

lemma write_states_nonempty: "write_piece_checkpoint calls fs file cp = Some (fss, r) \<Longrightarrow> fss \<noteq> []"
  by (auto simp: write_piece_checkpoint_def Let_def split: if_splits option.splits prod.splits)

lemma write_state_claims:
  assumes ok: "checkpoint_ok cp" and cl: "claims plen y {} (cp_complete cp)" and pu: "published_ok plen y (checkpoint_path base hex)"
    and w: "write_piece_checkpoint calls (cfs y) (checkpoint_path base hex) cp = Some (fss, r)" and f: "fs \<in> set fss"
  shows "published_ok plen (y\<lparr>cfs := fs\<rparr>) (checkpoint_path base hex)"
proof -
  let ?p = "checkpoint_path base hex"
  obtain data where d: "encode_checkpoint cp = Some data" "decode_checkpoint data = Some (Inr cp)" using decode_encode_checkpoint [OF ok] .
  have "fs ?p = cfs y ?p \<or> fs ?p = Some (data, True)"
    using write_form_cases(1) [OF subsetD [OF write_forms(1) [OF d(1) w] f] tmp_path] .
  then show ?thesis
  proof
    assume e: "fs ?p = cfs y ?p"
    have "claims plen (y\<lparr>cfs := fs\<rparr>) = claims plen y" by (auto simp: fun_eq_iff claims_def will_be_def durable_def)
    then show ?thesis using pu e unfolding published_ok_def settled_def contents_def by simp
  next
    assume e: "fs ?p = Some (data, True)"
    have "claims plen (y\<lparr>cfs := fs\<rparr>) = claims plen y" by (auto simp: fun_eq_iff claims_def will_be_def durable_def)
    then show ?thesis using e cl d(2) unfolding published_ok_def settled_def contents_def by simp
  qed
qed


lemma removed_published:
  assumes pu: "published_ok plen y (checkpoint_path base hex)"
    and fs: "fs = cfs y \<or> fs = fst (delete_piece_checkpoint e (cfs y) base hex)"
    and y': "same_core (st (wb y)) s" "wb y' = (wb y)\<lparr>st := s\<rparr>" "vals y' = vals y" "cfs y' = fs"
  shows "published_ok plen y' (checkpoint_path base hex)"
proof -
  let ?p = "checkpoint_path base hex"
  have "fs = cfs y \<or> fs ?p = None" using fs by (auto simp: delete_piece_checkpoint_def Let_def split: option.splits)
  then show ?thesis
  proof
    assume "fs = cfs y"
    then show ?thesis using published_core [OF pu y'(1-3)] y'(4) by simp
  next
    assume "fs ?p = None"
    then show ?thesis by (simp add: published_ok_def y'(4) settled_def contents_def)
  qed
qed

lemma drain_finish_files:
  "drain_finish g f q w e base hex s fs = (t, fs', ok) \<Longrightarrow> fs' = fs \<or> fs' = fst (delete_piece_checkpoint e fs base hex)"
  by (auto simp: drain_finish_def split: if_splits sum.splits)

text \<open>Steps that leave the checkpoint file and end where the drain claims nothing new.\<close>

lemma quiet_inv:
  assumes inv: "cp_inv plen np base hex hash y" and co: "same_core (st (wb y)) s"
    and y': "wb y' = (wb y)\<lparr>st := s\<rparr>" "vals y' = vals y" "cfs y' = cfs y"
    and fin: "finite (pending_sync_fds s)" and fl: "checkpoint_flushing s \<longleftrightarrow> dpc y' \<noteq> DrainIdle"
    and pend: "pending_sync_fds (st (wb y)) \<union> in_flight (dpc y) \<subseteq> pending_sync_fds s \<union> in_flight (dpc y')"
    and dr: "drain_ok plen np hash y (dpc y')"
  shows "cp_inv plen np base hex hash y'"
  using core_inv [OF inv co y'(1,2) fin fl pend] drain_ok_core [OF dr co y'(1,2)] published_core [OF cp_invD(8) [OF inv] co y'] by blast

lemma pending_unchanged:
  "drain_check g f ids s = (t, r) \<Longrightarrow> pending_sync_fds t = pending_sync_fds s \<and> checkpoint_flushing t = checkpoint_flushing s"
  "drain_finish g f q w e base hex s fs = (t, fs', ok) \<Longrightarrow> pending_sync_fds t = pending_sync_fds s \<and> checkpoint_flushing t = checkpoint_flushing s"
  "drain_begin dup dr hash s = (t, Inl b) \<Longrightarrow> pending_sync_fds t = pending_sync_fds s \<and> checkpoint_flushing t = checkpoint_flushing s"
  "drain_begin dup dr hash s = (t, Inr snap) \<Longrightarrow> checkpoint_flushing t = checkpoint_flushing s"
  "scheduled_begin s = (t, b) \<Longrightarrow> pending_sync_fds t = pending_sync_fds s \<and> (checkpoint_flushing t \<longleftrightarrow> b \<or> checkpoint_flushing s)"
  "scheduled_begin s = (t, True) \<Longrightarrow> \<not> checkpoint_flushing s"
  by (auto simp: drain_check_def drain_finish_def drain_begin_def scheduled_begin_def Let_def split: if_splits sum.splits)

lemma pending_ends [simp]:
  "pending_sync_fds (scheduled_end b ok s) = pending_sync_fds s" "\<not> checkpoint_flushing (scheduled_end b ok s)"
  "pending_sync_fds (drain_now_end s) = pending_sync_fds s" "\<not> checkpoint_flushing (drain_now_end s)"
  "pending_sync_fds (mark_verified_begin s) = pending_sync_fds s" "checkpoint_flushing (mark_verified_begin s)"
  "pending_sync_fds (delete_checkpoint_locked s) = pending_sync_fds s"
  "checkpoint_flushing (delete_checkpoint_locked s) = checkpoint_flushing s"
  "pending_sync_fds (sync_failed failed e s) = pending_sync_fds s \<union> set failed"
  "checkpoint_flushing (sync_failed failed e s) = checkpoint_flushing s"
  by (simp_all add: scheduled_end_def schedule_checkpoint_flush_locked_def drain_now_end_def mark_verified_begin_def bump_checkpoint_def
      delete_checkpoint_locked_def sync_failed_def Let_def)

lemma with_st_simps [simp]: "wb (with_st y s) = (wb y)\<lparr>st := s\<rparr>" "vals (with_st y s) = vals y" "cfs (with_st y s) = cfs y" "dpc (with_st y s) = dpc y"
  by (simp_all add: with_st_def)

lemma idle_flight: "cp_inv plen np base hex hash y \<Longrightarrow> \<not> checkpoint_flushing (st (wb y)) \<Longrightarrow> in_flight (dpc y) = {}"
  using cp_invD(4) by fastforce

lemma cp_step_inv:
  assumes "cp_step plen np base hex hash y y'" and inv: "cp_inv plen np base hex hash y"
  shows "cp_inv plen np base hex hash y'"
  using assms(1)
proof cases
  case (storage x)
  then show ?thesis using storage_inv [OF inv] by simp
next
  case (scheduled s)
  note p = pending_unchanged(5,6) [OF scheduled(2)]
  show ?thesis unfolding scheduled(1)
    by (rule quiet_inv [OF inv scheduled_begin_core [OF scheduled(2)]]) (use p idle_flight [OF inv p(2)] cp_invD(3) [OF inv] in auto)
next
  case (not_needed s)
  note p = pending_unchanged(5) [OF not_needed(2)]
  show ?thesis unfolding not_needed(1)
    by (rule quiet_inv [OF inv scheduled_begin_core [OF not_needed(2)]]) (use p cp_invD(3,4,7) [OF inv] in auto)
next
  case mark_verified
  then have "in_flight (dpc y) = {}" using idle_flight [OF inv] by (simp add: checkpoint_idle_def)
  then show ?thesis unfolding mark_verified(1) by (intro quiet_inv [OF inv other_core(3)]) (use cp_invD(3) [OF inv] in auto)
next
  case (snapshot k draining dup s snap)
  note sn = snapshot_claims [OF inv snapshot(2,4,3)]
  have "checkpoint_flushing s" using pending_unchanged(4) [OF snapshot(4)] cp_invD(4) [OF inv] snapshot(2) by simp
  then show ?thesis unfolding snapshot(1)
    by (intro quiet_inv [OF inv drain_begin_core [OF snapshot(4)]]) (use sn snapshot(2) in auto)
next
  case (no_snapshot k dup draining s r)
  show ?thesis unfolding no_snapshot(1)
    by (rule quiet_inv [OF inv drain_begin_core [OF no_snapshot(3)]])
      (use pending_unchanged(3) [OF no_snapshot(3)] cp_invD(3,4) [OF inv] no_snapshot(2) in auto)
next
  case (synced k snap fd src todo failed err sync_all)
  then show ?thesis using synced_inv [OF inv] by simp
next
  case (not_synced k snap fd src todo failed err sync_all e)
  show ?thesis unfolding not_synced(1)
    by (rule quiet_inv [where s = "st (wb y)", OF inv]) (use cp_invD(3,4,7) [OF inv] not_synced(2) in \<open>auto simp: insert_commute Un_commute\<close>)
next
  case (syncs_failed k snap failed e)
  show ?thesis unfolding syncs_failed(1)
    by (rule quiet_inv [OF inv other_core(1)]) (use cp_invD(3,4) [OF inv] syncs_failed(2) in auto)
next
  case (only_syncs k snap failed)
  then have "failed = []" using cp_invD(7) [OF inv] by auto
  then show ?thesis unfolding only_syncs(1)
    by (intro quiet_inv [where s = "st (wb y)", OF inv]) (use cp_invD(3,4) [OF inv] only_syncs(2) in auto)
next
  case (outdated k snap failed cp fgen ids stat s r)
  then have "failed = []" using cp_invD(7) [OF inv] by auto
  then show ?thesis unfolding outdated(1)
    by (intro quiet_inv [OF inv drain_check_core [OF outdated(4)]])
      (use pending_unchanged(1) [OF outdated(4)] cp_invD(3,4) [OF inv] outdated(2) in auto)
next
  case (current k snap failed cp fgen ids stat s)
  then have f: "failed = []" using cp_invD(7) [OF inv] by auto
  then show ?thesis unfolding current(1)
    by (intro quiet_inv [OF inv drain_check_core [OF current(4)]])
      (use pending_unchanged(1) [OF current(4)] cp_invD(3,4,7) [OF inv] current(2,3) in auto)
next
  case (written k snap cp calls fss r)
  have d: "claims plen y {} (cp_complete cp)" "checkpoint_ok cp" using cp_invD(7) [OF inv] written(2) by auto
  have "published_ok plen (y\<lparr>cfs := last fss\<rparr>) (checkpoint_path base hex)"
    using write_state_claims [OF d(2,1) cp_invD(8) [OF inv] written(3)] write_states_nonempty [OF written(3)] by simp
  then have "published_ok plen y' (checkpoint_path base hex)"
    unfolding written(1) published_ok_def claims_def will_be_def durable_def by simp blast
  then show ?thesis unfolding written(1)
    by (intro core_inv [where s = "st (wb y)", OF inv]) (use cp_invD(3,4) [OF inv] written(2) in auto)
next
  case (finished k snap r cp fgen ids del_err s fs ok)
  note c = drain_finish_core [OF finished(4)]
  have "published_ok plen y' (checkpoint_path base hex)" unfolding finished(1)
    by (rule removed_published [OF cp_invD(8) [OF inv] drain_finish_files [OF finished(4)] c]) simp_all
  then show ?thesis unfolding finished(1)
    by (intro core_inv [OF inv c]) (use pending_unchanged(2) [OF finished(4)] cp_invD(3,4) [OF inv] finished(2) in auto)
next
  case (scheduled_done ok spawned)
  show ?thesis unfolding scheduled_done(1)
    by (rule quiet_inv [OF inv other_core(2)]) (use cp_invD(3) [OF inv] scheduled_done(2) in auto)
next
  case (drain_now_done ok)
  show ?thesis unfolding drain_now_done(1)
    by (rule quiet_inv [OF inv other_core(4)]) (use cp_invD(3) [OF inv] drain_now_done(2) in auto)
next
  case forget
  show ?thesis unfolding forget(1)
    by (rule quiet_inv [OF inv other_core(5)]) (use cp_invD(3,4,7) [OF inv] in auto)
next
  case (remove_file del_err)
  have "published_ok plen y' (checkpoint_path base hex)" unfolding remove_file(1)
    by (rule removed_published [OF cp_invD(8) [OF inv] disjI2 [OF refl] same_core_refl]) simp_all
  moreover have "drain_ok plen np hash y' (dpc y)" unfolding remove_file(1)
    by (rule drain_ok_core [OF cp_invD(7) [OF inv] same_core_refl]) simp_all
  ultimately show ?thesis unfolding remove_file(1)
    by (intro core_inv [OF inv same_core_refl]) (use cp_invD(3,4) [OF inv] in auto)
qed


section \<open>Starting again after a crash\<close>

definition cp_start :: "(nat \<Rightarrow> int) \<Rightarrow> nat \<Rightarrow> fpath \<Rightarrow> string \<Rightarrow> bytes \<Rightarrow> cp_state \<Rightarrow> bool" where
  "cp_start plen np base hex hash y \<longleftrightarrow>
     wb_start plen np (wb y) \<and> descriptors_ok plen np hash (st (wb y)) \<and> (\<forall>p. \<not> flag (completed (st (wb y))) p)
     \<and> finite (pending_sync_fds (st (wb y))) \<and> \<not> checkpoint_flushing (st (wb y)) \<and> dpc y = DrainIdle
     \<and> cfs y (checkpoint_path base hex) = None"

lemma cp_start_inv: "cp_start plen np base hex hash y \<Longrightarrow> cp_inv plen np base hex hash y"
  unfolding cp_start_def cp_inv_def published_ok_def settled_def contents_def by (simp add: wb_start_inv)

lemma cp_reach_inv:
  assumes "(cp_step plen np base hex hash)\<^sup>*\<^sup>* y0 y" "cp_start plen np base hex hash y0"
  shows "cp_inv plen np base hex hash y"
  using assms by (induction rule: rtranclp_induct) (auto intro: cp_start_inv cp_step_inv)

lemma load_bits_completed:
  "load_bits s saved cur k oks = Some t \<Longrightarrow> flag (completed t) p \<Longrightarrow> flag (completed s) p \<or> k \<le> p \<and> p < k + length oks \<and> oks ! (p - k)"
proof (induction oks arbitrary: s k)
  case (Cons ok oks)
  obtain s' where s': "load_bits s' saved cur (k + 1) oks = Some t" "flag (completed s') p \<longrightarrow> flag (completed s) p \<or> ok \<and> p = k"
    using Cons.prems(1) by (auto simp: flag_def split: if_splits option.splits)
  from Cons.IH [OF s'(1) Cons.prems(2)] s'(2) show ?case by (cases "p = k") (auto simp: nth_Cons')
qed simp

text \<open>The states the checkpoint file can be found in: between system calls, and inside the write.\<close>

definition crash_files :: "fpath \<Rightarrow> string \<Rightarrow> cp_state \<Rightarrow> file_system set" where
  "crash_files base hex y = insert (cfs y) {fs. \<exists>k snap cp calls fss r. dpc y = DrainWrite k snap cp
     \<and> write_piece_checkpoint calls (cfs y) (checkpoint_path base hex) cp = Some (fss, r) \<and> fs \<in> set fss}"

lemma crash_files_ok:
  assumes inv: "cp_inv plen np base hex hash y" and f: "fs \<in> crash_files base hex y"
  shows "published_ok plen (y\<lparr>cfs := fs\<rparr>) (checkpoint_path base hex)"
proof (cases "fs = cfs y")
  case False
  then obtain k snap cp calls fss r where w: "dpc y = DrainWrite k snap cp"
    "write_piece_checkpoint calls (cfs y) (checkpoint_path base hex) cp = Some (fss, r)" "fs \<in> set fss"
    using f by (auto simp: crash_files_def)
  have "claims plen y {} (cp_complete cp)" "checkpoint_ok cp" using cp_invD(7) [OF inv] w(1) by auto
  then show ?thesis using write_state_claims [OF _ _ cp_invD(8) [OF inv] w(2,3)] by blast
qed (use cp_invD(8) [OF inv] in simp)

text \<open>
  C1: A restart trusts only what is durable. Pieces are received, flushed, verified and completed while
  drains sync the files and publish the checkpoint; the process may die at any moment, also inside the
  write of the checkpoint, and unsynced writes may be lost. When the storage that is opened next marks a
  piece complete from the checkpoint it finds, then every value that a byte of the piece can have on disk
  after the crash is the byte that was received.
\<close>

theorem restart_trusts_durable_pieces:
  assumes "cp_start plen np base hex hash y0" and "(cp_step plen np base hex hash)\<^sup>*\<^sup>* y0 y"
    and "fs \<in> crash_files base hex y" and "crash fs found"
    and "load_checkpoint_locked io_err found hash' base hex ids s0 = Some (s1, loaded)"
    and "\<not> flag (completed s0) p" and "flag (completed s1) p" and "int j < plen p"
    and "v \<in> vals y (int p * chunk_length (st (wb y)) + int j)"
  shows "got (wb y) p j = Some v"
proof -
  let ?p = "checkpoint_path base hex" and ?y = "y\<lparr>cfs := fs\<rparr>"
  have inv: "cp_inv plen np base hex hash y" using cp_reach_inv assms(1,2) by blast
  have pu: "published_ok plen ?y ?p" using crash_files_ok [OF inv assms(3)] .
  obtain cp where cp: "read_piece_checkpoint io_err found ?p = Some (Inr cp)" "load_bits s0 (cp_files cp) ids 0 (cp_complete cp) = Some s1"
    using assms(5-7) by (auto simp: load_checkpoint_locked_def split: option.splits sum.splits if_splits)
  have bit: "p < length (cp_complete cp)" "cp_complete cp ! p" using load_bits_completed [OF cp(2) assms(7)] assms(6) by auto
  have "found ?p = contents fs ?p" using crash_settled [OF assms(4)] pu by (simp add: published_ok_def)
  then obtain data where "contents fs ?p = Some data" "decode_checkpoint data = Some (Inr cp)"
    using cp(1) by (auto simp: read_piece_checkpoint_def split: option.splits)
  then have "claims plen ?y {} (cp_complete cp)" using pu unfolding published_ok_def by simp
  then have c: "flag (completed (st (wb y))) p" "durable y p j" using bit assms(8) by (auto simp: claims_def will_be_def durable_def)
  have "got (wb y) p j \<noteq> None" using cp_invD(5) [OF inv c(1)] assms(8) by (simp add: sealed_def)
  then show ?thesis using c(2) assms(9) by (auto simp: durable_def)
qed


lemma bump_checkpoint_code [code]:
  "bump_checkpoint s = s\<lparr>checkpoint_dirty := True, checkpoint_seq := nat ((int (checkpoint_seq s) + 1) mod 18446744073709551616)\<rparr>"
  by (simp add: bump_checkpoint_def nat_mod_distrib nat_add_distrib)

text \<open>The run of the witness: one piece of four bytes arrives, is flushed and completed; a scheduled drain publishes it.\<close>

definition one_piece :: info where
  "one_piece = default_info\<lparr>piece_length := 4,
     files := [\<lparr>path = [[97]], flength = 4, torrent_offset = 0, attr = [], pieces_root = None\<rparr>]\<rparr>"

definition run_c0 :: storage_inner where
  "run_c0 = (fresh_storage (one_file 4) 4 9)\<lparr>sinfo := Some one_piece\<rparr>"

definition run_c1 :: storage_inner where
  "run_c1 = fst (the (write_attempt run_c0 1 0 4 0 [1, 2, 3, 4]))"

definition run_c2 :: storage_inner where
  "run_c2 = fst (begin_flush run_c1 0)"

definition run_w :: piece_flush where
  "run_w = projr (snd (begin_flush run_c1 0))"

definition run_d :: disk where
  "run_d = fst (flush_write (\<lambda>_ _ _. None) (\<lambda>_. replicate 4 0) (pf_writes run_w))"

definition run_c3 :: storage_inner where
  "run_c3 = fst (finish_flush run_c2 0 run_w (Inr ()))"

definition run_c4 :: storage_inner where
  "run_c4 = complete_piece True run_c3 0"

definition run_c5 :: storage_inner where
  "run_c5 = fst (scheduled_begin run_c4)"

definition run_c6 :: storage_inner where
  "run_c6 = fst (drain_begin (\<lambda>_. None) sorted_list_of_set (replicate 20 7) run_c5)"

definition run_snap :: drain_snapshot where
  "run_snap = projr (snd (drain_begin (\<lambda>_. None) sorted_list_of_set (replicate 20 7) run_c5))"

definition run_stat :: "nat \<Rightarrow> metadata option" where
  "run_stat h = Some \<lparr>md_dev = 1, md_ino = 1, md_mtime = 0, md_mtime_nsec = 0\<rparr>"

definition run_id :: file_identity where
  "run_id = \<lparr>id_external = False, id_dev = 1, id_ino = 1, id_length = 4, id_mod_nano = 0, id_path = [97]\<rparr>"

definition run_cp :: piece_checkpoint where
  "run_cp = \<lparr>cp_info_hash = replicate 20 7, cp_piece_length = 4, cp_num_pieces = 1, cp_files = [run_id], cp_complete = [True]\<rparr>"

definition run_x :: "storage_inner \<Rightarrow> disk \<Rightarrow> pc \<Rightarrow> wb_state" where
  "run_x s d c = \<lparr>st = s, dk = d, pcs = (\<lambda>_. Idle)(0 := c), got = (\<lambda>_ _. None)(0 := learned (\<lambda>_. None) 0 [1, 2, 3, 4]), born = (\<lambda>_. 0)(0 := 1)\<rparr>"

definition run_x0 :: wb_state where
  "run_x0 = \<lparr>st = run_c0, dk = (\<lambda>_. replicate 4 0), pcs = (\<lambda>_. Idle), got = (\<lambda>_ _. None), born = (\<lambda>_. 0)\<rparr>"

definition run_y0 :: cp_state where
  "run_y0 = \<lparr>wb = run_x0, vals = (\<lambda>_. {0}), cfs = (\<lambda>_. None), dpc = DrainIdle\<rparr>"

abbreviation run_step :: "cp_state \<Rightarrow> cp_state \<Rightarrow> bool" where
  "run_step \<equiv> cp_step (\<lambda>_. 4) 1 [''b''] ''ab'' (replicate 20 7)"

lemma run_facts:
  "map_option snd (write_attempt run_c0 1 0 4 0 [1, 2, 3, 4]) = Some (Done (Inr 4))" "cache run_c1 0 \<noteq> None" "0 \<notin> flushing run_c1"
  "\<not> isl (snd (begin_flush run_c1 0))" "length (pf_writes run_w) = 1" "\<not> isl (snd (finish_flush run_c2 0 run_w (Inr ())))"
  "\<not> flag (cache_dirty run_c3) 0" "0 \<notin> flushing run_c3" "snd (scheduled_begin run_c4)"
  "\<not> isl (snd (drain_begin (\<lambda>_. None) sorted_list_of_set (replicate 20 7) run_c5))" "ds_syncs run_snap = [(7, Inr (Some 7))]"
  "map_option (\<lambda>(cp, g, ids). (cp\<lparr>cp_files := map (capture run_stat) ids\<rparr>, g)) (ds_checkpoint run_snap) = Some (run_cp, 0)"
  "\<not> isl (snd (drain_check (ds_gen run_snap) 0 [run_id] run_c6))" "sfiles run_c6 = one_file 4" "chunk_length run_c6 = 4"
  "img run_d (one_file 4) 2 = 3"
  by code_simp+

lemma run_completed:
  "completed run_c1 = completed run_c0" "completed run_c2 = completed run_c0" "completed run_c3 = completed run_c0"
  "completed run_c4 = (completed run_c0)(0 \<mapsto> True)"
proof -
  obtain nx where "write_attempt run_c0 1 0 4 0 [1, 2, 3, 4] = Some (run_c1, nx)" using run_facts(1) by (auto simp: run_c1_def)
  then have 1: "marks run_c1 = marks run_c0" by (rule write_attempt_marks)
  have 2: "marks run_c2 = marks run_c1" by (rule begin_flush_marks) (simp add: run_c2_def prod_eq_iff)
  have 3: "marks run_c3 = marks run_c2" by (rule finish_flush_marks) (simp add: run_c3_def prod_eq_iff)
  show c: "completed run_c1 = completed run_c0" "completed run_c2 = completed run_c0" "completed run_c3 = completed run_c0"
    using 1 2 3 by (simp_all add: marks_def)
  show "completed run_c4 = (completed run_c0)(0 \<mapsto> True)"
    by (simp add: run_c4_def complete_piece_def Let_def schedule_checkpoint_flush_locked_def bump_checkpoint_def note_piece_files_need_sync_locked_def c)
qed

lemma run_wb:
  "wb_step (\<lambda>_. 4) 1 run_x0 (run_x run_c1 (\<lambda>_. replicate 4 0) Idle)"
  "wb_step (\<lambda>_. 4) 1 (run_x run_c1 (\<lambda>_. replicate 4 0) Idle) (run_x run_c2 (\<lambda>_. replicate 4 0) (Flushing 0 run_w (pf_writes run_w) None))"
  "wb_step (\<lambda>_. 4) 1 (run_x run_c2 (\<lambda>_. replicate 4 0) (Flushing 0 run_w (pf_writes run_w) None)) (run_x run_c2 run_d (Flushing 0 run_w [] None))"
  "wb_step (\<lambda>_. 4) 1 (run_x run_c2 run_d (Flushing 0 run_w [] None)) (run_x run_c3 run_d Idle)"
  "wb_step (\<lambda>_. 4) 1 (run_x run_c3 run_d Idle) (run_x run_c4 run_d Idle)"
proof -
  have w: "write_attempt run_c0 1 0 4 0 [1, 2, 3, 4] = Some (run_c1, Done (Inr 4))" using run_facts(1) by (auto simp: run_c1_def)
  show "wb_step (\<lambda>_. 4) 1 run_x0 (run_x run_c1 (\<lambda>_. replicate 4 0) Idle)"
    using wb_step.receive [of 0 1 run_x0 "[1, 2, 3, 4]" 0 "\<lambda>_. 4" 1 run_c1 "Done (Inr 4)"] w run_facts(2)
    by (simp add: run_x0_def run_x_def run_c0_def fresh_storage_def unknown_def fun_upd_idem)
  have b: "begin_flush run_c1 0 = (run_c2, Inr run_w)" using run_facts(4) by (simp add: run_c2_def run_w_def prod_eq_iff)
  show "wb_step (\<lambda>_. 4) 1 (run_x run_c1 (\<lambda>_. replicate 4 0) Idle) (run_x run_c2 (\<lambda>_. replicate 4 0) (Flushing 0 run_w (pf_writes run_w) None))"
    using wb_step.flush_begin [of "run_x run_c1 (\<lambda>_. replicate 4 0) Idle" 0 0 1 run_c2 run_w "\<lambda>_. 4"] b run_facts(3) by (simp add: run_x_def)
  obtain w where w: "pf_writes run_w = [w]" using run_facts(5) by (auto simp: length_Suc_conv)
  have io: "flush_write (\<lambda>_ _ _. None) (\<lambda>_. replicate 4 0) [w] = (run_d, Inr ())"
    by (cases w) (simp add: run_d_def w write_all_at_def)
  show "wb_step (\<lambda>_. 4) 1 (run_x run_c2 (\<lambda>_. replicate 4 0) (Flushing 0 run_w (pf_writes run_w) None)) (run_x run_c2 run_d (Flushing 0 run_w [] None))"
    using wb_step.flush_io [of "run_x run_c2 (\<lambda>_. replicate 4 0) (Flushing 0 run_w [w] None)" 0 0 run_w w "[]" _ run_d "Inr ()" "[]" None] io
    by (simp add: run_x_def w after_write_def)
  have "finish_flush run_c2 0 run_w (outcome None) = (run_c3, snd (finish_flush run_c2 0 run_w (Inr ())))"
    by (simp add: outcome_def run_c3_def)
  then show "wb_step (\<lambda>_. 4) 1 (run_x run_c2 run_d (Flushing 0 run_w [] None)) (run_x run_c3 run_d Idle)"
    using wb_step.flush_end [of "run_x run_c2 run_d (Flushing 0 run_w [] None)" 0 0 run_w None run_c3] by (simp add: run_x_def fun_upd_idem)
  show "wb_step (\<lambda>_. 4) 1 (run_x run_c3 run_d Idle) (run_x run_c4 run_d Idle)"
    using wb_step.complete [of "\<lambda>_. 4" 1 "run_x run_c3 run_d Idle" True 0] by (simp add: run_x_def run_c4_def)
qed

text \<open>The same steps with the values that a crash may leave, followed by the drain.\<close>

definition run_y :: "wb_state \<Rightarrow> (int \<Rightarrow> u8 set) \<Rightarrow> drain_pc \<Rightarrow> cp_state" where
  "run_y x v c = \<lparr>wb = x, vals = v, cfs = (\<lambda>_. None), dpc = c\<rparr>"

lemma run_lift:
  assumes "wb_step (\<lambda>_. 4) 1 x x'" "verified (\<lambda>_. 4) 1 x x'"
  shows "\<exists>v'. run_step (run_y x v DrainIdle) (run_y x' v' DrainIdle)"
  using cp_step.storage [of "\<lambda>_. 4" 1 "run_y x v DrainIdle" x'] assms by (auto simp: run_y_def)

lemma run_received: "\<exists>v. run_step\<^sup>*\<^sup>* run_y0 (run_y (run_x run_c4 run_d Idle) v DrainIdle)"
proof -
  have same: "verified (\<lambda>_. 4) 1 x x'" if "completed (st x') = completed (st x)" for x x' using that by (simp add: verified_def)
  have "slot run_c3 0 = slot run_c3 0 \<and> calm run_c3 0" using run_facts(7,8) by (simp add: calm_def slot_def)
  then have "sealed (\<lambda>_. 4) 1 (run_x run_c3 run_d Idle) 0" by (auto simp: sealed_def run_x_def learned_def)
  moreover have "\<not> flag (completed run_c0) p" for p by (simp add: run_c0_def fresh_storage_def flag_def)
  ultimately have v5: "verified (\<lambda>_. 4) 1 (run_x run_c3 run_d Idle) (run_x run_c4 run_d Idle)"
    by (auto simp: verified_def run_x_def run_completed flag_def split: if_splits)
  have y0: "run_y0 = run_y run_x0 (\<lambda>_. {0}) DrainIdle" by (simp add: run_y0_def run_y_def)
  obtain v1 where s1: "run_step (run_y run_x0 (\<lambda>_. {0}) DrainIdle) (run_y (run_x run_c1 (\<lambda>_. replicate 4 0) Idle) v1 DrainIdle)"
    using run_lift [OF run_wb(1) same] by (force simp: run_x_def run_x0_def run_completed)
  obtain v2 where s2: "run_step (run_y (run_x run_c1 (\<lambda>_. replicate 4 0) Idle) v1 DrainIdle)
      (run_y (run_x run_c2 (\<lambda>_. replicate 4 0) (Flushing 0 run_w (pf_writes run_w) None)) v2 DrainIdle)"
    using run_lift [OF run_wb(2) same] by (force simp: run_x_def run_completed)
  obtain v3 where s3: "run_step (run_y (run_x run_c2 (\<lambda>_. replicate 4 0) (Flushing 0 run_w (pf_writes run_w) None)) v2 DrainIdle)
      (run_y (run_x run_c2 run_d (Flushing 0 run_w [] None)) v3 DrainIdle)"
    using run_lift [OF run_wb(3) same] by (force simp: run_x_def run_completed)
  obtain v4 where s4: "run_step (run_y (run_x run_c2 run_d (Flushing 0 run_w [] None)) v3 DrainIdle) (run_y (run_x run_c3 run_d Idle) v4 DrainIdle)"
    using run_lift [OF run_wb(4) same] by (force simp: run_x_def run_completed)
  obtain v5 where s5: "run_step (run_y (run_x run_c3 run_d Idle) v4 DrainIdle) (run_y (run_x run_c4 run_d Idle) v5 DrainIdle)"
    using run_lift [OF run_wb(5) v5] by blast
  note into = rtranclp.rtrancl_into_rtrancl [of run_step]
  show ?thesis unfolding y0 by (rule exI, rule into [OF into [OF into [OF into [OF into [OF rtranclp.rtrancl_refl [of run_step] s1] s2] s3] s4] s5])
qed

lemma run_drained:
  "\<exists>y. run_step\<^sup>*\<^sup>* run_y0 y \<and> (\<exists>k snap. dpc y = DrainWrite k snap run_cp) \<and> cfs y = (\<lambda>_. None)
     \<and> vals y 2 = {3} \<and> chunk_length (st (wb y)) = 4 \<and> got (wb y) 0 2 = Some 3"
proof -
  obtain v where r: "run_step\<^sup>*\<^sup>* run_y0 (run_y (run_x run_c4 run_d Idle) v DrainIdle)" using run_received by blast
  let ?x = "\<lambda>s. run_x s run_d Idle" and ?h = "replicate 20 7 :: bytes"
  have st: "st (wb (run_y (?x s) v c)) = s" "with_st (run_y (?x s) v c) s' = run_y (?x s') v c" for s s' v c
    by (simp_all add: run_y_def run_x_def with_st_def)
  have dp: "(run_y x v c)\<lparr>dpc := c'\<rparr> = run_y x v c'" "dpc (run_y x v c) = c" for x v c c' by (simp_all add: run_y_def)
  have "scheduled_begin run_c4 = (run_c5, True)" using run_facts(9) by (simp add: run_c5_def prod_eq_iff)
  then have 1: "run_step (run_y (?x run_c4) v DrainIdle) (run_y (?x run_c5) v (DrainEnter True))"
    using cp_step.scheduled [of "run_y (?x run_c4) v DrainIdle" run_c5] by (simp add: st dp)
  have "drain_begin (\<lambda>_. None) sorted_list_of_set ?h run_c5 = (run_c6, Inr run_snap)"
    using run_facts(10) by (simp add: run_c6_def run_snap_def prod_eq_iff)
  then have 2: "run_step (run_y (?x run_c5) v (DrainEnter True)) (run_y (?x run_c6) v (DrainSync True run_snap [(7, Inr (Some 7))] [] None))"
    using cp_step.snapshot [of "run_y (?x run_c5) v (DrainEnter True)" True sorted_list_of_set "\<lambda>_. None" ?h run_c6 run_snap] run_facts(11)
    by (simp add: st dp)
  let ?v = "after_sync (one_file 4) run_d (Inr (Some 7)) v"
  have 3: "run_step (run_y (?x run_c6) v (DrainSync True run_snap [(7, Inr (Some 7))] [] None)) (run_y (?x run_c6) ?v (DrainSync True run_snap [] [] None))"
    using cp_step.synced [of "run_y (?x run_c6) v (DrainSync True run_snap [(7, Inr (Some 7))] [] None)" True run_snap 7 "Inr (Some 7)" "[]" "[]" None "\<lambda>_. None"]
    by (simp add: run_y_def run_x_def sync_one_def run_facts(14))
  obtain cp ids where cp: "ds_checkpoint run_snap = Some (cp, 0, ids)" "cp\<lparr>cp_files := map (capture run_stat) ids\<rparr> = run_cp"
    using run_facts(12) by (auto split: prod.splits)
  have "map (capture run_stat) ids = [run_id]" using arg_cong [OF cp(2), of cp_files] by (simp add: run_cp_def)
  then obtain s where s: "drain_check (ds_gen run_snap) 0 (map (capture run_stat) ids) run_c6 = (s, Inr ())"
    using run_facts(13) by (cases "drain_check (ds_gen run_snap) 0 [run_id] run_c6"; cases "snd (drain_check (ds_gen run_snap) 0 [run_id] run_c6)") auto
  then have 4: "run_step (run_y (?x run_c6) ?v (DrainSync True run_snap [] [] None)) (run_y (?x s) ?v (DrainWrite True run_snap run_cp))"
    using cp_step.current [of "run_y (?x run_c6) ?v (DrainSync True run_snap [] [] None)" True run_snap "[]" cp 0 ids run_stat s] cp
    by (simp add: st dp)
  note into = rtranclp.rtrancl_into_rtrancl [of run_step]
  have "run_step\<^sup>*\<^sup>* run_y0 (run_y (?x s) ?v (DrainWrite True run_snap run_cp))" by (rule into [OF into [OF into [OF into [OF r 1] 2] 3] 4])
  moreover have "?v 2 = {3}" by (simp add: after_sync_def in_file_def one_file_def run_facts(16) [unfolded one_file_def])
  moreover have "chunk_length s = 4" using drain_check_core [OF s] run_facts(15) by (simp add: same_core_def fixed_def)
  ultimately show ?thesis by (intro exI [of _ "run_y (?x s) ?v (DrainWrite True run_snap run_cp)"]) (auto simp: run_y_def run_x_def learned_def)
qed

lemma run_start: "cp_start (\<lambda>_. 4) 1 [''b''] ''ab'' (replicate 20 7) run_y0"
proof -
  have np: "num_pieces one_piece = 1" "plength (piece_of one_piece 0) = 4" by code_simp+
  have "slot run_c0 p = slot (fresh_storage (one_file 4) 4 9) p" for p by (simp add: slot_def run_c0_def)
  moreover have "cache_inv run_c0 = cache_inv (fresh_storage (one_file 4) 4 9)" by (rule cache_inv_cong) (simp_all add: run_c0_def)
  ultimately have "wb_start (\<lambda>_. 4) 1 run_x0" using fresh_start [of 4 9]
    by (simp add: wb_start_def run_x0_def fresh_run_def geometry_def run_c0_def)
  then show ?thesis
    by (auto simp: cp_start_def run_y0_def run_x0_def descriptors_ok_def run_c0_def fresh_storage_def flag_def one_file_def i64_range_def
        MAX_CHECKPOINT_FILES_def MAX_CHECKPOINT_PIECES_def MAX_CHECKPOINT_PATH_def valid_ascii np piece_length_of_def)
qed

theorem restart_trusts_durable_pieces_witness:
  "\<exists>y found s1. run_step\<^sup>*\<^sup>* run_y0 y
     \<and> load_checkpoint_locked None found (replicate 20 7) [''b''] ''ab'' [run_id] run_c0 = Some (s1, True)
     \<and> flag (completed s1) 0 \<and> vals y 2 = {3} \<and> got (wb y) 0 2 = Some 3"
proof -
  let ?p = "checkpoint_path [''b''] ''ab''"
  obtain y k snap where y: "run_step\<^sup>*\<^sup>* run_y0 y" "dpc y = DrainWrite k snap run_cp" "cfs y = (\<lambda>_. None)" "vals y 2 = {3}" "chunk_length (st (wb y)) = 4"
    using run_drained by blast
  have ok: "checkpoint_ok run_cp"
    by (simp add: checkpoint_ok_def run_cp_def run_id_def identity_ok_def i64_range_def MAX_CHECKPOINT_PIECES_def MAX_CHECKPOINT_FILES_def
        MAX_CHECKPOINT_PATH_def valid_ascii)
  obtain data where d: "encode_checkpoint run_cp = Some data" "decode_checkpoint data = Some (Inr run_cp)" using decode_encode_checkpoint [OF ok] .
  obtain fss calls where w: "write_piece_checkpoint calls (cfs y) ?p run_cp = Some (fss, Inr ())" using write_succeeds [OF ok] by blast
  let ?fs = "last fss"
  have "?fs \<in> set fss" using write_states_nonempty [OF w] by simp
  then have f: "?fs \<in> crash_files [''b''] ''ab'' y" using y(2) w by (auto simp: crash_files_def)
  have c: "contents ?fs ?p = Some data" using write_forms(2) [OF d(1) w refl] by (simp add: contents_def)
  have st: "piece_files_stable_locked run_c0 0 [run_id] [run_id] = Some True" "num_pieces one_piece = 1" by code_simp+
  let ?s1 = "run_c0\<lparr>completed := (completed run_c0)(0 \<mapsto> True)\<rparr>"
  have l: "load_checkpoint_locked None (contents ?fs) (replicate 20 7) [''b''] ''ab'' [run_id] run_c0 = Some (?s1, True)"
    using c d(2) st by (simp add: load_checkpoint_locked_def read_piece_checkpoint_def run_cp_def) (simp add: run_c0_def fresh_storage_def)
  have "crash ?fs (contents ?fs)" by (simp add: crash_def contents_def)
  then have "got (wb y) 0 2 = Some 3"
    using restart_trusts_durable_pieces [OF run_start y(1) f _ l, of 0 2 3] y(4,5) by (simp add: run_c0_def fresh_storage_def flag_def)
  then show ?thesis using y(1,4) l by (intro exI [of _ y] exI [of _ "contents ?fs"] exI [of _ ?s1]) (simp add: flag_def)
qed

end
