(* ===== verification/BencodeStack.thy ===== *)
theory BencodeStack
  imports Bencode
begin

text \<open>
  The bencode decoder on a stack of bounded size. \<^verbatim>\<open>parse_value\<close> calls itself through
  \<^verbatim>\<open>parse_list\<close> and \<^verbatim>\<open>parse_dict\<close> without a limit of its own, so a thread with room for \<open>k\<close>
  nested values aborts on deeper input. The size of the stack is not in the source: \<open>k\<close> is a parameter, and
  \<open>None\<close> is the abort. Theory \<open>Bencode\<close> describes the answers of a run that does not abort.
\<close>

section \<open>Model\<close>

fun parse_value_on :: "nat \<Rightarrow> nat \<Rightarrow> bytes \<Rightarrow> nat \<Rightarrow> (bvalue \<times> nat) meta_result option"
  and list_loop_on :: "nat \<Rightarrow> nat \<Rightarrow> bytes \<Rightarrow> nat \<Rightarrow> bvalue list \<Rightarrow> (bvalue list \<times> nat) meta_result option"
  and dict_loop_on :: "nat \<Rightarrow> nat \<Rightarrow> bytes \<Rightarrow> nat \<Rightarrow> (bytes \<times> bvalue) list
        \<Rightarrow> ((bytes \<times> bvalue) list \<times> nat) meta_result option"
where
  "parse_value_on 0 k data pos = Some (Inl StepLimit)"
| "parse_value_on (Suc fuel) 0 data pos = None"
| "parse_value_on (Suc fuel) (Suc k) data pos =
     (case peek data pos of Inl e \<Rightarrow> Some (Inl e) | Inr c \<Rightarrow>
      if c = 105 then Some (parse_int data pos)
      else if c = 108 then
        (case list_loop_on fuel k data (pos + 1) [] of
           None \<Rightarrow> None | Some (Inl e) \<Rightarrow> Some (Inl e) | Some (Inr (items, p)) \<Rightarrow> Some (Inr (VList items, p)))
      else if c = 100 then
        (case dict_loop_on fuel k data (pos + 1) [] of
           None \<Rightarrow> None | Some (Inl e) \<Rightarrow> Some (Inl e) | Some (Inr (m, p)) \<Rightarrow> Some (Inr (VDict m, p)))
      else if is_ascii_digit c then
        (case parse_bytes data pos of Inl e \<Rightarrow> Some (Inl e) | Inr (b, p) \<Rightarrow> Some (Inr (VBytes b, p)))
      else Some (Inl (BencodeError pos (unexpected_byte c))))"
| "list_loop_on 0 k data pos items = Some (Inl StepLimit)"
| "list_loop_on (Suc fuel) k data pos items =
     (case peek data pos of Inl e \<Rightarrow> Some (Inl e) | Inr c \<Rightarrow>
      if c = 101 then Some (Inr (items, pos + 1))
      else case parse_value_on fuel k data pos of
             None \<Rightarrow> None
           | Some (Inl e) \<Rightarrow> Some (Inl e)
           | Some (Inr (v, p)) \<Rightarrow> list_loop_on fuel k data p (items @ [v]))"
| "dict_loop_on 0 k data pos m = Some (Inl StepLimit)"
| "dict_loop_on (Suc fuel) k data pos m =
     (case peek data pos of Inl e \<Rightarrow> Some (Inl e) | Inr c \<Rightarrow>
      if c = 101 then Some (Inr (m, pos + 1))
      else case parse_bytes data pos of
             Inl e \<Rightarrow> Some (Inl e)
           | Inr (key, p) \<Rightarrow>
               (case parse_value_on fuel k data p of
                  None \<Rightarrow> None
                | Some (Inl e) \<Rightarrow> Some (Inl e)
                | Some (Inr (v, p')) \<Rightarrow> dict_loop_on fuel k data p' (btree_insert key v m)))"

definition decode_on :: "nat \<Rightarrow> bytes \<Rightarrow> bvalue meta_result option" where
  "decode_on k data =
     (case parse_value_on (parse_fuel data) k data 0 of
        None \<Rightarrow> None
      | Some (Inl e) \<Rightarrow> Some (Inl e)
      | Some (Inr (v, consumed)) \<Rightarrow>
          Some (if consumed \<noteq> length data then Inl (TrailingBytes (length data - consumed)) else Inr v))"

section \<open>The stack does not change an answer\<close>

lemma stack_agrees_all:
  "(\<forall>k pos r. parse_value_on f k data pos = Some r \<longrightarrow> r = parse_value f data pos)
   \<and> (\<forall>k pos items r. list_loop_on f k data pos items = Some r \<longrightarrow> r = list_loop f data pos items)
   \<and> (\<forall>k pos m r. dict_loop_on f k data pos m = Some r \<longrightarrow> r = dict_loop f data pos m)"
proof (induction f)
  case 0
  then show ?case by simp
next
  case (Suc f)
  have V: "r = parse_value (Suc f) data pos" if "parse_value_on (Suc f) k data pos = Some r" for k pos r
    using that Suc by (cases k) (fastforce split: sum.splits if_splits option.splits prod.splits)+
  have L: "r = list_loop (Suc f) data pos items" if "list_loop_on (Suc f) k data pos items = Some r" for k pos items r
    using that Suc by (fastforce split: sum.splits if_splits option.splits prod.splits)
  have D: "r = dict_loop (Suc f) data pos m" if "dict_loop_on (Suc f) k data pos m = Some r" for k pos m r
    using that Suc by (fastforce split: sum.splits if_splits option.splits prod.splits)
  show ?case using V L D by blast
qed

lemma parse_value_on_agrees: "parse_value_on f k data pos = Some r \<Longrightarrow> r = parse_value f data pos"
  using stack_agrees_all by blast

text \<open>Every nested value begins with a byte of its own, so a frame for every byte of the input is enough.\<close>

lemma stack_enough_all:
  "(\<forall>k pos. length data - pos \<le> k \<and> 0 < k \<longrightarrow> parse_value_on f k data pos \<noteq> None)
   \<and> (\<forall>k pos items. length data - pos \<le> k \<longrightarrow> list_loop_on f k data pos items \<noteq> None)
   \<and> (\<forall>k pos m. length data - pos \<le> k \<longrightarrow> dict_loop_on f k data pos m \<noteq> None)"
proof (induction f)
  case 0
  then show ?case by simp
next
  case (Suc f)
  have later: "length data - p \<le> k" if "parse_value_on f k' data pos = Some (Inr (v, p))" "length data - pos \<le> k" for k k' pos v p
    using parse_value_progress [of f data pos v p] parse_value_on_agrees [OF that(1)] that(2) by auto
  have V: "parse_value_on (Suc f) k data pos \<noteq> None" if k: "length data - pos \<le> k" "0 < k" for k pos
  proof (cases "pos < length data")
    case True
    then obtain j where j: "k = Suc j" "length data - (pos + 1) \<le> j"
      using k by (cases k) auto
    then have "list_loop_on f j data (pos + 1) [] \<noteq> None" "dict_loop_on f j data (pos + 1) [] \<noteq> None"
      using Suc by blast+
    then show ?thesis using j(1) by (auto split: sum.splits)
  next
    case False
    then show ?thesis using k by (cases k) (auto simp: peek_def)
  qed
  have L: "list_loop_on (Suc f) k data pos items \<noteq> None" if k: "length data - pos \<le> k" for k pos items
  proof (cases "pos < length data")
    case True
    have "list_loop_on f k data p (items @ [v]) \<noteq> None" if "parse_value_on f k data pos = Some (Inr (v, p))" for v p
      using Suc later [OF that k] by blast
    moreover have "0 < k" using True k by linarith
    then have "parse_value_on f k data pos \<noteq> None" using Suc k by blast
    ultimately show ?thesis by (auto split: sum.splits option.splits)
  qed (simp add: peek_def)
  have D: "dict_loop_on (Suc f) k data pos m \<noteq> None" if k: "length data - pos \<le> k" for k pos m
  proof -
    have p: "length data - p \<le> k \<and> 0 < k" if "parse_bytes data pos = Inr (key, p)" for key p
      using parse_bytes_progress [OF that] k by linarith
    have "parse_value_on f k data p \<noteq> None" if "parse_bytes data pos = Inr (key, p)" for key p
      using Suc p [OF that] by blast
    moreover have "dict_loop_on f k data q (btree_insert key v m) \<noteq> None"
      if "parse_bytes data pos = Inr (key, p)" "parse_value_on f k data p = Some (Inr (v, q))" for key p v q
      using Suc later [OF that(2)] p [OF that(1)] by blast
    ultimately show ?thesis by (auto split: sum.splits option.splits)
  qed
  show ?case using V L D by blast
qed

text \<open>A run of \<open>l\<close> opens one list inside the other.\<close>

lemma open_lists_overflow:
  "2 * k < f \<Longrightarrow> pos + k < n \<Longrightarrow> parse_value_on f k (replicate n 108 @ rest) pos = None"
proof (induction k arbitrary: f pos)
  case 0
  then show ?case by (cases f) auto
next
  case (Suc k)
  obtain g where f: "f = Suc (Suc g)" "2 * k < g"
    using Suc.prems(1) by (cases f; cases "f - 1") auto
  have "peek (replicate n 108 @ rest) pos = Inr 108" "peek (replicate n 108 @ rest) (pos + 1) = Inr 108"
    using Suc.prems(2) by (simp_all add: peek_def nth_append)
  then show ?case
    using Suc.IH [of g "pos + 1"] Suc.prems f by simp
qed

section \<open>Property\<close>

text \<open>C30: What the decoder does on every input and every stack. A run that does not abort answers as
  theory \<open>Bencode\<close> says, never with the step limit, and what it accepts is a value with \<open>i64\<close> integers and
  strictly sorted keys. Room for \<open>k\<close> nested values is enough for every input of up to \<open>k\<close> bytes, so the
  recursion ends; and no stack is enough for all, because more than \<open>k\<close> opening brackets of lists, whatever
  follows them, abort the thread.\<close>

theorem decode_on_stack:
  "(decode_on k data = Some r \<longrightarrow>
      r = decode data \<and> r \<noteq> Inl StepLimit \<and> (case r of Inr v \<Rightarrow> wf_value v | Inl e \<Rightarrow> True))
   \<and> (length data \<le> k \<and> 0 < k \<longrightarrow> decode_on k data \<noteq> None)
   \<and> (k < n \<longrightarrow> decode_on k (replicate n 108 @ rest) = None)"
proof (intro conjI impI)
  assume r: "decode_on k data = Some r"
  then have eq: "r = decode data"
    using parse_value_on_agrees [of "parse_fuel data" k data 0]
    by (auto simp: decode_on_def decode_def decode_prefix_def split: option.splits sum.splits)
  then show "r = decode data" .
  show "r \<noteq> Inl StepLimit" using decode_total [of data] eq by simp
  show "case r of Inr v \<Rightarrow> wf_value v | Inl e \<Rightarrow> True"
    using decode_total [of data] unfolding eq by (auto simp: decode_def split: sum.splits)
next
  assume "length data \<le> k \<and> 0 < k"
  then have "parse_value_on (parse_fuel data) k data 0 \<noteq> None" using stack_enough_all by simp
  then show "decode_on k data \<noteq> None" by (auto simp: decode_on_def split: sum.splits)
next
  assume "k < n"
  then have "parse_value_on (parse_fuel (replicate n 108 @ rest)) k (replicate n 108 @ rest) 0 = None"
    by (intro open_lists_overflow) (simp_all add: parse_fuel_def)
  then show "decode_on k (replicate n 108 @ rest) = None" by (simp add: decode_on_def)
qed

theorem decode_on_stack_witness:
  "decode_on 2 [108, 101] = Some (Inr (VList [])) \<and> decode_on 2 [108, 108, 108, 101, 101, 101] = None
   \<and> decode [108, 108, 108, 101, 101, 101] = Inr (VList [VList [VList []]])"
proof -
  have "decode_on 2 [108, 101] \<noteq> None" and none: "decode_on 2 [108, 108, 108, 101, 101, 101] = None"
    using decode_on_stack [of 2 "[108, 101]" undefined 3 "[101, 101, 101]"] by (simp_all add: numeral_eq_Suc)
  then obtain r where "decode_on 2 [108, 101] = Some r" by blast
  moreover from this have "r = decode [108, 101]"
    using decode_on_stack [of 2 "[108, 101]" r 0 "[]"] by simp
  moreover have "decode [108, 101] = Inr (VList [])"
    using bencode.dec_enc [of "VList []" "[]"] by (simp add: decode_def)
  moreover have "decode [108, 108, 108, 101, 101, 101] = Inr (VList [VList [VList []]])"
    using bencode.dec_enc [of "VList [VList [VList []]]" "[]"] by (simp add: decode_def)
  ultimately show ?thesis using none by simp
qed

end
