(* ===== verification/Wire.thy ===== *)
theory Wire
  imports Prelude
begin

text \<open>
  Peer wire messages (\<^verbatim>\<open>wt-wire/src/message.rs\<close>): the message enum, its length, its encoding
  behind a four-byte length prefix, the decoding of a payload, and the bit-field conversions. The
  message numbers are those of \<open>MessageType\<close>.
\<close>

section \<open>Model\<close>

datatype message_type =
    TChoke | TUnchoke | TInterested | TNotInterested | THave | TBitfield | TRequest | TPiece
  | TCancel | TPort | TSuggest | THaveAll | THaveNone | TReject | TAllowedFast | TExtended
  | THashRequest | THashes | THashReject

fun type_byte :: "message_type \<Rightarrow> u8" where
  "type_byte TChoke = 0"
| "type_byte TUnchoke = 1"
| "type_byte TInterested = 2"
| "type_byte TNotInterested = 3"
| "type_byte THave = 4"
| "type_byte TBitfield = 5"
| "type_byte TRequest = 6"
| "type_byte TPiece = 7"
| "type_byte TCancel = 8"
| "type_byte TPort = 9"
| "type_byte TSuggest = 13"
| "type_byte THaveAll = 14"
| "type_byte THaveNone = 15"
| "type_byte TReject = 16"
| "type_byte TAllowedFast = 17"
| "type_byte TExtended = 20"
| "type_byte THashRequest = 21"
| "type_byte THashes = 22"
| "type_byte THashReject = 23"

definition from_u8 :: "u8 \<Rightarrow> message_type option" where
  "from_u8 b =
     (if b = 0 then Some TChoke else if b = 1 then Some TUnchoke
      else if b = 2 then Some TInterested else if b = 3 then Some TNotInterested
      else if b = 4 then Some THave else if b = 5 then Some TBitfield
      else if b = 6 then Some TRequest else if b = 7 then Some TPiece
      else if b = 8 then Some TCancel else if b = 9 then Some TPort
      else if b = 13 then Some TSuggest else if b = 14 then Some THaveAll
      else if b = 15 then Some THaveNone else if b = 16 then Some TReject
      else if b = 17 then Some TAllowedFast else if b = 20 then Some TExtended
      else if b = 21 then Some THashRequest else if b = 22 then Some THashes
      else if b = 23 then Some THashReject else None)"

text \<open>The five fields the hash messages share: root, base layer, index, length, proof layers.\<close>

record hash_head =
  pieces_root :: bytes
  base_layer :: u32
  hindex :: u32
  hlength :: u32
  proof_layers :: u32

datatype message =
    Keepalive
  | Choke
  | Unchoke
  | Interested
  | NotInterested
  | Have u32
  | Bitfield bytes
  | Request u32 u32 u32
  | Piece u32 u32 bytes
  | Cancel u32 u32 u32
  | Port u16
  | Suggest u32
  | HaveAll
  | HaveNone
  | Reject u32 u32 u32
  | AllowedFast u32
  | Extended u8 bytes
  | HashRequest hash_head
  | Hashes hash_head "bytes list"
  | HashReject hash_head

datatype error_kind = InvalidData | UnexpectedEof | NotFound | WriteZero | OtherKind

datatype io_error = IoError error_kind string

type_synonym 'a io_result = "io_error + 'a"

fun payload_len :: "message \<Rightarrow> nat" where
  "payload_len Keepalive = 0"
| "payload_len Choke = 1"
| "payload_len Unchoke = 1"
| "payload_len Interested = 1"
| "payload_len NotInterested = 1"
| "payload_len HaveAll = 1"
| "payload_len HaveNone = 1"
| "payload_len (Have i) = 1 + 4"
| "payload_len (Suggest i) = 1 + 4"
| "payload_len (AllowedFast i) = 1 + 4"
| "payload_len (Port p) = 1 + 2"
| "payload_len (Request i b l) = 1 + 12"
| "payload_len (Cancel i b l) = 1 + 12"
| "payload_len (Reject i b l) = 1 + 12"
| "payload_len (Bitfield b) = 1 + length b"
| "payload_len (Piece i b p) = 1 + 8 + length p"
| "payload_len (Extended i p) = 1 + 1 + length p"
| "payload_len (HashRequest h) = 1 + 32 + 16"
| "payload_len (HashReject h) = 1 + 32 + 16"
| "payload_len (Hashes h hs) = 1 + 32 + 16 + length hs * 32"

definition put_hash_head :: "hash_head \<Rightarrow> bytes" where
  "put_hash_head h = pieces_root h @ put_u32 (base_layer h) @ put_u32 (hindex h) @ put_u32 (hlength h)
     @ put_u32 (proof_layers h)"

fun body :: "message \<Rightarrow> bytes" where
  "body Keepalive = []"
| "body Choke = [type_byte TChoke]"
| "body Unchoke = [type_byte TUnchoke]"
| "body Interested = [type_byte TInterested]"
| "body NotInterested = [type_byte TNotInterested]"
| "body (Have index) = [type_byte THave] @ put_u32 index"
| "body (Bitfield b) = [type_byte TBitfield] @ b"
| "body (Request index begn len) = [type_byte TRequest] @ put_u32 index @ put_u32 begn @ put_u32 len"
| "body (Piece index begn p) = [type_byte TPiece] @ put_u32 index @ put_u32 begn @ p"
| "body (Cancel index begn len) = [type_byte TCancel] @ put_u32 index @ put_u32 begn @ put_u32 len"
| "body (Port p) = [type_byte TPort] @ put_u16 p"
| "body (Suggest index) = [type_byte TSuggest] @ put_u32 index"
| "body HaveAll = [type_byte THaveAll]"
| "body HaveNone = [type_byte THaveNone]"
| "body (Reject index begn len) = [type_byte TReject] @ put_u32 index @ put_u32 begn @ put_u32 len"
| "body (AllowedFast index) = [type_byte TAllowedFast] @ put_u32 index"
| "body (Extended i p) = [type_byte TExtended] @ [i] @ p"
| "body (HashRequest h) = [type_byte THashRequest] @ put_hash_head h"
| "body (Hashes h hs) = [type_byte THashes] @ put_hash_head h @ concat hs"
| "body (HashReject h) = [type_byte THashReject] @ put_hash_head h"

text \<open>\<open>encode\<close> appends to the buffer; the prefix is the payload length cast to \<open>u32\<close>.\<close>

definition encode_msg :: "message \<Rightarrow> bytes \<Rightarrow> bytes" where
  "encode_msg m dst =
     (let n = payload_len m; dst = dst @ put_u32 (word_of_nat n) in
      if n = 0 then dst else dst @ body m)"

definition to_bytes :: "message \<Rightarrow> bytes" where
  "to_bytes m = encode_msg m []"

text \<open>\<open>Buf::get_u32\<close> and \<open>Buf::copy_to_slice\<close>: the value and the remaining buffer.\<close>

definition get_u32 :: "bytes \<Rightarrow> u32 \<times> bytes" where
  "get_u32 p = (from_be_u32 (take 4 p), drop 4 p)"

definition get_u16 :: "bytes \<Rightarrow> u16 \<times> bytes" where
  "get_u16 p = (from_be_u16 (take 2 p), drop 2 p)"

definition no_payload :: "string \<Rightarrow> message \<Rightarrow> bytes \<Rightarrow> message io_result" where
  "no_payload name m p =
     (if p \<noteq> [] then Inl (IoError InvalidData (show_nat (length p) @ '' unused bytes in message type '' @ name))
      else Inr m)"

definition expect_len :: "nat \<Rightarrow> string \<Rightarrow> bytes \<Rightarrow> message io_result \<Rightarrow> message io_result" where
  "expect_len n name p r =
     (if length p \<noteq> n
      then Inl (IoError InvalidData (''expected '' @ show_nat n @ '' bytes for '' @ name @ '', got '' @ show_nat (length p)))
      else r)"

definition get_triple :: "bytes \<Rightarrow> u32 \<times> u32 \<times> u32" where
  "get_triple p = (let (a, p) = get_u32 p; (b, p) = get_u32 p; (c, p) = get_u32 p in (a, b, c))"

definition get_hash_head :: "bytes \<Rightarrow> hash_head \<times> bytes" where
  "get_hash_head p =
     (let root = take 32 p; p = drop 32 p;
          (bl, p) = get_u32 p; (ix, p) = get_u32 p; (ln, p) = get_u32 p; (pl, p) = get_u32 p
      in (\<lparr>pieces_root = root, base_layer = bl, hindex = ix, hlength = ln, proof_layers = pl\<rparr>, p))"

fun take_hashes :: "nat \<Rightarrow> bytes \<Rightarrow> bytes list" where
  "take_hashes 0 p = []"
| "take_hashes (Suc n) p = take 32 p # take_hashes n (drop 32 p)"

definition decode_piece :: "bytes \<Rightarrow> message io_result" where
  "decode_piece p =
     (if length p < 8
      then Inl (IoError UnexpectedEof (''expected at least 8 bytes for Piece header, got '' @ show_nat (length p)))
      else let (index, p) = get_u32 p; (begn, p) = get_u32 p in Inr (Piece index begn p))"

definition decode_extended :: "bytes \<Rightarrow> message io_result" where
  "decode_extended p =
     (case p of [] \<Rightarrow> Inl (IoError UnexpectedEof ''expected extended id byte'')
      | ext_id # p' \<Rightarrow> Inr (Extended ext_id p'))"

definition decode_hashes :: "bytes \<Rightarrow> message io_result" where
  "decode_hashes p =
     (if length p < 32 + 16 \<or> (length p - (32 + 16)) mod 32 \<noteq> 0
      then Inl (IoError InvalidData (''invalid length for Hashes: '' @ show_nat (length p)))
      else let (h, p) = get_hash_head p in Inr (Hashes h (take_hashes (length p div 32) p)))"

definition decode_payload :: "bytes \<Rightarrow> message io_result" where
  "decode_payload payload =
     (case payload of
        [] \<Rightarrow> Inr Keepalive
      | t # p \<Rightarrow>
        (case from_u8 t of
           None \<Rightarrow> Inl (IoError InvalidData (''unhandled message type: '' @ show_nat (unat t)))
         | Some TChoke \<Rightarrow> no_payload ''Choke'' Choke p
         | Some TUnchoke \<Rightarrow> no_payload ''Unchoke'' Unchoke p
         | Some TInterested \<Rightarrow> no_payload ''Interested'' Interested p
         | Some TNotInterested \<Rightarrow> no_payload ''NotInterested'' NotInterested p
         | Some THave \<Rightarrow> expect_len 4 ''Have'' p (Inr (Have (fst (get_u32 p))))
         | Some TBitfield \<Rightarrow> Inr (Bitfield p)
         | Some TRequest \<Rightarrow> expect_len 12 ''Request'' p (case get_triple p of (i, b, l) \<Rightarrow> Inr (Request i b l))
         | Some TPiece \<Rightarrow> decode_piece p
         | Some TCancel \<Rightarrow> expect_len 12 ''Cancel'' p (case get_triple p of (i, b, l) \<Rightarrow> Inr (Cancel i b l))
         | Some TPort \<Rightarrow> expect_len 2 ''Port'' p (Inr (Port (fst (get_u16 p))))
         | Some TSuggest \<Rightarrow> expect_len 4 ''Suggest'' p (Inr (Suggest (fst (get_u32 p))))
         | Some THaveAll \<Rightarrow> no_payload ''HaveAll'' HaveAll p
         | Some THaveNone \<Rightarrow> no_payload ''HaveNone'' HaveNone p
         | Some TReject \<Rightarrow> expect_len 12 ''Reject'' p (case get_triple p of (i, b, l) \<Rightarrow> Inr (Reject i b l))
         | Some TAllowedFast \<Rightarrow> expect_len 4 ''AllowedFast'' p (Inr (AllowedFast (fst (get_u32 p))))
         | Some TExtended \<Rightarrow> decode_extended p
         | Some THashRequest \<Rightarrow> expect_len 48 ''HashRequest'' p (Inr (HashRequest (fst (get_hash_head p))))
         | Some THashes \<Rightarrow> decode_hashes p
         | Some THashReject \<Rightarrow> expect_len 48 ''HashReject'' p (Inr (HashReject (fst (get_hash_head p))))))"

subsection \<open>Bit fields\<close>

definition set_bit_msb :: "bytes \<Rightarrow> nat \<Rightarrow> bytes" where
  "set_bit_msb b i = b[i div 8 := or (b ! (i div 8)) (push_bit (7 - i mod 8) 1)]"

fun marshal_loop :: "bool list \<Rightarrow> nat \<Rightarrow> bytes \<Rightarrow> bytes" where
  "marshal_loop [] i b = b"
| "marshal_loop (have # bf) i b = marshal_loop bf (Suc i) (if have then set_bit_msb b i else b)"

definition marshal_bitfield :: "bool list \<Rightarrow> bytes" where
  "marshal_bitfield bf = marshal_loop bf 0 (replicate (div_ceil (length bf) 8) 0)"

definition unmarshal_bitfield :: "bytes \<Rightarrow> bool list" where
  "unmarshal_bitfield b = concat (map (\<lambda>c. map (\<lambda>i. and (drop_bit i c) 1 = 1) (rev [0..<8])) b)"

section \<open>Messages the code can hold\<close>

definition head_ok :: "hash_head \<Rightarrow> bool" where
  "head_ok h \<longleftrightarrow> length (pieces_root h) = 32"

text \<open>The array types: a root and every hash have 32 bytes.\<close>

fun msg_ok :: "message \<Rightarrow> bool" where
  "msg_ok (HashRequest h) = head_ok h"
| "msg_ok (HashReject h) = head_ok h"
| "msg_ok (Hashes h hs) = (head_ok h \<and> (\<forall>x\<in>set hs. length x = 32))"
| "msg_ok _ = True"

lemma length_hash_head [codec_simps]: "head_ok h \<Longrightarrow> length (put_hash_head h) = 48"
  by (simp add: head_ok_def put_hash_head_def)

lemma length_concat_32: "\<forall>x\<in>set hs. length x = 32 \<Longrightarrow> length (concat hs) = length hs * 32"
  by (induction hs) auto

lemma body_length: "msg_ok m \<Longrightarrow> length (body m) = payload_len m"
  by (cases m) (auto simp: codec_simps length_concat_32)

lemma from_u8_type_byte [simp]: "from_u8 (type_byte t) = Some t"
  by (cases t) (simp_all add: from_u8_def)

lemma from_u8_Some: "from_u8 b = Some t \<Longrightarrow> b = type_byte t"
  by (auto simp: from_u8_def split: if_splits)

lemma put_u32_bytes:
  "put_u32 w = [word_of_nat (unat w div 256 div 256 div 256), word_of_nat (unat w div 256 div 256),
     word_of_nat (unat w div 256), word_of_nat (unat w)]"
proof -
  have "(4 :: nat) = Suc (Suc (Suc (Suc 0)))" by simp
  then show ?thesis unfolding put_u32_def by (simp only: be_bytes.simps append.simps)
qed

lemma get_u32_put [codec_simps]: "get_u32 (put_u32 w @ rest) = (w, rest)"
  by (simp add: get_u32_def)

lemma get_u32_put' [codec_simps]: "get_u32 (put_u32 w) = (w, [])"
  using get_u32_put [of w "[]"] by simp

lemma get_u16_put [codec_simps]: "get_u16 (put_u16 w) = (w, [])"
  by (simp add: get_u16_def)

lemma put_get_u32: "4 \<le> length p \<Longrightarrow> put_u32 (fst (get_u32 p)) @ snd (get_u32 p) = p"
  by (simp add: get_u32_def put_from_be_u32)

lemma put_get_u16: "length p = 2 \<Longrightarrow> put_u16 (fst (get_u16 p)) = p"
  by (simp add: get_u16_def put_from_be_u16)

lemma get_triple_put [codec_simps]: "get_triple (put_u32 a @ put_u32 b @ put_u32 c) = (a, b, c)"
  by (simp add: get_triple_def codec_simps)

lemma put_get_triple:
  assumes "length p = 12" and "get_triple p = (a, b, c)"
  shows "put_u32 a @ put_u32 b @ put_u32 c = p"
proof -
  have e: "a = from_be_u32 (take 4 p)" "b = from_be_u32 (take 4 (drop 4 p))" "c = from_be_u32 (take 4 (drop 8 p))"
    using assms(2) by (auto simp: get_triple_def get_u32_def)
  have "put_u32 a = take 4 p" "put_u32 b = take 4 (drop 4 p)" "put_u32 c = take 4 (drop 8 p)"
    using assms(1) unfolding e by (simp_all add: put_from_be_u32)
  moreover have "take 4 (drop 4 p) @ drop 8 p = drop 4 p" "take 4 p @ drop 4 p = p" "take 4 (drop 8 p) = drop 8 p"
    using append_take_drop_id [of 4 "drop 4 p"] assms(1) by simp_all
  ultimately show ?thesis by simp
qed

lemma get_hash_head_put [codec_simps]: "head_ok h \<Longrightarrow> get_hash_head (put_hash_head h @ rest) = (h, rest)"
  by (cases h) (simp add: get_hash_head_def put_hash_head_def head_ok_def codec_simps)

lemma put_get_hash_head:
  assumes "48 \<le> length p" and "get_hash_head p = (h, rest)"
  shows "put_hash_head h @ rest = p \<and> head_ok h"
proof -
  have h: "pieces_root h = take 32 p" "base_layer h = from_be_u32 (take 4 (drop 32 p))"
    "hindex h = from_be_u32 (take 4 (drop 36 p))" "hlength h = from_be_u32 (take 4 (drop 40 p))"
    "proof_layers h = from_be_u32 (take 4 (drop 44 p))" "rest = drop 48 p"
    using assms(2) by (auto simp: get_hash_head_def get_u32_def Let_def)
  have w: "put_u32 (from_be_u32 (take 4 (drop n p))) = take 4 (drop n p)" if "n + 4 \<le> length p" for n
    using that by (intro put_from_be_u32) simp
  have split: "take 4 (drop n p) @ drop (n + 4) p = drop n p" for n
    using append_take_drop_id [of 4 "drop n p"] by (simp add: add.commute)
  have "put_hash_head h @ rest = take 32 p @ take 4 (drop 32 p) @ take 4 (drop 36 p) @ take 4 (drop 40 p)
      @ take 4 (drop 44 p) @ drop 48 p"
    using assms(1) by (simp add: put_hash_head_def h w)
  also have "\<dots> = p"
    using split [of 32] split [of 36] split [of 40] split [of 44] append_take_drop_id [of 32 p] by simp
  finally show ?thesis using assms(1) by (simp add: head_ok_def h)
qed

lemma take_hashes_concat:
  "\<forall>x\<in>set hs. length x = 32 \<Longrightarrow> take_hashes (length hs) (concat hs) = hs"
  by (induction hs) auto

lemma concat_take_hashes:
  "length p = n * 32 \<Longrightarrow> concat (take_hashes n p) = p \<and> (\<forall>x\<in>set (take_hashes n p). length x = 32)
     \<and> length (take_hashes n p) = n"
proof (induction n arbitrary: p)
  case (Suc n)
  then have "length (drop 32 p) = n * 32" by simp
  from Suc.IH [OF this] Suc.prems show ?case by simp
qed simp

lemma decode_body: "msg_ok m \<Longrightarrow> decode_payload (body m) = Inr m"
proof (cases m)
  case (Hashes h hs)
  moreover assume "msg_ok m"
  ultimately show ?thesis
    by (simp add: decode_payload_def decode_hashes_def codec_simps length_concat_32 take_hashes_concat
        del: type_byte.simps)
next
  case (HashRequest h)
  moreover assume "msg_ok m"
  ultimately show ?thesis
    using get_hash_head_put [of h "[]"]
    by (simp add: decode_payload_def expect_len_def codec_simps del: type_byte.simps)
next
  case (HashReject h)
  moreover assume "msg_ok m"
  ultimately show ?thesis
    using get_hash_head_put [of h "[]"]
    by (simp add: decode_payload_def expect_len_def codec_simps del: type_byte.simps)
qed (simp_all add: decode_payload_def no_payload_def expect_len_def decode_piece_def
    decode_extended_def codec_simps del: type_byte.simps)

lemma no_payload_ok: "no_payload name m p = Inr m' \<Longrightarrow> p = [] \<and> m' = m"
  by (simp add: no_payload_def split: if_splits)

lemma expect_len_ok: "expect_len n name p r = Inr m' \<Longrightarrow> length p = n \<and> r = Inr m'"
  by (simp add: expect_len_def split: if_splits)

lemma triple_ok:
  assumes "length p = 12" and "(case get_triple p of (i, b, l) \<Rightarrow> Inr (f i b l)) = (Inr m :: message io_result)"
  shows "\<exists>i b l. m = f i b l \<and> p = put_u32 i @ put_u32 b @ put_u32 l"
proof -
  obtain i b l where t: "get_triple p = (i, b, l)" by (cases "get_triple p") auto
  with assms(2) have "m = f i b l" by simp
  with put_get_triple [OF assms(1) t] show ?thesis by metis
qed

lemma word_ok: "length p = 4 \<Longrightarrow> put_u32 (fst (get_u32 p)) = p"
  using put_get_u32 [of p] by (simp add: get_u32_def)

lemma head_alone_ok: "length p = 48 \<Longrightarrow> put_hash_head (fst (get_hash_head p)) = p \<and> head_ok (fst (get_hash_head p))"
  using put_get_hash_head [of p "fst (get_hash_head p)" "snd (get_hash_head p)"]
  by (simp add: get_hash_head_def get_u32_def Let_def)

lemma decode_piece_ok:
  assumes "decode_piece p = Inr m"
  shows "\<exists>i b d. m = Piece i b d \<and> p = put_u32 i @ put_u32 b @ d"
proof -
  have l: "8 \<le> length p" using assms by (simp add: decode_piece_def split: if_splits)
  then have m: "m = Piece (fst (get_u32 p)) (fst (get_u32 (snd (get_u32 p)))) (snd (get_u32 (snd (get_u32 p))))"
    using assms by (simp add: decode_piece_def case_prod_unfold Let_def)
  have "4 \<le> length (snd (get_u32 p))" using l by (simp add: get_u32_def)
  then have "p = put_u32 (fst (get_u32 p)) @ put_u32 (fst (get_u32 (snd (get_u32 p)))) @ snd (get_u32 (snd (get_u32 p)))"
    using put_get_u32 [of p] put_get_u32 [of "snd (get_u32 p)"] l by simp
  with m show ?thesis by blast
qed

lemma decode_hashes_ok:
  assumes "decode_hashes p = Inr m"
  shows "\<exists>h hs. m = Hashes h hs \<and> p = put_hash_head h @ concat hs \<and> msg_ok m"
proof -
  have l: "48 \<le> length p" "(length p - 48) mod 32 = 0"
    using assms by (auto simp: decode_hashes_def split: if_splits)
  obtain h q where g: "get_hash_head p = (h, q)" by fastforce
  from put_get_hash_head [OF l(1) g] have p: "put_hash_head h @ q = p" "head_ok h" by auto
  have "length p = 48 + length q" using p length_hash_head [of h] by auto
  then obtain n where n: "length q = n * 32" using l(2) by (metis add_diff_cancel_left' mod_0_imp_dvd dvdE mult.commute)
  then have m: "m = Hashes h (take_hashes n q)"
    using assms g l by (simp add: decode_hashes_def)
  from concat_take_hashes [OF n] p m show ?thesis by auto
qed

lemma decode_payload_ok:
  assumes "decode_payload p = Inr m"
  shows "msg_ok m \<and> body m = p"
proof (cases p)
  case Nil
  then show ?thesis using assms by (simp add: decode_payload_def)
next
  case (Cons t q)
  obtain ty where ty: "from_u8 t = Some ty"
    using assms Cons by (auto simp: decode_payload_def split: option.splits)
  have t: "t = type_byte ty" using ty by (rule from_u8_Some)
  note a = assms [unfolded decode_payload_def Cons, simplified, unfolded ty, simplified]
  show ?thesis
  proof (cases ty)
    case TRequest
    with a have e: "expect_len 12 ''Request'' q (case get_triple q of (i, b, l) \<Rightarrow> Inr (Request i b l)) = Inr m" by simp
    from triple_ok [OF expect_len_ok [OF e, THEN conjunct1] expect_len_ok [OF e, THEN conjunct2]]
    show ?thesis using TRequest t Cons by auto
  next
    case TCancel
    with a have e: "expect_len 12 ''Cancel'' q (case get_triple q of (i, b, l) \<Rightarrow> Inr (Cancel i b l)) = Inr m" by simp
    from triple_ok [OF expect_len_ok [OF e, THEN conjunct1] expect_len_ok [OF e, THEN conjunct2]]
    show ?thesis using TCancel t Cons by auto
  next
    case TReject
    with a have e: "expect_len 12 ''Reject'' q (case get_triple q of (i, b, l) \<Rightarrow> Inr (Reject i b l)) = Inr m" by simp
    from triple_ok [OF expect_len_ok [OF e, THEN conjunct1] expect_len_ok [OF e, THEN conjunct2]]
    show ?thesis using TReject t Cons by auto
  next
    case TPiece
    with a decode_piece_ok [of q m] show ?thesis using t Cons by auto
  next
    case THashes
    with a decode_hashes_ok [of q m] show ?thesis using t Cons by auto
  next
    case TExtended
    with a show ?thesis using t Cons by (auto simp: decode_extended_def split: list.splits)
  next
    case THashRequest
    with a show ?thesis using t Cons head_alone_ok [of q] by (auto dest!: expect_len_ok)
  next
    case THashReject
    with a show ?thesis using t Cons head_alone_ok [of q] by (auto dest!: expect_len_ok)
  next
    case TPort
    with a show ?thesis using t Cons put_get_u16 [of q] by (auto dest!: expect_len_ok)
  qed (use a t Cons word_ok [of q] in \<open>auto dest!: expect_len_ok no_payload_ok\<close>)
qed

section \<open>Bit fields\<close>

definition bit_msb :: "bytes \<Rightarrow> nat \<Rightarrow> bool" where
  "bit_msb b i \<longleftrightarrow> bit (b ! (i div 8)) (7 - i mod 8)"

lemma same_byte_bit: "i div 8 = j div 8 \<Longrightarrow> 7 - i mod 8 = 7 - j mod 8 \<longleftrightarrow> i = (j :: nat)"
proof
  assume d: "i div 8 = j div 8" and "7 - i mod 8 = 7 - j mod 8"
  moreover have "i mod 8 < 8" "j mod 8 < 8" by simp_all
  ultimately have "i mod 8 = j mod 8" by linarith
  with d show "i = j" by (metis div_mult_mod_eq)
qed simp

lemma bit_msb_set:
  assumes "i < length b * 8"
  shows "bit_msb (set_bit_msb b i) j \<longleftrightarrow> j = i \<or> bit_msb b j"
proof -
  have l: "i div 8 < length b" using assms by (simp add: less_mult_imp_div_less)
  have e: "j = i" if "j div 8 = i div 8" "7 - j mod 8 = 7 - i mod 8"
    using that same_byte_bit by blast
  have lt: "7 - i mod 8 < 8" by simp
  show ?thesis
    using l e lt
    by (cases "j div 8 = i div 8") (auto simp: bit_msb_def set_bit_msb_def bit_or_iff bit_push_bit_iff bit_exp_iff)
qed

lemma length_set_bit_msb [simp]: "length (set_bit_msb b i) = length b"
  by (simp add: set_bit_msb_def)

lemma marshal_loop_bits:
  "i + length bf \<le> length b * 8 \<Longrightarrow>
     length (marshal_loop bf i b) = length b \<and>
     (bit_msb (marshal_loop bf i b) j \<longleftrightarrow> bit_msb b j \<or> (i \<le> j \<and> j < i + length bf \<and> bf ! (j - i)))"
proof (induction bf arbitrary: i b)
  case (Cons h bf)
  have "i < length b * 8" using Cons.prems by simp
  then have set: "bit_msb (if h then set_bit_msb b i else b) j \<longleftrightarrow> (h \<and> j = i) \<or> bit_msb b j"
    by (simp add: bit_msb_set)
  have IH: "length (marshal_loop bf (Suc i) (if h then set_bit_msb b i else b)) = length b \<and>
      (bit_msb (marshal_loop bf (Suc i) (if h then set_bit_msb b i else b)) j \<longleftrightarrow>
        bit_msb (if h then set_bit_msb b i else b) j \<or> (Suc i \<le> j \<and> j < Suc i + length bf \<and> bf ! (j - Suc i)))"
    using Cons.IH [of "Suc i" "if h then set_bit_msb b i else b"] Cons.prems by simp
  have "(i \<le> j \<and> j < i + length (h # bf) \<and> (h # bf) ! (j - i)) \<longleftrightarrow>
      (h \<and> j = i) \<or> (Suc i \<le> j \<and> j < Suc i + length bf \<and> bf ! (j - Suc i))"
    by (cases "j = i") (auto simp: nth_Cons')
  with IH set show ?case by auto
qed auto

lemma div_ceil_8: "length bf \<le> div_ceil (length bf) 8 * 8"
  by (rule div_ceil_lower) simp

lemma marshal_bits:
  "length (marshal_bitfield bf) = div_ceil (length bf) 8"
  "j < div_ceil (length bf) 8 * 8 \<Longrightarrow> bit_msb (marshal_bitfield bf) j \<longleftrightarrow> j < length bf \<and> bf ! j"
proof -
  have z: "j < n * 8 \<Longrightarrow> \<not> bit_msb (replicate n 0) j" for n
    by (simp add: bit_msb_def less_mult_imp_div_less)
  have le: "0 + length bf \<le> length (replicate (div_ceil (length bf) 8) (0 :: u8)) * 8"
    using div_ceil_8 by simp
  show "length (marshal_bitfield bf) = div_ceil (length bf) 8"
    using marshal_loop_bits [OF le] by (simp add: marshal_bitfield_def)
  show "j < div_ceil (length bf) 8 * 8 \<Longrightarrow> bit_msb (marshal_bitfield bf) j \<longleftrightarrow> j < length bf \<and> bf ! j"
    using marshal_loop_bits [OF le, of j] z by (auto simp: marshal_bitfield_def)
qed

lemma concat_nth8:
  "(\<And>c. length (f c) = 8) \<Longrightarrow> i < length b * 8 \<Longrightarrow> concat (map f b) ! i = f (b ! (i div 8)) ! (i mod 8)"
proof (induction b arbitrary: i)
  case (Cons c b)
  show ?case
  proof (cases "i < 8")
    case True
    then show ?thesis using Cons.prems(1) by (simp add: nth_append)
  next
    case False
    then obtain k where k: "i = k + 8" by (metis add.commute le_add_diff_inverse not_less)
    have "(k + 8) div 8 = Suc (k div 8)" by simp
    then show ?thesis using Cons.IH [of k] Cons.prems k by (simp add: nth_append)
  qed
qed simp

lemma unmarshal_nth:
  assumes "i < length b * 8"
  shows "unmarshal_bitfield b ! i = bit_msb b i"
proof -
  have m: "i mod 8 < 8" by simp
  have "unmarshal_bitfield b ! i = (and (drop_bit (rev [0..<8] ! (i mod 8)) (b ! (i div 8))) 1 = 1)"
    unfolding unmarshal_bitfield_def using assms m by (subst concat_nth8) simp_all
  also have "rev [0..<8] ! (i mod 8) = 7 - i mod 8" using m by (simp add: rev_nth)
  finally show ?thesis by (simp add: bit_msb_def bit_iff_and_drop_bit_eq_1)
qed

lemma length_unmarshal: "length (unmarshal_bitfield b) = length b * 8"
  by (simp add: unmarshal_bitfield_def length_concat sum_list_triv comp_def)

section \<open>Properties\<close>

text \<open>C21: The payload codec is a bijection: a payload decodes to a message exactly when it is the
  encoding of that message (with 32-byte roots and hashes), so encoding then decoding is the
  identity, no payload has two readings and every malformed payload is an error. The declared
  payload length is the length written.\<close>

theorem decode_payload_iff:
  "(decode_payload p = Inr m \<longleftrightarrow> msg_ok m \<and> body m = p) \<and> (msg_ok m \<longrightarrow> length (body m) = payload_len m)"
  using decode_payload_ok decode_body body_length by blast

theorem decode_payload_iff_witness:
  "decode_payload [6, 0, 0, 0, 1, 0, 0, 64, 0, 0, 0, 64, 0] = Inr (Request 1 16384 16384)"
  using decode_payload_iff [of "[6, 0, 0, 0, 1, 0, 0, 64, 0, 0, 0, 64, 0]" "Request 1 16384 16384"]
  by (simp add: put_u32_bytes)

text \<open>C34: A bit field survives the wire: unpacking the packed bits returns the same flags, followed
  only by cleared padding bits, and the packed form has one byte per eight flags, rounded up.\<close>

theorem bitfield_roundtrip:
  "length (marshal_bitfield bf) = div_ceil (length bf) 8
   \<and> unmarshal_bitfield (marshal_bitfield bf) = bf @ replicate (div_ceil (length bf) 8 * 8 - length bf) False"
proof -
  let ?u = "unmarshal_bitfield (marshal_bitfield bf)"
  have len: "length ?u = div_ceil (length bf) 8 * 8" by (simp add: length_unmarshal marshal_bits(1))
  have "?u = bf @ replicate (div_ceil (length bf) 8 * 8 - length bf) False"
  proof (rule nth_equalityI)
    show "length ?u = length (bf @ replicate (div_ceil (length bf) 8 * 8 - length bf) False)"
      using len div_ceil_8 [of bf] by simp
    fix j assume "j < length ?u"
    then have j: "j < div_ceil (length bf) 8 * 8" using len by simp
    then have "?u ! j = (j < length bf \<and> bf ! j)"
      by (simp add: unmarshal_nth marshal_bits)
    then show "?u ! j = (bf @ replicate (div_ceil (length bf) 8 * 8 - length bf) False) ! j"
      using j by (simp add: nth_append)
  qed
  then show ?thesis by (simp add: marshal_bits(1))
qed

end
