(* ===== verification/Codec.thy ===== *)
theory Codec
  imports Wire
begin

text \<open>
  Message framing (\<^verbatim>\<open>wt-wire/src/codec.rs\<close>). The socket is the list of results of its reads:
  \<open>Inr chunk\<close> for received bytes, \<open>Inl e\<close> for an I/O error; an empty chunk or the end of the list
  is end of file. Framing is a client of the payload codec of theory \<open>Wire\<close>, stated as a locale.
\<close>

section \<open>Model\<close>

definition default_max_message_length :: nat where
  "default_max_message_length = 256 * 1024"

definition write_buffer_high_water_len :: nat where
  "write_buffer_high_water_len = 256 * 1024"

definition too_long :: "nat \<Rightarrow> nat \<Rightarrow> io_error" where
  "too_long len max_len = IoError InvalidData
     (''message too long: length '' @ show_nat len @ '' > max '' @ show_nat max_len)"

text \<open>The length prefix of a buffer with at least four bytes.\<close>

definition frame_length :: "bytes \<Rightarrow> nat" where
  "frame_length src = unat (from_be_u32 (take 4 src))"

definition decode_message :: "bytes \<Rightarrow> nat \<Rightarrow> bytes \<times> message option io_result" where
  "decode_message src max_len =
     (if length src < 4 then (src, Inr None)
      else
        let len = frame_length src in
        if len > max_len then (src, Inl (too_long len max_len))
        else if length src < 4 + len then (src, Inr None)
        else
          let owned = slice 4 (4 + len) src; src = drop (4 + len) src in
          case decode_payload owned of
            Inl e \<Rightarrow> (src, Inl e)
          | Inr msg \<Rightarrow> (src, Inr (Some msg)))"

record framed_reader =
  socket :: "bytes io_result list"
  buffer :: bytes
  max_message_length :: nat

definition incomplete :: "bytes \<Rightarrow> io_error" where
  "incomplete buf = IoError UnexpectedEof
     (''incomplete message of '' @ show_nat (length buf) @ '' bytes remaining at EOF'')"

text \<open>The reading loop, on the unread socket and the buffer.\<close>

fun read_loop :: "bytes io_result list \<Rightarrow> bytes \<Rightarrow> nat
    \<Rightarrow> bytes io_result list \<times> bytes \<times> message option io_result" where
  "read_loop chunks buf max_len =
     (case decode_message buf max_len of
        (buf', Inl e) \<Rightarrow> (chunks, buf', Inl e)
      | (buf', Inr (Some m)) \<Rightarrow> (chunks, buf', Inr (Some m))
      | (buf', Inr None) \<Rightarrow>
          (let eof = (if buf' = [] then Inr None else Inl (incomplete buf')) in
           case chunks of
             [] \<Rightarrow> ([], buf', eof)
           | Inl e # cs \<Rightarrow> (cs, buf', Inl e)
           | Inr c # cs \<Rightarrow> if c = [] then (cs, buf', eof) else read_loop cs (buf' @ c) max_len))"

declare read_loop.simps [simp del]

definition read_msg :: "framed_reader \<Rightarrow> framed_reader \<times> message option io_result" where
  "read_msg r =
     (let (cs, buf, res) = read_loop (socket r) (buffer r) (max_message_length r)
      in (r\<lparr>socket := cs, buffer := buf\<rparr>, res))"

definition frame_ready :: "framed_reader \<Rightarrow> bool io_result" where
  "frame_ready r =
     (if length (buffer r) < 4 then Inr False
      else
        let len = frame_length (buffer r) in
        if len > max_message_length r then Inl (too_long len (max_message_length r))
        else Inr (length (buffer r) \<ge> 4 + len))"

definition buffered_piece :: "framed_reader \<Rightarrow> (u32 \<times> u32 \<times> bytes) option" where
  "buffered_piece r =
     (case frame_ready r of
        Inr True \<Rightarrow>
          (let len = frame_length (buffer r); frame = slice 4 (4 + len) (buffer r) in
           if len < 9 \<or> frame ! 0 \<noteq> type_byte TPiece then None
           else Some (from_be_u32 (slice 1 5 frame), from_be_u32 (slice 5 9 frame), drop 9 frame))
      | _ \<Rightarrow> None)"

text \<open>\<open>advance\<close> past the end of the buffer panics: \<open>None\<close>.\<close>

definition consume_frame :: "framed_reader \<Rightarrow> framed_reader option" where
  "consume_frame r =
     (if length (buffer r) < 4 then Some r
      else if 4 + frame_length (buffer r) > length (buffer r) then None
      else Some (r\<lparr>buffer := drop (4 + frame_length (buffer r)) (buffer r)\<rparr>))"

definition take_buffered :: "framed_reader \<Rightarrow> framed_reader \<times> message option io_result" where
  "take_buffered r =
     (let (buf, res) = decode_message (buffer r) (max_message_length r) in (r\<lparr>buffer := buf\<rparr>, res))"

text \<open>The waiting loop: \<open>Some r\<close> with a whole frame buffered, or end of file or an error.\<close>

fun fill_frame :: "bytes io_result list \<Rightarrow> bytes \<Rightarrow> nat \<Rightarrow> bytes io_result list \<times> bytes \<times> bool io_result" where
  "fill_frame chunks buf max_len =
     (case frame_ready \<lparr>socket = chunks, buffer = buf, max_message_length = max_len\<rparr> of
        Inl e \<Rightarrow> (chunks, buf, Inl e)
      | Inr True \<Rightarrow> (chunks, buf, Inr True)
      | Inr False \<Rightarrow>
          (let eof = (if buf = [] then Inr False else Inl (incomplete buf)) in
           case chunks of
             [] \<Rightarrow> ([], buf, eof)
           | Inl e # cs \<Rightarrow> (cs, buf, Inl e)
           | Inr c # cs \<Rightarrow> if c = [] then (cs, buf, eof) else fill_frame cs (buf @ c) max_len))"

declare fill_frame.simps [simp del]

subsection \<open>Writers\<close>

text \<open>The sink is the sequence of its answers to \<open>write\<close>, each an error or the number of bytes it is ready
  to take, of which it takes no more than it is given, and its answer \<open>flushed\<close> to \<open>flush\<close>; \<open>None\<close> means that
  it never answers again. The result has what is left in the buffer, what was sent and the outcome.\<close>

definition write_msg :: "bytes \<Rightarrow> message \<Rightarrow> bytes" where
  "write_msg buf m = encode_msg m buf"

definition is_buffer_full :: "bytes \<Rightarrow> bool" where
  "is_buffer_full buf \<longleftrightarrow> length buf \<ge> write_buffer_high_water_len"

fun flush :: "bytes \<Rightarrow> nat io_result list \<Rightarrow> unit io_result \<Rightarrow> bytes \<Rightarrow> (bytes \<times> bytes \<times> unit io_result) option" where
  "flush buf writes flushed sent =
     (if buf = [] then Some ([], sent, flushed)
      else case writes of
        [] \<Rightarrow> None
      | Inl e # ws \<Rightarrow> Some (buf, sent, Inl e)
      | Inr n # ws \<Rightarrow>
          (let n = min n (length buf) in
           if n = 0 then Some (buf, sent, Inl (IoError WriteZero ''failed to write buffered message data''))
           else flush (drop n buf) ws flushed (sent @ take n buf)))"

declare flush.simps [simp del]

record conn_writer =
  write_buffer :: bytes
  piece_data_bytes :: nat

definition conn_write_msg :: "conn_writer \<Rightarrow> message \<Rightarrow> conn_writer \<times> bool" where
  "conn_write_msg w m =
     (let w = (case m of Piece i b p \<Rightarrow> w\<lparr>piece_data_bytes := piece_data_bytes w + length p\<rparr> | _ \<Rightarrow> w);
          w = w\<lparr>write_buffer := encode_msg m (write_buffer w)\<rparr>
      in (w, \<not> is_buffer_full (write_buffer w)))"

section \<open>Framing over any payload codec\<close>

text \<open>
  Framing needs three facts of the payload codec: payload lengths are known, fit the prefix, and
  every payload decodes to its message. \<open>payload_codec\<close> states them, and the loop lemmas are
  proved from them.
\<close>

locale payload_codec =
  fixes ok :: "message \<Rightarrow> bool"
    and enc :: "message \<Rightarrow> bytes"
    and len :: "message \<Rightarrow> nat"
  assumes enc_len: "ok m \<Longrightarrow> length (enc m) = len m"
    and enc_dec: "ok m \<Longrightarrow> decode_payload (enc m) = Inr m"
begin

definition frame :: "message \<Rightarrow> bytes" where
  "frame m = put_u32 (word_of_nat (len m)) @ enc m"

lemma frame_length_frame: "len m < 4294967296 \<Longrightarrow> frame_length (frame m @ rest) = len m"
  by (simp add: frame_length_def frame_def unat_of_nat)

lemma decode_message_frame:
  assumes "ok m" "len m \<le> max_len" "max_len < 4294967296"
  shows "decode_message (frame m @ rest) max_len = (rest, Inr (Some m))"
proof -
  have l: "frame_length (frame m @ rest) = len m" using assms by (intro frame_length_frame) simp
  have "slice 4 (4 + len m) (frame m @ rest) = enc m" "drop (4 + len m) (frame m @ rest) = rest"
    "length (frame m @ rest) = 4 + len m + length rest"
    using enc_len [OF assms(1)] by (simp_all add: slice_def frame_def)
  with l assms enc_dec [OF assms(1)] show ?thesis by (simp add: decode_message_def Let_def)
qed

lemma decode_message_partial:
  assumes "ok m" "len m \<le> max_len" "max_len < 4294967296"
    and "buf @ more' = frame m @ rest" "length buf < length (frame m)"
  shows "decode_message buf max_len = (buf, Inr None)"
proof (cases "length buf < 4")
  case False
  have "take 4 buf = take 4 (buf @ more')" using False by simp
  also have "\<dots> = take 4 (frame m @ rest)" using assms(4) by simp
  finally have "frame_length buf = len m"
    using frame_length_frame [of m rest] assms(2,3) by (simp add: frame_length_def)
  moreover have "length buf < 4 + len m" using assms(5) enc_len [OF assms(1)] by (simp add: frame_def)
  ultimately show ?thesis using False assms(2) by (simp add: decode_message_def)
qed (simp add: decode_message_def)

lemma read_loop_frame:
  assumes "ok m" "len m \<le> max_len" "max_len < 4294967296"
    and "buf @ concat cs = frame m @ rest" "\<forall>c\<in>set cs. c \<noteq> []"
  shows "\<exists>cs' buf'. read_loop (map Inr cs) buf max_len = (map Inr cs', buf', Inr (Some m))
    \<and> buf' @ concat cs' = rest \<and> (\<forall>c\<in>set cs'. c \<noteq> [])"
  using assms(4,5)
proof (induction cs arbitrary: buf)
  case Nil
  then show ?case
    using decode_message_frame [OF assms(1-3), of rest] by (subst read_loop.simps) auto
next
  case (Cons c cs)
  show ?case
  proof (cases "length buf < length (frame m)")
    case True
    have "decode_message buf max_len = (buf, Inr None)"
      using decode_message_partial [OF assms(1-3) Cons.prems(1) True] .
    moreover have "(buf @ c) @ concat cs = frame m @ rest" using Cons.prems by simp
    note Cons.IH [OF this]
    ultimately show ?thesis using Cons.prems(2) by (subst read_loop.simps) auto
  next
    case False
    then obtain tl where tl: "buf = frame m @ tl"
      using Cons.prems(1) by (metis append_eq_append_conv_if append_take_drop_id not_less)
    then have "tl @ concat (c # cs) = rest" using Cons.prems(1) by simp
    with tl Cons.prems(2) show ?thesis
      using decode_message_frame [OF assms(1-3), of tl]
      by (subst read_loop.simps) (auto intro!: exI [of _ "c # cs"])
  qed
qed

end

interpretation wire: payload_codec msg_ok body payload_len
  by unfold_locales (simp_all add: body_length decode_body)

lemma to_bytes_frame: "msg_ok m \<Longrightarrow> to_bytes m = wire.frame m"
  using body_length [of m] by (auto simp: to_bytes_def encode_msg_def wire.frame_def Let_def)

section \<open>Sequences of messages\<close>

fun read_msgs :: "nat \<Rightarrow> framed_reader \<Rightarrow> framed_reader \<times> message option io_result list" where
  "read_msgs 0 r = (r, [])"
| "read_msgs (Suc n) r = (let (r, m) = read_msg r; (r, ms) = read_msgs n r in (r, m # ms))"

lemma read_msgs_frames:
  assumes "\<forall>m\<in>set ms. msg_ok m \<and> payload_len m \<le> max_message_length r"
    and "max_message_length r < 4294967296"
    and "socket r = map Inr cs" "\<forall>c\<in>set cs. c \<noteq> []"
    and "buffer r @ concat cs = concat (map to_bytes ms)"
  shows "\<exists>r'. read_msgs (Suc (length ms)) r = (r', map (Inr \<circ> Some) ms @ [Inr None])"
  using assms
proof (induction ms arbitrary: r cs)
  case Nil
  then have "buffer r = []" "\<forall>c\<in>set cs. c = []" by auto
  moreover have "cs = []" using calculation(2) Nil.prems(4) by (cases cs) auto
  ultimately have "buffer r = []" "cs = []" by auto
  with Nil show ?case
    by (simp add: read_msg_def read_loop.simps decode_message_def)
next
  case (Cons m ms)
  have eq: "buffer r @ concat cs = wire.frame m @ concat (map to_bytes ms)"
    using Cons.prems(1,5) by (simp add: to_bytes_frame)
  obtain cs' buf' where l: "read_loop (map Inr cs) (buffer r) (max_message_length r) = (map Inr cs', buf', Inr (Some m))"
    "buf' @ concat cs' = concat (map to_bytes ms)" "\<forall>c\<in>set cs'. c \<noteq> []"
    using wire.read_loop_frame [OF _ _ Cons.prems(2) eq Cons.prems(4)] Cons.prems(1) by auto
  let ?r = "r\<lparr>socket := map Inr cs', buffer := buf'\<rparr>"
  have "read_msg r = (?r, Inr (Some m))" using l(1) Cons.prems(3) by (simp add: read_msg_def)
  moreover have "\<exists>r'. read_msgs (Suc (length ms)) ?r = (r', map (Inr \<circ> Some) ms @ [Inr None])"
    using Cons.prems l by (intro Cons.IH [of ?r cs']) auto
  ultimately show ?case by (auto simp del: read_msgs.simps(2) simp: read_msgs.simps(2) [of "Suc (length ms)"])
qed

text \<open>Short writes only move the border between what was sent and what is left.\<close>

lemma flush_short:
  "\<forall>n\<in>set ns. 0 < n \<Longrightarrow> sum_list ns < length buf \<Longrightarrow>
     flush buf (map Inr ns @ ws) fl sent = flush (drop (sum_list ns) buf) ws fl (sent @ take (sum_list ns) buf)"
proof (induction ns arbitrary: buf sent)
  case (Cons n ns)
  have "flush (drop n buf) (map Inr ns @ ws) fl (sent @ take n buf)
      = flush (drop (sum_list ns) (drop n buf)) ws fl ((sent @ take n buf) @ take (sum_list ns) (drop n buf))"
    using Cons.prems by (intro Cons.IH) auto
  then show ?case
    using Cons.prems by (subst flush.simps) (auto simp: Let_def take_add add.commute)
qed simp

lemma flush_whole:
  "\<forall>n\<in>set ns. 0 < n \<Longrightarrow> length buf \<le> sum_list ns \<Longrightarrow> flush buf (map Inr ns @ ws) fl sent = Some ([], sent @ buf, fl)"
proof (induction ns arbitrary: buf sent)
  case Nil
  then show ?case by (subst flush.simps) simp
next
  case (Cons n ns)
  let ?n = "min n (length buf)"
  have "flush (drop ?n buf) (map Inr ns @ ws) fl (sent @ take ?n buf) = Some ([], (sent @ take ?n buf) @ drop ?n buf, fl)"
    using Cons.prems by (intro Cons.IH) auto
  moreover have "buf = [] \<or> ?n \<noteq> 0"
    using Cons.prems(1) by (cases buf) auto
  ultimately show ?case
    by (subst flush.simps) (auto simp: Let_def min_def split: if_splits)
qed
lemma decode_message_ready:
  assumes "frame_ready r = Inr True"
  shows "4 + frame_length (buffer r) \<le> length (buffer r)"
    and "decode_message (buffer r) (max_message_length r) =
      (drop (4 + frame_length (buffer r)) (buffer r),
       map_sum id Some (decode_payload (slice 4 (4 + frame_length (buffer r)) (buffer r))))"
  using assms by (auto simp: frame_ready_def decode_message_def Let_def split: if_splits sum.splits)

lemma piece_payload:
  assumes "length f = n"
  shows "decode_payload f = Inr (Piece i b blk) \<longleftrightarrow>
    \<not> (n < 9 \<or> f ! 0 \<noteq> type_byte TPiece) \<and> i = from_be_u32 (slice 1 5 f) \<and> b = from_be_u32 (slice 5 9 f) \<and> blk = drop 9 f"
proof
  assume "decode_payload f = Inr (Piece i b blk)"
  then have f: "f = [type_byte TPiece] @ put_u32 i @ put_u32 b @ blk"
    using decode_payload_ok by fastforce
  show "\<not> (n < 9 \<or> f ! 0 \<noteq> type_byte TPiece) \<and> i = from_be_u32 (slice 1 5 f) \<and> b = from_be_u32 (slice 5 9 f) \<and> blk = drop 9 f"
    using assms unfolding f by (auto simp: slice_def)
next
  assume a: "\<not> (n < 9 \<or> f ! 0 \<noteq> type_byte TPiece) \<and> i = from_be_u32 (slice 1 5 f) \<and> b = from_be_u32 (slice 5 9 f) \<and> blk = drop 9 f"
  then have n: "9 \<le> length f" "f ! 0 = type_byte TPiece" using assms by auto
  then obtain p where f: "f = type_byte TPiece # p" by (cases f) auto
  have "i = from_be_u32 (take 4 p)" "b = from_be_u32 (take 4 (drop 4 p))" "blk = drop 8 p" "8 \<le> length p"
    using a n(1) unfolding f by (auto simp: slice_def)
  then show "decode_payload f = Inr (Piece i b blk)"
    unfolding f by (simp add: decode_payload_def decode_piece_def get_u32_def del: type_byte.simps)
qed

lemma buffered_piece_iff:
  "buffered_piece r = Some (i, b, blk) \<longleftrightarrow> snd (take_buffered r) = Inr (Some (Piece i b blk))"
proof (cases "frame_ready r")
  case (Inl e)
  then have "snd (take_buffered r) = Inl e"
    by (auto simp: frame_ready_def take_buffered_def decode_message_def Let_def split: if_splits)
  with Inl show ?thesis by (simp add: buffered_piece_def)
next
  case (Inr w)
  show ?thesis
  proof (cases w)
    case True
    let ?n = "frame_length (buffer r)" and ?f = "slice 4 (4 + frame_length (buffer r)) (buffer r)"
    have rd: "frame_ready r = Inr True" using Inr True by simp
    note d = decode_message_ready [OF rd]
    have len: "length ?f = ?n" using d(1) by simp
    have "snd (take_buffered r) = map_sum id Some (decode_payload ?f)"
      using d(2) by (simp add: take_buffered_def)
    then have "snd (take_buffered r) = Inr (Some (Piece i b blk)) \<longleftrightarrow> decode_payload ?f = Inr (Piece i b blk)"
      by (cases "decode_payload ?f") auto
    also have "\<dots> \<longleftrightarrow> buffered_piece r = Some (i, b, blk)"
      using piece_payload [OF len, of i b blk] rd by (auto simp: buffered_piece_def Let_def)
    finally show ?thesis by simp
  next
    case False
    with Inr have "snd (take_buffered r) = Inr None"
      by (auto simp: frame_ready_def take_buffered_def decode_message_def Let_def split: if_splits)
    with Inr False show ?thesis by (simp add: buffered_piece_def)
  qed
qed

section \<open>Properties\<close>

text \<open>C10: However the network splits the stream, a reader returns exactly the messages that were
  written, in order, and then a clean end of file: for every way to cut the encodings of a
  sequence of messages into non-empty chunks.\<close>

theorem framing_any_chunks:
  assumes "\<forall>m\<in>set ms. msg_ok m \<and> payload_len m \<le> max_len" and "max_len < 4294967296"
    and "\<forall>c\<in>set cs. c \<noteq> []" and "concat cs = concat (map to_bytes ms)"
  shows "snd (read_msgs (Suc (length ms)) \<lparr>socket = map Inr cs, buffer = [], max_message_length = max_len\<rparr>)
    = map (Inr \<circ> Some) ms @ [Inr None]"
  using read_msgs_frames [of ms "\<lparr>socket = map Inr cs, buffer = [], max_message_length = max_len\<rparr>" cs] assms
  by fastforce

theorem framing_any_chunks_witness:
  "snd (read_msgs 3 \<lparr>socket = map Inr [[0, 0], [0, 0, 0, 0, 0], [1, 2]], buffer = [],
      max_message_length = default_max_message_length\<rparr>)
    = [Inr (Some Keepalive), Inr (Some Interested), Inr None]"
  using framing_any_chunks [of "[Keepalive, Interested]" default_max_message_length
      "[[0, 0], [0, 0, 0, 0, 0], [1, 2]]"]
  by (simp add: default_max_message_length_def to_bytes_def encode_msg_def put_u32_bytes numeral_3_eq_3)

text \<open>C28: The zero-copy path for blocks agrees with the decoder: \<open>buffered_piece\<close> yields a block exactly
  when a whole frame is buffered and decodes to that \<open>Piece\<close>, and dropping the frame then leaves
  the same buffer as decoding it would.\<close>

theorem buffered_piece_agrees:
  "(buffered_piece r = Some (i, b, blk) \<longleftrightarrow> snd (take_buffered r) = Inr (Some (Piece i b blk)))
   \<and> (buffered_piece r \<noteq> None \<longrightarrow> consume_frame r = Some (fst (take_buffered r)))"
proof -
  have "consume_frame r = Some (fst (take_buffered r))" if "buffered_piece r \<noteq> None"
  proof -
    have rd: "frame_ready r = Inr True"
      using that by (auto simp: buffered_piece_def split: sum.splits bool.splits)
    then have "4 \<le> length (buffer r)" by (simp add: frame_ready_def split: if_splits)
    with decode_message_ready [OF rd] show ?thesis
      by (simp add: consume_frame_def take_buffered_def)
  qed
  with buffered_piece_iff show ?thesis by blast
qed

theorem buffered_piece_agrees_witness:
  "buffered_piece \<lparr>socket = [], buffer = [0, 0, 0, 10, 7, 0, 0, 0, 1, 0, 0, 0, 2, 9, 4], max_message_length = 99\<rparr>
     = Some (1, 2, [9])
   \<and> consume_frame \<lparr>socket = [], buffer = [0, 0, 0, 10, 7, 0, 0, 0, 1, 0, 0, 0, 2, 9, 4], max_message_length = 99\<rparr>
     = Some \<lparr>socket = [], buffer = [4], max_message_length = 99\<rparr>"
  using buffered_piece_agrees
    [of "\<lparr>socket = [], buffer = [0, 0, 0, 10, 7, 0, 0, 0, 1, 0, 0, 0, 2, 9, 4], max_message_length = 99\<rparr>" 1 2 "[9]"]
  by (simp add: take_buffered_def decode_message_def frame_length_def from_be_u32_def be_value_def slice_def
      decode_payload_def from_u8_def decode_piece_def get_u32_def)

text \<open>C29: Flushing a buffer over a sink that takes the positive numbers of bytes \<open>ns\<close>, one write after the
  other. When they add up to the buffer, all of it is sent, in order, nothing is left, and the outcome is that
  of the sink's own flush. When the sink fails, or takes nothing, before that, exactly the bytes taken so far
  are sent, the rest stays in the buffer, and the outcome is the sink's error or \<open>WriteZero\<close>. When it stops
  answering, the flush waits.\<close>

theorem flush_sends_all:
  assumes "\<forall>n\<in>set ns. 0 < n"
  shows "if length buf \<le> sum_list ns
    then flush buf (map Inr ns @ ws) fl [] = Some ([], buf, fl)
    else flush buf (map Inr ns @ Inl e # ws) fl [] = Some (drop (sum_list ns) buf, take (sum_list ns) buf, Inl e)
      \<and> flush buf (map Inr ns @ Inr 0 # ws) fl [] = Some (drop (sum_list ns) buf, take (sum_list ns) buf,
          Inl (IoError WriteZero ''failed to write buffered message data''))
      \<and> flush buf (map Inr ns) fl [] = None"
proof (cases "length buf \<le> sum_list ns")
  case True
  then show ?thesis using flush_whole [OF assms, of buf ws fl "[]"] by simp
next
  case False
  then have short: "flush buf (map Inr ns @ vs) fl [] = flush (drop (sum_list ns) buf) vs fl (take (sum_list ns) buf)" for vs
    using flush_short [OF assms, of buf vs fl "[]"] by simp
  show ?thesis
    using False short [of "[]"] by (simp add: short flush.simps [of "drop (sum_list ns) buf"])
qed

theorem flush_sends_all_witness:
  "flush [1, 2, 3] [Inr 2, Inr 1] (Inr ()) [] = Some ([], [1, 2, 3], Inr ())
   \<and> flush [1, 2, 3] [Inr 2, Inr 0] (Inr ()) []
       = Some ([3], [1, 2], Inl (IoError WriteZero ''failed to write buffered message data''))"
  using flush_sends_all [of "[2, 1]" "[1, 2, 3]" "[]" "Inr ()"] flush_sends_all [of "[2]" "[1, 2, 3]" "[]" "Inr ()"]
  by simp

end
