(* ===== verification/Handshake.thy ===== *)
theory Handshake
  imports Wire
begin

text \<open>
  The BitTorrent handshake (\<^verbatim>\<open>wt-wire/src/handshake.rs\<close>): the 68-byte message, the extension
  bits and both roles. A peer is the bytes it sends, with the error that ends them if it is not a plain end of
  file, and what our write to it meets; an operation returns the bytes that went out together with its
  result. A \<open>panic!\<close> is \<open>None\<close>.
\<close>

section \<open>Model\<close>

definition protocol_str :: bytes where
  "protocol_str = ascii ''BitTorrent protocol''"

definition handshake_len :: nat where
  "handshake_len = 68"

definition extension_bit_dht :: nat where
  "extension_bit_dht = 0"

definition extension_bit_fast :: nat where
  "extension_bit_fast = 2"

definition extension_bit_ltep :: nat where
  "extension_bit_ltep = 20"

definition get_bit :: "bytes \<Rightarrow> nat \<Rightarrow> bool option" where
  "get_bit ext b =
     (if b > 63 then None
      else let byte_idx = 7 - b div 8; mask = push_bit (b mod 8) (1 :: u8)
           in Some (and (ext ! byte_idx) mask \<noteq> 0))"

definition set_bit :: "bytes \<Rightarrow> nat \<Rightarrow> bool \<Rightarrow> bytes option" where
  "set_bit ext b on =
     (if b > 63 then None
      else let byte_idx = 7 - b div 8; mask = push_bit (b mod 8) (1 :: u8)
           in Some (ext[byte_idx := (if on then or (ext ! byte_idx) mask else and (ext ! byte_idx) (not mask))]))"

fun with_bits_loop :: "bytes \<Rightarrow> nat list \<Rightarrow> bytes option" where
  "with_bits_loop ext [] = Some ext"
| "with_bits_loop ext (b # bs) = (case set_bit ext b True of None \<Rightarrow> None | Some ext \<Rightarrow> with_bits_loop ext bs)"

definition with_bits :: "nat list \<Rightarrow> bytes option" where
  "with_bits bs = with_bits_loop (replicate 8 0) bs"

definition supports_extended :: "bytes \<Rightarrow> bool option" where
  "supports_extended ext = get_bit ext extension_bit_ltep"

definition supports_dht :: "bytes \<Rightarrow> bool option" where
  "supports_dht ext = get_bit ext extension_bit_dht"

definition supports_fast :: "bytes \<Rightarrow> bool option" where
  "supports_fast ext = get_bit ext extension_bit_fast"

definition default_peer_extension_bytes :: "bytes option" where
  "default_peer_extension_bytes = with_bits [extension_bit_dht, extension_bit_ltep, extension_bit_fast]"

record handshake_result =
  extensions :: bytes
  info_hash :: bytes
  peer_id :: bytes

text \<open>The buffer that \<open>write_handshake\<close> fills.\<close>

definition handshake_bytes :: "bytes \<Rightarrow> bytes \<Rightarrow> bytes \<Rightarrow> bytes" where
  "handshake_bytes ih pid ext = [19] @ protocol_str @ ext @ ih @ pid"

text \<open>The text of an error is the fixed part of the source's message.\<close>

definition bad_header :: io_error where
  "bad_header = IoError InvalidData ''unexpected protocol header''"

text \<open>
  The peer's side of the stream: \<open>incoming\<close> arrives before the stream ends, with the error \<open>broken\<close> or at a
  plain end of file. \<open>write_error\<close> is what our write ends with if it fails, after \<open>accepted\<close> bytes. When a read
  and a write that run together both fail, \<open>write_first\<close> says which failure is seen.
\<close>

record peer_stream =
  incoming :: bytes
  broken :: "io_error option"
  write_error :: "io_error option"
  accepted :: nat
  write_first :: bool

definition read_exact :: "nat \<Rightarrow> peer_stream \<Rightarrow> bytes io_result" where
  "read_exact n st =
     (if length (incoming st) < n
      then Inl (case broken st of Some e \<Rightarrow> e | None \<Rightarrow> IoError UnexpectedEof ''early eof'')
      else Inr (take n (incoming st)))"

definition write_all :: "peer_stream \<Rightarrow> bytes \<Rightarrow> bytes \<times> unit io_result" where
  "write_all st buf = (case write_error st of None \<Rightarrow> (buf, Inr ()) | Some e \<Rightarrow> (take (accepted st) buf, Inl e))"

definition write_handshake :: "peer_stream \<Rightarrow> bytes \<Rightarrow> bytes \<Rightarrow> bytes \<Rightarrow> bytes \<times> unit io_result" where
  "write_handshake st ih pid ext = write_all st (handshake_bytes ih pid ext)"

definition read_handshake :: "peer_stream \<Rightarrow> bytes option \<Rightarrow> handshake_result io_result" where
  "read_handshake st expected =
     (case read_exact handshake_len st of
        Inl e \<Rightarrow> Inl e
      | Inr buf \<Rightarrow>
          if buf ! 0 \<noteq> 19 \<or> slice 1 20 buf \<noteq> protocol_str then Inl bad_header
          else
            let ext = slice 20 28 buf; ih = slice 28 48 buf in
            if expected \<noteq> None \<and> ih \<noteq> the expected
            then Inl (IoError InvalidData ''mismatched infohash'')
            else Inr \<lparr>extensions = ext, info_hash = ih, peer_id = slice 48 68 buf\<rparr>)"

text \<open>Outgoing: our handshake is sent and the peer's is read concurrently; \<open>try_join!\<close> ends with the first
  failure, and a read that fails cancels the write after \<open>accepted\<close> bytes.\<close>

definition handshake :: "peer_stream \<Rightarrow> bytes \<Rightarrow> bytes \<Rightarrow> bytes \<Rightarrow> bytes \<times> handshake_result io_result" where
  "handshake st ih pid ext =
     (case (write_handshake st ih pid ext, read_handshake st (Some ih)) of
        ((out, Inr _), Inr res) \<Rightarrow> (out, Inr res)
      | ((out, Inr _), Inl e) \<Rightarrow> (take (accepted st) out, Inl e)
      | ((out, Inl e), Inr _) \<Rightarrow> (out, Inl e)
      | ((out, Inl e), Inl e') \<Rightarrow> (out, Inl (if write_first st then e else e')))"

text \<open>Incoming: the peer's handshake is read, its info hash looked up, and only then answered. The flag tells
  whether the stream was shut down.\<close>

definition handshake_incoming :: "peer_stream \<Rightarrow> bytes \<Rightarrow> bytes \<Rightarrow> (bytes \<Rightarrow> bool)
    \<Rightarrow> bytes \<times> bool \<times> handshake_result io_result" where
  "handshake_incoming st pid ext lookup =
     (case read_exact handshake_len st of
        Inl e \<Rightarrow> ([], False, Inl e)
      | Inr buf \<Rightarrow>
          if buf ! 0 \<noteq> 19 \<or> slice 1 20 buf \<noteq> protocol_str then ([], False, Inl bad_header)
          else
            let pext = slice 20 28 buf; ih = slice 28 48 buf in
            if \<not> lookup ih then ([], True, Inl (IoError NotFound ''infohash not found''))
            else
              case write_handshake st ih pid ext of
                (out, Inl e) \<Rightarrow> (out, False, Inl e)
              | (out, Inr _) \<Rightarrow> (out, False, Inr \<lparr>extensions = pext, info_hash = ih, peer_id = slice 48 68 buf\<rparr>))"

section \<open>Lemmas\<close>

definition hs_ok :: "bytes \<Rightarrow> bytes \<Rightarrow> bytes \<Rightarrow> bool" where
  "hs_ok ih pid ext \<longleftrightarrow> length ih = 20 \<and> length pid = 20 \<and> length ext = 8"

lemma length_protocol_str [simp, codec_simps]: "length protocol_str = 19"
  by (simp add: protocol_str_def ascii_def)

lemma handshake_fields:
  assumes "hs_ok ih pid ext"
  shows "length (handshake_bytes ih pid ext) = 68"
    and "handshake_bytes ih pid ext ! 0 = 19" and "slice (Suc 0) 20 (handshake_bytes ih pid ext) = protocol_str"
    and "slice 20 28 (handshake_bytes ih pid ext) = ext" and "slice 28 48 (handshake_bytes ih pid ext) = ih"
    and "slice 48 68 (handshake_bytes ih pid ext) = pid"
  using assms by (simp_all add: hs_ok_def handshake_bytes_def slice_def)

lemma read_exact_prefix: "hs_ok ih pid ext \<Longrightarrow> incoming st = handshake_bytes ih pid ext @ rest \<Longrightarrow>
    read_exact handshake_len st = Inr (handshake_bytes ih pid ext)"
  using handshake_fields(1) by (simp add: read_exact_def handshake_len_def)

lemma read_written:
  "hs_ok ih pid ext \<Longrightarrow> incoming st = handshake_bytes ih pid ext @ rest \<Longrightarrow> read_handshake st expected =
     (if expected \<noteq> None \<and> expected \<noteq> Some ih then Inl (IoError InvalidData ''mismatched infohash'')
      else Inr \<lparr>extensions = ext, info_hash = ih, peer_id = pid\<rparr>)"
  by (cases expected) (auto simp: read_handshake_def read_exact_prefix handshake_fields)

lemma incoming_written:
  "hs_ok ih pid ext \<Longrightarrow> incoming st = handshake_bytes ih pid ext @ rest \<Longrightarrow> lookup ih \<Longrightarrow> write_error st = None \<Longrightarrow>
     handshake_incoming st pid' ext' lookup =
       (handshake_bytes ih pid' ext', False, Inr \<lparr>extensions = ext, info_hash = ih, peer_id = pid\<rparr>)"
  by (simp add: handshake_incoming_def read_exact_prefix handshake_fields write_handshake_def write_all_def)

text \<open>An acceptor that does not serve the torrent shuts the stream down without having sent a byte.\<close>

lemma incoming_unknown_silent:
  "hs_ok ih pid ext \<Longrightarrow> incoming st = handshake_bytes ih pid ext @ rest \<Longrightarrow> \<not> lookup ih \<Longrightarrow>
     handshake_incoming st pid' ext' lookup = ([], True, Inl (IoError NotFound ''infohash not found''))"
  by (simp add: handshake_incoming_def read_exact_prefix handshake_fields)

text \<open>A handshake succeeds only if the whole of it went out.\<close>

lemma handshake_sent: "snd (handshake st ih pid ext) = Inr res \<Longrightarrow> fst (handshake st ih pid ext) = handshake_bytes ih pid ext"
  by (auto simp: handshake_def write_handshake_def write_all_def split: option.splits sum.splits)

lemma incoming_sent:
  "snd (snd (handshake_incoming st pid ext lookup)) = Inr res \<Longrightarrow>
     lookup (info_hash res) \<and> fst (handshake_incoming st pid ext lookup) = handshake_bytes (info_hash res) pid ext"
  by (auto simp: handshake_incoming_def write_handshake_def write_all_def Let_def split: option.splits sum.splits if_splits)

lemma incoming_result:
  assumes "hs_ok ih pid ext" "incoming st = handshake_bytes ih pid ext @ rest"
    "snd (snd (handshake_incoming st pid' ext' lookup)) = Inr res"
  shows "res = \<lparr>extensions = ext, info_hash = ih, peer_id = pid\<rparr>"
  using assms
  by (auto simp: handshake_incoming_def read_exact_prefix handshake_fields split: if_splits prod.splits sum.splits)

lemma handshake_received:
  "snd (handshake st ih pid ext) = Inr res \<Longrightarrow> read_handshake st (Some ih) = Inr res"
  by (auto simp: handshake_def split: prod.splits sum.splits)

lemma bit_index_inj: "b \<le> 63 \<Longrightarrow> c \<le> 63 \<Longrightarrow> 7 - b div 8 = 7 - c div 8 \<Longrightarrow> b mod 8 = c mod 8 \<Longrightarrow> b = (c :: nat)"
proof -
  assume a: "b \<le> 63" "c \<le> 63" "7 - b div 8 = 7 - c div 8" "b mod 8 = c mod 8"
  have "b div 8 \<le> 7" "c div 8 \<le> 7" using a(1,2) by auto
  then have "b div 8 = c div 8" using a(3) by linarith
  with a(4) show "b = c" by (metis div_mult_mod_eq)
qed

lemma get_set_bit:
  assumes "length ext = 8" and "b \<le> 63" and "c \<le> 63" and "set_bit ext b on = Some ext'"
  shows "get_bit ext' c = (if c = b then Some on else get_bit ext c) \<and> length ext' = 8"
proof -
  have lt: "b mod 8 < 8" "c mod 8 < 8" by simp_all
  have ix: "7 - b div 8 < length ext" using assms(1) by simp
  let ?m = "push_bit (b mod 8) (1 :: u8)"
  let ?v = "if on then or (ext ! (7 - b div 8)) ?m else and (ext ! (7 - b div 8)) (not ?m)"
  have e: "ext' = ext[7 - b div 8 := ?v]" using assms(2,4) by (auto simp: set_bit_def Let_def)
  have bm: "bit ?m n \<longleftrightarrow> n = b mod 8" if "n < 8" for n
    using that lt(1) by (auto simp: bit_push_bit_iff bit_exp_iff)
  have bv: "bit ?v n \<longleftrightarrow> (if n = b mod 8 then on else bit (ext ! (7 - b div 8)) n)" if "n < 8" for n
    using that bm [OF that] by (auto simp: bit_or_iff bit_and_iff bit_not_iff)
  have g: "get_bit x c = Some (bit (x ! (7 - c div 8)) (c mod 8))" for x
    using assms(3) and_push_bit_one [where 'a = 8, of "c mod 8"] by (simp add: get_bit_def Let_def)
  show ?thesis
  proof (cases "7 - c div 8 = 7 - b div 8")
    case True
    then have "c = b \<longleftrightarrow> c mod 8 = b mod 8" using bit_index_inj [of c b] assms(2,3) by auto
    with True show ?thesis using bv [OF lt(2)] ix assms(1) by (simp add: g e)
  next
    case False
    then have "c \<noteq> b" by auto
    with False show ?thesis using assms(1) by (simp add: g e)
  qed
qed

section \<open>Properties\<close>

text \<open>C19: An initiator and an acceptor read what the other one writes. When the acceptor serves the torrent, no
  write fails and the initiator's handshake arrives, both sides succeed. And whenever both succeed, whatever else
  the streams do, each side has learned exactly the other's peer id and extension bits, both name the
  initiator's info hash, and the acceptor serves it. An initiator whose peer answers for another torrent fails.\<close>

theorem handshake_agreement:
  assumes "hs_ok ih pa ea" and "hs_ok ih pb eb" and "incoming sa = fst (handshake_incoming sb pb eb lookup) @ xa"
  shows "(lookup ih \<and> write_error sa = None \<and> write_error sb = None \<and> incoming sb = handshake_bytes ih pa ea @ xb \<longrightarrow>
       (\<exists>ra rb. handshake sa ih pa ea = (handshake_bytes ih pa ea, Inr ra)
          \<and> handshake_incoming sb pb eb lookup = (handshake_bytes ih pb eb, False, Inr rb)))
    \<and> (incoming sb = fst (handshake sa ih pa ea) @ xb \<and> snd (handshake sa ih pa ea) = Inr ra
        \<and> snd (snd (handshake_incoming sb pb eb lookup)) = Inr rb \<longrightarrow>
          ra = \<lparr>extensions = eb, info_hash = ih, peer_id = pb\<rparr>
          \<and> rb = \<lparr>extensions = ea, info_hash = ih, peer_id = pa\<rparr> \<and> lookup ih)
    \<and> (incoming st = handshake_bytes ih pb eb @ xb \<and> write_error st = None \<and> ih' \<noteq> ih \<longrightarrow>
          snd (handshake st ih' pa ea) = Inl (IoError InvalidData ''mismatched infohash''))"
proof (intro conjI impI)
  assume *: "lookup ih \<and> write_error sa = None \<and> write_error sb = None \<and> incoming sb = handshake_bytes ih pa ea @ xb"
  then have b: "handshake_incoming sb pb eb lookup =
      (handshake_bytes ih pb eb, False, Inr \<lparr>extensions = ea, info_hash = ih, peer_id = pa\<rparr>)"
    using incoming_written [OF assms(1)] by blast
  then have "read_handshake sa (Some ih) = Inr \<lparr>extensions = eb, info_hash = ih, peer_id = pb\<rparr>"
    using read_written [OF assms(2), of sa xa "Some ih"] assms(3) by simp
  then show "\<exists>ra rb. handshake sa ih pa ea = (handshake_bytes ih pa ea, Inr ra)
      \<and> handshake_incoming sb pb eb lookup = (handshake_bytes ih pb eb, False, Inr rb)"
    using * b by (simp add: handshake_def write_handshake_def write_all_def)
next
  assume *: "incoming sb = fst (handshake sa ih pa ea) @ xb \<and> snd (handshake sa ih pa ea) = Inr ra
      \<and> snd (snd (handshake_incoming sb pb eb lookup)) = Inr rb"
  then have sb: "incoming sb = handshake_bytes ih pa ea @ xb" using handshake_sent by auto
  note b = incoming_result [OF assms(1) sb] incoming_sent [of sb pb eb lookup rb]
  then have rb: "rb = \<lparr>extensions = ea, info_hash = ih, peer_id = pa\<rparr>" using * by blast
  then have "lookup ih" "incoming sa = handshake_bytes ih pb eb @ xa" using b(2) * assms(3) by auto
  then show "ra = \<lparr>extensions = eb, info_hash = ih, peer_id = pb\<rparr>" "rb = \<lparr>extensions = ea, info_hash = ih, peer_id = pa\<rparr>" "lookup ih"
    using rb read_written [OF assms(2), of sa xa "Some ih"] handshake_received [of sa ih pa ea ra] * by auto
next
  assume "incoming st = handshake_bytes ih pb eb @ xb \<and> write_error st = None \<and> ih' \<noteq> ih"
  then show "snd (handshake st ih' pa ea) = Inl (IoError InvalidData ''mismatched infohash'')"
    using read_written [OF assms(2), of st xb "Some ih'"] by (simp add: handshake_def write_handshake_def write_all_def)
qed

definition sound_stream :: "bytes \<Rightarrow> peer_stream" where
  "sound_stream bs = \<lparr>incoming = bs, broken = None, write_error = None, accepted = 0, write_first = False\<rparr>"

theorem handshake_agreement_witness:
  "let ih = replicate 20 1; pa = replicate 20 2; ea = replicate 8 0; pb = replicate 20 3; eb = replicate 8 4;
       sb = sound_stream (handshake_bytes ih pa ea);
       sa = sound_stream (fst (handshake_incoming sb pb eb (\<lambda>h. True)))
   in \<exists>ra rb. handshake sa ih pa ea = (handshake_bytes ih pa ea, Inr ra)
        \<and> handshake_incoming sb pb eb (\<lambda>h. True) = (handshake_bytes ih pb eb, False, Inr rb)"
proof -
  let ?sb = "sound_stream (handshake_bytes (replicate 20 1) (replicate 20 2) (replicate 8 0))"
  let ?sa = "sound_stream (fst (handshake_incoming ?sb (replicate 20 3) (replicate 8 4) (\<lambda>h. True)))"
  have ok: "hs_ok (replicate 20 1) (replicate 20 2) (replicate 8 0)" "hs_ok (replicate 20 1) (replicate 20 3) (replicate 8 4)"
    by (simp_all add: hs_ok_def)
  have "incoming ?sa = fst (handshake_incoming ?sb (replicate 20 3) (replicate 8 4) (\<lambda>h. True)) @ []"
    by (simp add: sound_stream_def)
  from handshake_agreement [OF ok this, of "[]"] show ?thesis
    by (simp add: sound_stream_def)
qed

text \<open>C35: Setting one of the 64 extension bits changes that bit and no other, and never touches the
  length of the field.\<close>

theorem extension_bits_independent:
  assumes "length ext = 8" and "b \<le> 63" and "c \<le> 63" and "set_bit ext b on = Some ext'"
  shows "get_bit ext' c = (if c = b then Some on else get_bit ext c) \<and> length ext' = 8"
  using assms by (rule get_set_bit)

theorem extension_bits_independent_witness:
  "get_bit [0, 0, 0, 0, 0, 16, 0, 0] 2 = get_bit [0, 0, 0, 0, 0, 0, 0, 0] 2
   \<and> get_bit [0, 0, 0, 0, 0, 16, 0, 0] 20 = Some True"
  using extension_bits_independent [of "[0, 0, 0, 0, 0, 0, 0, 0]" 20 2 True "[0, 0, 0, 0, 0, 16, 0, 0]"]
    extension_bits_independent [of "[0, 0, 0, 0, 0, 0, 0, 0]" 20 20 True "[0, 0, 0, 0, 0, 16, 0, 0]"]
  by (simp add: set_bit_def Let_def)

end
