(* ===== verification/ChunkBits.thy ===== *)
theory ChunkBits
  imports Prelude
begin

text \<open>
  The lock-free block set (\<^verbatim>\<open>wt-core/src/piece_state/chunk_bits.rs\<close>) as a vector of 64-bit words,
  set up once, and the bit-set wrapper of \<^verbatim>\<open>piece_state/bitset.rs\<close> over the \<open>roaring\<close> crate. Every
  operation is one atomic read-modify-write of a word, so a run is a sequence of operations. The
  abstraction is the set of block numbers whose bit is set.
\<close>

section \<open>Model\<close>

record chunk_bits =
  words :: "u64 list option"

definition new_bits :: chunk_bits where
  "new_bits = \<lparr>words = None\<rparr>"

definition init_bits :: "chunk_bits \<Rightarrow> nat \<Rightarrow> chunk_bits" where
  "init_bits cb n =
     (case words cb of
        Some ws \<Rightarrow> cb
      | None \<Rightarrow> cb\<lparr>words := Some (replicate (div_ceil n 64) 0)\<rparr>)"

definition word_at :: "chunk_bits \<Rightarrow> nat \<Rightarrow> u64 option" where
  "word_at cb i = (case words cb of None \<Rightarrow> None | Some ws \<Rightarrow> if i < length ws then Some (ws ! i) else None)"

definition store_word :: "chunk_bits \<Rightarrow> nat \<Rightarrow> u64 \<Rightarrow> chunk_bits" where
  "store_word cb i w = (case words cb of None \<Rightarrow> cb | Some ws \<Rightarrow> cb\<lparr>words := Some (ws[i := w])\<rparr>)"

definition one_bit :: "nat \<Rightarrow> u64" where
  "one_bit req = push_bit (req mod 64) 1"

definition contains :: "chunk_bits \<Rightarrow> nat \<Rightarrow> bool" where
  "contains cb req =
     (case word_at cb (req div 64) of None \<Rightarrow> False | Some w \<Rightarrow> and w (one_bit req) \<noteq> 0)"

definition insert_bit :: "chunk_bits \<Rightarrow> nat \<Rightarrow> chunk_bits" where
  "insert_bit cb req =
     (case word_at cb (req div 64) of
        None \<Rightarrow> cb
      | Some w \<Rightarrow> store_word cb (req div 64) (or w (one_bit req)))"

definition insert_new :: "chunk_bits \<Rightarrow> nat \<Rightarrow> chunk_bits \<times> bool" where
  "insert_new cb req =
     (case word_at cb (req div 64) of
        None \<Rightarrow> (cb, True)
      | Some w \<Rightarrow> (store_word cb (req div 64) (or w (one_bit req)), and w (one_bit req) = 0))"

definition remove_bit :: "chunk_bits \<Rightarrow> nat \<Rightarrow> chunk_bits" where
  "remove_bit cb req =
     (case word_at cb (req div 64) of
        None \<Rightarrow> cb
      | Some w \<Rightarrow> store_word cb (req div 64) (and w (not (one_bit req))))"

definition range_mask :: "nat \<Rightarrow> nat \<Rightarrow> nat \<Rightarrow> u64" where
  "range_mask index begn en =
     (let first = index * 64; low = begn - first; high = min (en - first) 64;
          upper = (if high = 64 then -1 else push_bit high 1 - 1)
      in and upper (not (push_bit low 1 - 1)))"

definition word_range :: "nat \<Rightarrow> nat \<Rightarrow> nat list" where
  "word_range begn en = [begn div 64..<div_ceil en 64]"

definition all_in_range :: "chunk_bits \<Rightarrow> nat \<Rightarrow> nat \<Rightarrow> bool" where
  "all_in_range cb begn en \<longleftrightarrow>
     begn < en \<and> list_all (\<lambda>i. let mask = range_mask i begn en in
        case word_at cb i of None \<Rightarrow> False | Some w \<Rightarrow> and w mask = mask) (word_range begn en)"

definition any_in_range :: "chunk_bits \<Rightarrow> nat \<Rightarrow> nat \<Rightarrow> bool" where
  "any_in_range cb begn en \<longleftrightarrow>
     begn < en \<and> list_ex (\<lambda>i. let mask = range_mask i begn en in
        case word_at cb i of None \<Rightarrow> False | Some w \<Rightarrow> and w mask \<noteq> 0) (word_range begn en)"

definition remove_word_range :: "nat \<Rightarrow> nat \<Rightarrow> chunk_bits \<Rightarrow> nat \<Rightarrow> chunk_bits" where
  "remove_word_range begn en cb i =
     (let mask = range_mask i begn en in
      case word_at cb i of None \<Rightarrow> cb | Some w \<Rightarrow> store_word cb i (and w (not mask)))"

definition remove_range :: "chunk_bits \<Rightarrow> nat \<Rightarrow> nat \<Rightarrow> chunk_bits" where
  "remove_range cb begn en =
     (if begn \<ge> en then cb else foldl (remove_word_range begn en) cb (word_range begn en))"

text \<open>
  \<open>Bitset::unset_in_range\<close>: \<open>members\<close> is the ascending list the \<open>roaring\<close> iterator yields for the
  range; the loop walks it beside the counter.
\<close>

function unset_loop :: "nat list \<Rightarrow> nat \<Rightarrow> nat \<Rightarrow> nat list" where
  "unset_loop members cur en =
     (if cur < en then
        (case members of
           s # rest \<Rightarrow> if s = cur then unset_loop rest (Suc cur) en else cur # unset_loop members (Suc cur) en
         | [] \<Rightarrow> cur # unset_loop [] (Suc cur) en)
      else [])"
  by pat_completeness auto
termination by (relation "measure (\<lambda>(members, cur, en). en - cur)") auto

declare unset_loop.simps [simp del]

definition unset_in_range :: "(nat \<Rightarrow> nat \<Rightarrow> nat list) \<Rightarrow> nat \<Rightarrow> nat \<Rightarrow> nat list" where
  "unset_in_range range_iter begn en =
     (if begn \<ge> en then [] else unset_loop (range_iter begn en) begn en)"

section \<open>Abstraction to sets\<close>

definition capacity :: "chunk_bits \<Rightarrow> nat" where
  "capacity cb = (case words cb of None \<Rightarrow> 0 | Some ws \<Rightarrow> 64 * length ws)"

lemma bit_one_bit: "k < 64 \<Longrightarrow> bit (one_bit req) k \<longleftrightarrow> k = req mod 64"
  by (auto simp: one_bit_def bit_push_bit_iff bit_exp_iff)

lemma contains_iff:
  "contains cb req \<longleftrightarrow> (\<exists>ws. words cb = Some ws \<and> req div 64 < length ws \<and> bit (ws ! (req div 64)) (req mod 64))"
  using and_push_bit_one [where 'a = 64, of "req mod 64"]
  by (auto simp: contains_def word_at_def one_bit_def split: option.splits)

lemma contains_capacity: "contains cb req \<Longrightarrow> req < capacity cb"
proof -
  assume "contains cb req"
  then obtain ws where "words cb = Some ws" "req div 64 < length ws" by (auto simp: contains_iff)
  then show ?thesis using div_mult_mod_eq [of req 64] by (simp add: capacity_def)
qed

lemma capacity_word: "req < capacity cb \<longleftrightarrow> (\<exists>ws. words cb = Some ws \<and> req div 64 < length ws)"
  by (auto simp: capacity_def split: option.splits)

text \<open>Storing a word with the bits \<open>P\<close> changes exactly the members of that word.\<close>

lemma contains_store:
  assumes "words cb = Some ws" "i < length ws"
  shows "contains (store_word cb i w) x \<longleftrightarrow> (if x div 64 = i then bit w (x mod 64) else contains cb x)"
  using assms by (auto simp: contains_iff store_word_def)

lemma capacity_store [simp]: "capacity (store_word cb i w) = capacity cb"
  by (simp add: capacity_def store_word_def split: option.splits)

lemma split_64: "x div 64 = r div 64 \<and> x mod 64 = r mod 64 \<longleftrightarrow> x = (r :: nat)"
  by (metis div_mult_mod_eq)

lemma contains_insert:
  "contains (insert_bit cb r) x \<longleftrightarrow> contains cb x \<or> (x = r \<and> r < capacity cb)"
proof (cases "r < capacity cb")
  case True
  then obtain ws where ws: "words cb = Some ws" "r div 64 < length ws" by (auto simp: capacity_word)
  then have e: "insert_bit cb r = store_word cb (r div 64) (or (ws ! (r div 64)) (one_bit r))"
    by (simp add: insert_bit_def word_at_def)
  have b: "bit (or (ws ! (r div 64)) (one_bit r)) (x mod 64) \<longleftrightarrow> bit (ws ! (r div 64)) (x mod 64) \<or> x mod 64 = r mod 64"
    by (simp add: bit_or_iff bit_one_bit)
  show ?thesis
    using ws True split_64 [of x r] by (simp add: e contains_store [OF ws] b) (auto simp: contains_iff)
next
  case False
  then have "insert_bit cb r = cb"
    by (auto simp: insert_bit_def word_at_def capacity_word split: option.splits)
  with False show ?thesis by simp
qed

lemma contains_remove: "contains (remove_bit cb r) x \<longleftrightarrow> contains cb x \<and> x \<noteq> r"
proof (cases "r < capacity cb")
  case True
  then obtain ws where ws: "words cb = Some ws" "r div 64 < length ws" by (auto simp: capacity_word)
  then have e: "remove_bit cb r = store_word cb (r div 64) (and (ws ! (r div 64)) (not (one_bit r)))"
    by (simp add: remove_bit_def word_at_def)
  have b: "bit (and (ws ! (r div 64)) (not (one_bit r))) (x mod 64) \<longleftrightarrow> bit (ws ! (r div 64)) (x mod 64) \<and> x mod 64 \<noteq> r mod 64"
    by (simp add: bit_and_iff bit_not_iff bit_one_bit)
  show ?thesis
    using ws split_64 [of x r] by (simp add: e contains_store [OF ws] b) (auto simp: contains_iff)
next
  case False
  then have "remove_bit cb r = cb"
    by (auto simp: remove_bit_def word_at_def capacity_word split: option.splits)
  with False contains_capacity [of cb r] show ?thesis by auto
qed

lemma insert_new_eq: "insert_new cb r = (insert_bit cb r, \<not> contains cb r)"
  by (auto simp: insert_new_def insert_bit_def contains_def split: option.splits)

lemma capacity_ops [simp]:
  "capacity (insert_bit cb r) = capacity cb" "capacity (remove_bit cb r) = capacity cb"
  by (auto simp: insert_bit_def remove_bit_def split: option.splits)

text \<open>The mask of a word holds exactly the positions of the range inside it.\<close>

lemma bit_range_mask:
  assumes "k < 64" "begn div 64 \<le> i" "i < div_ceil en 64"
  shows "bit (range_mask i begn en) k \<longleftrightarrow> begn \<le> 64 * i + k \<and> 64 * i + k < en"
proof -
  have pow: "push_bit n (1 :: u64) - 1 = mask n" for n by (simp add: mask_eq_exp_minus_1 push_bit_eq_mult)
  have up: "bit (if min (en - i * 64) 64 = 64 then (-1 :: u64) else mask (min (en - i * 64) 64)) k
      \<longleftrightarrow> 64 * i + k < en"
    using assms(1) by (auto simp: bit_mask_iff)
  have "range_mask i begn en =
      and (if min (en - i * 64) 64 = 64 then -1 else mask (min (en - i * 64) 64)) (not (mask (begn - i * 64)))"
    by (simp only: range_mask_def Let_def pow)
  then have "bit (range_mask i begn en) k \<longleftrightarrow> 64 * i + k < en \<and> \<not> k < begn - i * 64"
    using assms(1) up by (simp only: bit_and_iff bit_not_iff bit_mask_iff) simp
  then show ?thesis by auto
qed

lemma word_range_iff: "i \<in> set (word_range begn en) \<longleftrightarrow> begn div 64 \<le> i \<and> i < div_ceil en 64"
  by (auto simp: word_range_def)

lemma word_range_of: "begn \<le> x \<Longrightarrow> x < en \<Longrightarrow> x div 64 \<in> set (word_range begn en)"
proof -
  assume a: "begn \<le> x" "x < en"
  have "x div 64 < div_ceil en 64"
    using a(2) div_le_mono [of "64 * (x div 64) + 64" "en + 63" 64]
    by (simp add: div_ceil_def)
  with a(1) show ?thesis by (simp add: word_range_iff div_le_mono)
qed

lemma bit_range_mask_of:
  assumes "x div 64 \<in> set (word_range begn en)"
  shows "bit (range_mask (x div 64) begn en) (x mod 64) \<longleftrightarrow> begn \<le> x \<and> x < en"
  using bit_range_mask [of "x mod 64" begn "x div 64" en] assms by (simp add: word_range_iff)

lemma contains_word: "contains cb x \<longleftrightarrow> (case word_at cb (x div 64) of None \<Rightarrow> False | Some w \<Rightarrow> bit w (x mod 64))"
  by (auto simp: contains_iff word_at_def split: option.splits)

lemma word_pos: "k < 64 \<Longrightarrow> (64 * i + k) div 64 = i" "k < 64 \<Longrightarrow> (64 * i + k) mod 64 = (k :: nat)"
  by simp_all

lemma u64_eqI: "(\<And>k. k < 64 \<Longrightarrow> bit (v :: u64) k = bit w k) \<Longrightarrow> v = w"
  by (rule bit_word_eqI) simp

text \<open>One word's test is the test of the range's positions in that word.\<close>

lemma word_all_iff:
  assumes "i \<in> set (word_range begn en)"
  shows "(case word_at cb i of None \<Rightarrow> False | Some w \<Rightarrow> and w (range_mask i begn en) = range_mask i begn en)
    \<longleftrightarrow> word_at cb i \<noteq> None \<and> (\<forall>x. x div 64 = i \<longrightarrow> begn \<le> x \<longrightarrow> x < en \<longrightarrow> contains cb x)"
proof (cases "word_at cb i")
  case (Some w)
  have "and w (range_mask i begn en) = range_mask i begn en \<longleftrightarrow>
      (\<forall>k<64. bit (range_mask i begn en) k \<longrightarrow> bit w k)"
    by (rule iffI, metis bit_and_iff, rule u64_eqI) (auto simp: bit_and_iff)
  also have "\<dots> \<longleftrightarrow> (\<forall>k<64. begn \<le> 64 * i + k \<longrightarrow> 64 * i + k < en \<longrightarrow> bit w k)"
    using bit_range_mask [of _ begn i en] assms by (auto simp: word_range_iff)
  also have "\<dots> \<longleftrightarrow> (\<forall>x. x div 64 = i \<longrightarrow> begn \<le> x \<longrightarrow> x < en \<longrightarrow> bit w (x mod 64))"
  proof safe
    fix x assume h: "\<forall>k<64. begn \<le> 64 * (x div 64) + k \<longrightarrow> 64 * (x div 64) + k < en \<longrightarrow> bit w k" "begn \<le> x" "x < en"
    show "bit w (x mod 64)" using h(1) [rule_format, of "x mod 64"] h(2,3) by simp
  next
    fix k assume h: "\<forall>x. x div 64 = i \<longrightarrow> begn \<le> x \<longrightarrow> x < en \<longrightarrow> bit w (x mod 64)"
      "k < 64" "begn \<le> 64 * i + k" "64 * i + k < en"
    show "bit w k" using h(1) [rule_format, of "64 * i + k"] h(2-4) by (simp add: word_pos)
  qed
  finally show ?thesis using Some by (auto simp: contains_word)
qed simp

lemma word_any_iff:
  assumes "i \<in> set (word_range begn en)"
  shows "(case word_at cb i of None \<Rightarrow> False | Some w \<Rightarrow> and w (range_mask i begn en) \<noteq> 0)
    \<longleftrightarrow> (\<exists>x. x div 64 = i \<and> begn \<le> x \<and> x < en \<and> contains cb x)"
proof (cases "word_at cb i")
  case None
  then show ?thesis by (auto simp: contains_word)
next
  case (Some w)
  have "and w (range_mask i begn en) \<noteq> 0 \<longleftrightarrow> (\<exists>k<64. bit w k \<and> bit (range_mask i begn en) k)"
    by (rule iffI, rule ccontr, use u64_eqI [of "and w (range_mask i begn en)" 0] in \<open>simp add: bit_and_iff\<close>)
      (metis bit_and_iff bit_0_eq bot_apply bot_bool_def)
  also have "\<dots> \<longleftrightarrow> (\<exists>k<64. bit w k \<and> begn \<le> 64 * i + k \<and> 64 * i + k < en)"
    using bit_range_mask [of _ begn i en] assms by (auto simp: word_range_iff)
  also have "\<dots> \<longleftrightarrow> (\<exists>x. x div 64 = i \<and> begn \<le> x \<and> x < en \<and> bit w (x mod 64))"
  proof safe
    fix x assume "begn \<le> x" "x < en" "bit w (x mod 64)"
    then show "\<exists>k<64. bit w k \<and> begn \<le> 64 * (x div 64) + k \<and> 64 * (x div 64) + k < en"
      by (intro exI [of _ "x mod 64"]) simp
  next
    fix k assume "k < 64" "bit w k" "begn \<le> 64 * i + k" "64 * i + k < en"
    then show "\<exists>x. x div 64 = i \<and> begn \<le> x \<and> x < en \<and> bit w (x mod 64)"
      by (intro exI [of _ "64 * i + k"]) (simp add: word_pos)
  qed
  finally show ?thesis using Some by (auto simp: contains_word)
qed

lemma any_in_range_iff: "any_in_range cb begn en \<longleftrightarrow> (\<exists>x. begn \<le> x \<and> x < en \<and> contains cb x)"
proof -
  have "any_in_range cb begn en \<longleftrightarrow>
      begn < en \<and> (\<exists>i\<in>set (word_range begn en). \<exists>x. x div 64 = i \<and> begn \<le> x \<and> x < en \<and> contains cb x)"
    by (simp add: any_in_range_def list_ex_iff Let_def word_any_iff cong: bex_cong)
  then show ?thesis using word_range_of by (auto 4 4)
qed

lemma word_range_hits:
  assumes "i \<in> set (word_range begn en)" "begn < en"
  shows "\<exists>x. x div 64 = i \<and> begn \<le> x \<and> x < en"
proof -
  have i: "begn div 64 \<le> i" "64 * i < en"
    using assms(1) by (auto simp: word_range_iff div_ceil_def split: if_splits)
  show ?thesis
  proof (cases "begn \<le> 64 * i")
    case True
    then show ?thesis using i by (intro exI [of _ "64 * i"]) simp
  next
    case False
    then have "i \<le> begn div 64" by simp
    then show ?thesis using i(1) assms(2) by (intro exI [of _ begn]) simp
  qed
qed

lemma all_in_range_iff:
  "all_in_range cb begn en \<longleftrightarrow> begn < en \<and> (\<forall>x. begn \<le> x \<longrightarrow> x < en \<longrightarrow> contains cb x)"
proof (cases "begn < en")
  case True
  have word: "word_at cb i \<noteq> None"
    if "i \<in> set (word_range begn en)" "\<forall>x. begn \<le> x \<longrightarrow> x < en \<longrightarrow> contains cb x" for i
    using word_range_hits [OF that(1) True] that(2) by (auto simp: contains_word split: option.splits)
  have "all_in_range cb begn en \<longleftrightarrow>
      (\<forall>i\<in>set (word_range begn en). word_at cb i \<noteq> None \<and>
        (\<forall>x. x div 64 = i \<longrightarrow> begn \<le> x \<longrightarrow> x < en \<longrightarrow> contains cb x))"
    using True by (simp only: all_in_range_def list_all_iff Let_def word_all_iff simp_thms cong: ball_cong)
  also have "\<dots> \<longleftrightarrow> (\<forall>x. begn \<le> x \<longrightarrow> x < en \<longrightarrow> contains cb x)"
    using word word_range_of by blast
  finally show ?thesis using True by simp
qed (simp add: all_in_range_def)

lemma remove_word_range_capacity [simp]: "capacity (remove_word_range begn en cb i) = capacity cb"
  by (simp add: remove_word_range_def Let_def split: option.splits)

lemma contains_remove_word_range:
  assumes "i \<in> set (word_range begn en)"
  shows "contains (remove_word_range begn en cb i) x \<longleftrightarrow>
    contains cb x \<and> \<not> (x div 64 = i \<and> begn \<le> x \<and> x < en)"
proof (cases "word_at cb i")
  case None
  then show ?thesis by (auto simp: remove_word_range_def contains_word)
next
  case (Some w)
  then obtain ws where ws: "words cb = Some ws" "i < length ws" "w = ws ! i"
    by (auto simp: word_at_def split: option.splits if_splits)
  have "remove_word_range begn en cb i = store_word cb i (and w (not (range_mask i begn en)))"
    using Some by (simp add: remove_word_range_def)
  then have "contains (remove_word_range begn en cb i) x \<longleftrightarrow>
      (if x div 64 = i then bit w (x mod 64) \<and> \<not> bit (range_mask i begn en) (x mod 64) else contains cb x)"
    by (simp add: contains_store [OF ws(1,2)] bit_and_iff bit_not_iff)
  then show ?thesis
    using assms Some bit_range_mask_of [of x begn en] by (auto simp: contains_word)
qed

lemma contains_remove_words:
  "set is \<subseteq> set (word_range begn en) \<Longrightarrow>
   contains (foldl (remove_word_range begn en) cb is) x \<longleftrightarrow>
     contains cb x \<and> \<not> (x div 64 \<in> set is \<and> begn \<le> x \<and> x < en)"
  by (induction "is" arbitrary: cb) (auto simp: contains_remove_word_range)

lemma contains_remove_range:
  "contains (remove_range cb begn en) x \<longleftrightarrow> contains cb x \<and> \<not> (begn \<le> x \<and> x < en)"
  using contains_remove_words [of "word_range begn en" begn en cb x] word_range_of [of begn x en]
  by (auto simp: remove_range_def)

lemma foldl_capacity: "capacity (foldl (remove_word_range begn en) cb is) = capacity cb"
  by (induction "is" arbitrary: cb) simp_all

lemma capacity_remove_range [simp]: "capacity (remove_range cb begn en) = capacity cb"
  by (simp add: remove_range_def foldl_capacity)

lemma capacity_init: "words cb = None \<Longrightarrow> n \<le> capacity (init_bits cb n)"
  using div_ceil_lower [of 64 n] by (simp add: init_bits_def capacity_def)

lemma contains_init: "contains (init_bits cb n) x \<longleftrightarrow> contains cb x"
  by (cases "words cb") (auto simp: init_bits_def contains_iff)

text \<open>
  The interface the block table and the write reservation rely on: a set of block numbers below a
  fixed capacity, with an insertion that tells whether the bit was new.
\<close>

locale block_set =
  fixes mem :: "'s \<Rightarrow> nat \<Rightarrow> bool"
    and cap :: "'s \<Rightarrow> nat"
    and ins :: "'s \<Rightarrow> nat \<Rightarrow> 's"
    and ins_new :: "'s \<Rightarrow> nat \<Rightarrow> 's \<times> bool"
    and del :: "'s \<Rightarrow> nat \<Rightarrow> 's"
  assumes mem_ins: "mem (ins s r) x \<longleftrightarrow> mem s x \<or> (x = r \<and> r < cap s)"
    and ins_new_ins: "ins_new s r = (ins s r, \<not> mem s r)"
    and mem_del: "mem (del s r) x \<longleftrightarrow> mem s x \<and> x \<noteq> r"
    and cap_ins: "cap (ins s r) = cap s"
    and cap_del: "cap (del s r) = cap s"
begin

text \<open>Callers racing to insert one block: their answers, in the order the insertions take effect.\<close>

fun race :: "'s \<Rightarrow> nat \<Rightarrow> nat \<Rightarrow> bool list" where
  "race s r 0 = []"
| "race s r (Suc n) = (let (s', won) = ins_new s r in won # race s' r n)"

lemma race_lost: "mem s r \<Longrightarrow> race s r n = replicate n False"
  by (induction n arbitrary: s) (simp_all add: ins_new_ins mem_ins)

lemma race_winner:
  assumes "r < cap s" "\<not> mem s r"
  shows "race s r (Suc n) = True # replicate n False"
  using assms race_lost [of "ins s r" r n] by (simp add: ins_new_ins mem_ins)

end

interpretation bits: block_set contains capacity insert_bit insert_new remove_bit
  by unfold_locales (simp_all add: contains_insert insert_new_eq contains_remove)

section \<open>Properties\<close>

datatype bit_op = BInsert nat | BInsertNew nat | BRemove nat | BRemoveRange nat nat

fun bit_step :: "chunk_bits \<Rightarrow> bit_op \<Rightarrow> chunk_bits" where
  "bit_step cb (BInsert r) = insert_bit cb r"
| "bit_step cb (BInsertNew r) = fst (insert_new cb r)"
| "bit_step cb (BRemove r) = remove_bit cb r"
| "bit_step cb (BRemoveRange a b) = remove_range cb a b"

fun set_step :: "nat set \<Rightarrow> bit_op \<Rightarrow> nat set" where
  "set_step S (BInsert r) = insert r S"
| "set_step S (BInsertNew r) = insert r S"
| "set_step S (BRemove r) = S - {r}"
| "set_step S (BRemoveRange a b) = S - {a..<b}"

fun op_below :: "nat \<Rightarrow> bit_op \<Rightarrow> bool" where
  "op_below n (BInsert r) = (r < n)"
| "op_below n (BInsertNew r) = (r < n)"
| "op_below n (BRemove r) = True"
| "op_below n (BRemoveRange a b) = True"

definition members :: "chunk_bits \<Rightarrow> nat set" where
  "members cb = {x. contains cb x}"

lemma members_step:
  "op_below (capacity cb) op \<Longrightarrow>
   members (bit_step cb op) = set_step (members cb) op \<and> capacity (bit_step cb op) = capacity cb"
  by (cases op) (auto simp: members_def contains_insert contains_remove contains_remove_range insert_new_eq)

lemma members_run:
  "list_all (op_below (capacity cb)) ops \<Longrightarrow>
   members (foldl bit_step cb ops) = foldl set_step (members cb) ops \<and>
   capacity (foldl bit_step cb ops) = capacity cb"
  by (induction ops arbitrary: cb) (simp_all add: members_step)

lemma op_below_mono: "n \<le> m \<Longrightarrow> op_below n op \<Longrightarrow> op_below m op"
  by (cases op) simp_all

text \<open>
  C20: set up for a torrent's blocks and put through any sequence of insertions, removals and range
  removals of those blocks, the word vector holds exactly the set that sequence describes, and the
  whole-range and any-in-range tests (which work a word at a time through masks) answer by that set.
\<close>

theorem chunk_bits_refine_set:
  assumes "list_all (op_below n) ops"
  shows "let cb = foldl bit_step (init_bits new_bits n) ops; S = foldl set_step {} ops in
    (\<forall>r. contains cb r \<longleftrightarrow> r \<in> S) \<and>
    (\<forall>r. snd (insert_new cb r) \<longleftrightarrow> r \<notin> S) \<and>
    (\<forall>a b. all_in_range cb a b \<longleftrightarrow> a < b \<and> {a..<b} \<subseteq> S) \<and>
    (\<forall>a b. any_in_range cb a b \<longleftrightarrow> {a..<b} \<inter> S \<noteq> {})"
proof -
  let ?c0 = "init_bits new_bits n"
  have "n \<le> capacity ?c0" by (simp add: capacity_init new_bits_def)
  then have "list_all (op_below (capacity ?c0)) ops"
    using assms op_below_mono by (auto simp: list_all_iff)
  moreover have "members ?c0 = {}"
    by (simp add: members_def contains_init) (simp add: contains_iff new_bits_def)
  ultimately have "members (foldl bit_step ?c0 ops) = foldl set_step {} ops"
    using members_run by metis
  then have "contains (foldl bit_step ?c0 ops) r \<longleftrightarrow> r \<in> foldl set_step {} ops" for r
    by (auto simp: members_def)
  then show ?thesis
    by (auto simp: Let_def insert_new_eq all_in_range_iff any_in_range_iff)
qed

theorem chunk_bits_refine_set_witness:
  "let cb = foldl bit_step (init_bits new_bits 130) [BInsert 63, BInsertNew 64, BInsert 129, BRemoveRange 100 130]
   in all_in_range cb 63 65 \<and> \<not> any_in_range cb 65 130"
  using chunk_bits_refine_set [of 130 "[BInsert 63, BInsertNew 64, BInsert 129, BRemoveRange 100 130]"]
  by (simp add: Let_def) auto

text \<open>The unset members of a range, given the members in ascending order.\<close>

lemma unset_loop_set:
  "sorted_wrt (<) ms \<Longrightarrow> set ms \<subseteq> {cur..<en} \<Longrightarrow>
   unset_loop ms cur en = filter (\<lambda>x. x \<notin> set ms) [cur..<en]"
proof (induction ms cur en rule: unset_loop.induct)
  case (1 ms cur en)
  show ?case
  proof (cases "cur < en")
    case True
    then have up: "[cur..<en] = cur # [Suc cur..<en]" by (simp add: upt_conv_Cons)
    show ?thesis
    proof (cases ms)
      case Nil
      then show ?thesis using True 1(1) [OF True Nil] by (subst unset_loop.simps) (simp add: up)
    next
      case (Cons s rest)
      show ?thesis
      proof (cases "s = cur")
        case True
        have "set rest \<subseteq> {Suc cur..<en}" using "1.prems" Cons True by (auto simp: Suc_le_eq)
        moreover have "filter (\<lambda>x. x \<notin> set rest) [Suc cur..<en] = filter (\<lambda>x. x \<notin> set ms) [Suc cur..<en]"
          using Cons True by (intro filter_cong) auto
        ultimately show ?thesis
          using \<open>cur < en\<close> Cons True 1(2) [OF \<open>cur < en\<close> Cons True] "1.prems"
          by (subst unset_loop.simps) (simp add: up)
      next
        case False
        have notin: "cur \<notin> set ms" using "1.prems" Cons False by auto
        have "x \<in> {Suc cur..<en}" if "x \<in> set ms" for x
        proof -
          have "x \<in> {cur..<en}" "x \<noteq> cur" using that "1.prems"(2) notin by blast+
          then show ?thesis by simp
        qed
        then have "set ms \<subseteq> {Suc cur..<en}" by blast
        with notin show ?thesis
          using \<open>cur < en\<close> Cons False 1(3) [OF \<open>cur < en\<close> Cons False] "1.prems"(1)
          by (subst unset_loop.simps) (simp add: up)
      qed
    qed
  qed (simp add: unset_loop.simps)
qed

text \<open>
  C37: given the bitmap library's range iterator (the members of the range, ascending), the unset
  walk returns exactly the indices of the range that are not members, in order.
\<close>

theorem unset_in_range_complement:
  assumes "\<forall>a b. sorted_wrt (<) (range_iter a b) \<and> set (range_iter a b) = S \<inter> {a..<b}"
  shows "unset_in_range range_iter begn en = filter (\<lambda>x. x \<notin> S) [begn..<en]"
proof -
  have "unset_loop (range_iter begn en) begn en = filter (\<lambda>x. x \<notin> S \<inter> {begn..<en}) [begn..<en]"
    using assms unset_loop_set [of "range_iter begn en" begn en] by simp
  also have "\<dots> = filter (\<lambda>x. x \<notin> S) [begn..<en]" by (rule filter_cong) auto
  finally show ?thesis by (simp add: unset_in_range_def)
qed

theorem unset_in_range_complement_witness:
  "unset_in_range (\<lambda>a b. filter (\<lambda>x. x = 4 \<or> x = 6) [a..<b]) 3 8 = [3, 5, 7]"
proof -
  have "unset_in_range (\<lambda>a b. filter (\<lambda>x. x = 4 \<or> x = 6) [a..<b]) 3 8 = filter (\<lambda>x. x \<notin> {4, 6}) [3..<8]"
    by (rule unset_in_range_complement) (auto simp: sorted_wrt_filter)
  then show ?thesis by (simp add: upt_rec_numeral)
qed

end
