(* ===== verification/BlockTable.thy ===== *)
theory BlockTable
  imports ChunkBits "HOL-Library.AList"
begin

text \<open>
  The table of blocks in flight (\<^verbatim>\<open>wt-core/src/sched.rs\<close>, \<open>BlockTable\<close>): who owns each requested
  block, since when, and who fetches a second copy. The hash maps are association lists, sharded by
  block number as in the code; the \<open>owned\<close> and \<open>writing\<close> bit sets are read without the shard lock.
  Each operation that holds its shard's lock throughout is one step. \<open>clear\<close> drops the lock between
  its two writes, so it is also given as two steps.
\<close>

section \<open>Model\<close>

type_synonym peer_key = nat

record hold =
  owner_of :: "(peer_key \<times> instant) option"
  second_of :: "peer_key option"

type_synonym shard = "(nat \<times> hold) list"

record block_table =
  shards :: "shard list"
  owned :: chunk_bits
  writing :: chunk_bits

definition SHARDS :: nat where
  "SHARDS = 32"

definition default_hold :: hold where
  "default_hold = \<lparr>owner_of = None, second_of = None\<rparr>"

definition default_table :: block_table where
  "default_table = \<lparr>shards = replicate SHARDS [], owned = new_bits, writing = new_bits\<rparr>"

definition init_table :: "block_table \<Rightarrow> nat \<Rightarrow> block_table" where
  "init_table t blocks = t\<lparr>owned := init_bits (owned t) blocks, writing := init_bits (writing t) blocks\<rparr>"

definition lookup :: "block_table \<Rightarrow> nat \<Rightarrow> hold option" where
  "lookup t req = map_of (shards t ! (req mod SHARDS)) req"

definition put_hold :: "block_table \<Rightarrow> nat \<Rightarrow> hold \<Rightarrow> block_table" where
  "put_hold t req h =
     t\<lparr>shards := (shards t)[req mod SHARDS := AList.update req h (shards t ! (req mod SHARDS))]\<rparr>"

definition del_hold :: "block_table \<Rightarrow> nat \<Rightarrow> block_table" where
  "del_hold t req =
     t\<lparr>shards := (shards t)[req mod SHARDS := AList.delete req (shards t ! (req mod SHARDS))]\<rparr>"

definition is_owned :: "block_table \<Rightarrow> nat \<Rightarrow> bool" where
  "is_owned t req = contains (owned t) req"

definition is_writing :: "block_table \<Rightarrow> nat \<Rightarrow> bool" where
  "is_writing t req = contains (writing t) req"

definition begin_write :: "block_table \<Rightarrow> nat \<Rightarrow> block_table \<times> bool" where
  "begin_write t req = (let (w, won) = insert_new (writing t) req in (t\<lparr>writing := w\<rparr>, won))"

definition end_write :: "block_table \<Rightarrow> nat \<Rightarrow> block_table" where
  "end_write t req = t\<lparr>writing := remove_bit (writing t) req\<rparr>"

definition get_hold :: "block_table \<Rightarrow> nat \<Rightarrow> hold" where
  "get_hold t req = (case lookup t req of None \<Rightarrow> default_hold | Some h \<Rightarrow> h)"

definition owner :: "block_table \<Rightarrow> nat \<Rightarrow> (peer_key \<times> instant) option" where
  "owner t req = (if \<not> is_owned t req then None else owner_of (get_hold t req))"

definition second :: "block_table \<Rightarrow> nat \<Rightarrow> peer_key option" where
  "second t req = second_of (get_hold t req)"

definition owned_by :: "hold \<Rightarrow> peer_key \<Rightarrow> bool" where
  "owned_by h peer = (case owner_of h of None \<Rightarrow> False | Some (p, _) \<Rightarrow> p = peer)"

definition claim :: "block_table \<Rightarrow> nat \<Rightarrow> peer_key \<Rightarrow> instant \<Rightarrow> block_table \<times> bool" where
  "claim t req peer when_asked =
     (let h = get_hold t req in
      if owner_of h \<noteq> None \<and> \<not> owned_by h peer then (t, False)
      else let t' = put_hold t req (h\<lparr>owner_of := Some (peer, when_asked)\<rparr>)
           in (t'\<lparr>owned := insert_bit (owned t') req\<rparr>, True))"

definition drop_owner :: "block_table \<Rightarrow> nat \<Rightarrow> hold \<Rightarrow> block_table" where
  "drop_owner t req h =
     (let t' = put_hold t req (h\<lparr>owner_of := None\<rparr>);
          t'' = t'\<lparr>owned := remove_bit (owned t') req\<rparr>
      in if second_of h = None then del_hold t'' req else t'')"

definition release :: "block_table \<Rightarrow> nat \<Rightarrow> peer_key \<Rightarrow> block_table" where
  "release t req peer =
     (case lookup t req of
        None \<Rightarrow> t
      | Some h \<Rightarrow> if owned_by h peer then drop_owner t req h else t)"

definition clear_owner :: "block_table \<Rightarrow> nat \<Rightarrow> block_table" where
  "clear_owner t req = (case lookup t req of None \<Rightarrow> t | Some h \<Rightarrow> drop_owner t req h)"

definition claim_second :: "block_table \<Rightarrow> nat \<Rightarrow> peer_key \<Rightarrow> block_table \<times> bool" where
  "claim_second t req peer =
     (let h = get_hold t req in
      if second_of h \<noteq> None then (t, False)
      else (put_hold t req (h\<lparr>second_of := Some peer\<rparr>), True))"

definition drop_second :: "block_table \<Rightarrow> nat \<Rightarrow> hold \<Rightarrow> block_table" where
  "drop_second t req h =
     (let t' = put_hold t req (h\<lparr>second_of := None\<rparr>)
      in if owner_of h = None then del_hold t' req else t')"

definition clear_second :: "block_table \<Rightarrow> nat \<Rightarrow> block_table" where
  "clear_second t req = (case lookup t req of None \<Rightarrow> t | Some h \<Rightarrow> drop_second t req h)"

definition release_second :: "block_table \<Rightarrow> nat \<Rightarrow> peer_key \<Rightarrow> block_table" where
  "release_second t req peer =
     (case lookup t req of
        None \<Rightarrow> t
      | Some h \<Rightarrow> if second_of h = Some peer then drop_second t req h else t)"

definition clear_map :: "block_table \<Rightarrow> nat \<Rightarrow> block_table" where
  "clear_map t req = del_hold t req"

definition clear_bit :: "block_table \<Rightarrow> nat \<Rightarrow> block_table" where
  "clear_bit t req = t\<lparr>owned := remove_bit (owned t) req\<rparr>"

definition clear :: "block_table \<Rightarrow> nat \<Rightarrow> block_table" where
  "clear t req = clear_bit (clear_map t req) req"

definition holds :: "block_table \<Rightarrow> nat \<Rightarrow> peer_key \<Rightarrow> bool" where
  "holds t req peer = (let h = get_hold t req in second_of h = Some peer \<or> owned_by h peer)"

fun forget_shard :: "peer_key \<Rightarrow> shard \<Rightarrow> chunk_bits \<Rightarrow> shard \<times> chunk_bits" where
  "forget_shard peer [] own = ([], own)"
| "forget_shard peer ((req, h) # rest) own =
     (let h1 = (if second_of h = Some peer then h\<lparr>second_of := None\<rparr> else h);
          gone = owned_by h1 peer;
          h2 = (if gone then h1\<lparr>owner_of := None\<rparr> else h1);
          own' = (if gone then remove_bit own req else own);
          (kept, own'') = forget_shard peer rest own'
      in (if owner_of h2 \<noteq> None \<or> second_of h2 \<noteq> None then (req, h2) # kept else kept, own''))"

fun forget_shards :: "peer_key \<Rightarrow> shard list \<Rightarrow> chunk_bits \<Rightarrow> shard list \<times> chunk_bits" where
  "forget_shards peer [] own = ([], own)"
| "forget_shards peer (sh # shs) own =
     (let (sh', own') = forget_shard peer sh own;
          (shs', own'') = forget_shards peer shs own'
      in (sh' # shs', own''))"

definition forget_peer :: "block_table \<Rightarrow> peer_key \<Rightarrow> block_table" where
  "forget_peer t peer =
     (let (shs, own) = forget_shards peer (shards t) (owned t) in t\<lparr>shards := shs, owned := own\<rparr>)"

section \<open>Invariant\<close>

definition busy :: "hold \<Rightarrow> bool" where
  "busy h \<longleftrightarrow> owner_of h \<noteq> None \<or> second_of h \<noteq> None"

definition shard_ok :: "nat \<Rightarrow> shard \<Rightarrow> bool" where
  "shard_ok i sh \<longleftrightarrow> distinct (map fst sh) \<and> fst ` set sh \<subseteq> {r. r mod SHARDS = i}"

definition table_shape :: "block_table \<Rightarrow> bool" where
  "table_shape t \<longleftrightarrow> length (shards t) = SHARDS \<and> (\<forall>i<SHARDS. shard_ok i (shards t ! i))"

lemma shard_ok_update: "shard_ok i sh \<Longrightarrow> r mod SHARDS = i \<Longrightarrow> shard_ok i (AList.update r h sh)"
  by (simp add: shard_ok_def distinct_update dom_update)

lemma shard_ok_delete: "shard_ok i sh \<Longrightarrow> shard_ok i (AList.delete r sh)"
  by (auto simp: shard_ok_def AList.delete_eq distinct_map_filter)

text \<open>
  The invariant: blocks sit in their own shard, only held blocks take an entry, and the unlocked
  \<open>owned\<close> bits mark exactly the blocks with an owner.
\<close>

definition table_ok :: "block_table \<Rightarrow> bool" where
  "table_ok t \<longleftrightarrow> table_shape t \<and>
     (\<forall>r h. lookup t r = Some h \<longrightarrow> busy h) \<and>
     (\<forall>r. contains (owned t) r \<longleftrightarrow> (\<exists>h. lookup t r = Some h \<and> owner_of h \<noteq> None))"

lemma SHARDS_pos [simp]: "0 < SHARDS" "r mod SHARDS < SHARDS"
  by (simp_all add: SHARDS_def)

lemma lookup_put:
  "table_shape t \<Longrightarrow> lookup (put_hold t r h) x = (if x = r then Some h else lookup t x)"
  by (auto simp: lookup_def put_hold_def table_shape_def nth_list_update update_conv)

lemma lookup_del:
  "table_shape t \<Longrightarrow> lookup (del_hold t r) x = (if x = r then None else lookup t x)"
  by (auto simp: lookup_def del_hold_def table_shape_def nth_list_update delete_conv)

lemma lookup_owned [simp]: "lookup (t\<lparr>owned := b\<rparr>) x = lookup t x"
  by (simp add: lookup_def)

lemma shape_owned [simp]: "table_shape (t\<lparr>owned := b\<rparr>) = table_shape t"
  by (simp add: table_shape_def)

lemma shape_put: "table_shape t \<Longrightarrow> table_shape (put_hold t r h)"
  by (auto simp: table_shape_def put_hold_def nth_list_update shard_ok_update)

lemma shape_del: "table_shape t \<Longrightarrow> table_shape (del_hold t r)"
  by (auto simp: table_shape_def del_hold_def nth_list_update shard_ok_delete)

lemma owned_put_del [simp]:
  "owned (put_hold t r h) = owned t" "owned (del_hold t r) = owned t"
  "writing (put_hold t r h) = writing t" "writing (del_hold t r) = writing t"
  by (simp_all add: put_hold_def del_hold_def)

lemmas table_simps = lookup_put lookup_del shape_put shape_del

text \<open>Replacing the hold of one block, and its \<open>owned\<close> bit with it, keeps the invariant.\<close>

definition table_upd :: "block_table \<Rightarrow> nat \<Rightarrow> hold option \<Rightarrow> block_table \<Rightarrow> bool" where
  "table_upd t r v t' \<longleftrightarrow> table_shape t' \<and> (\<forall>x. lookup t' x = (if x = r then v else lookup t x)) \<and>
     (\<forall>x. contains (owned t') x \<longleftrightarrow>
        (if x = r then (case v of None \<Rightarrow> False | Some h \<Rightarrow> owner_of h \<noteq> None) else contains (owned t) x)) \<and>
     capacity (owned t') = capacity (owned t) \<and> writing t' = writing t"

lemma table_ok_upd:
  "table_ok t \<Longrightarrow> table_upd t r v t' \<Longrightarrow> (case v of None \<Rightarrow> True | Some h \<Rightarrow> busy h) \<Longrightarrow> table_ok t'"
  by (auto simp: table_ok_def table_upd_def split: option.splits if_splits)

lemma table_ok_shape: "table_ok t \<Longrightarrow> table_shape t"
  by (simp add: table_ok_def)

definition shrink :: "hold \<Rightarrow> hold option" where
  "shrink h = (if busy h then Some h else None)"

lemma shrink_busy: "case shrink h of None \<Rightarrow> True | Some h' \<Rightarrow> busy h'"
  by (simp add: shrink_def)

lemma get_hold_lookup: "table_ok t \<Longrightarrow> lookup t r = shrink (get_hold t r)"
  by (auto simp: table_ok_def get_hold_def shrink_def busy_def default_hold_def split: option.splits)

lemma owned_iff: "table_ok t \<Longrightarrow> contains (owned t) r \<longleftrightarrow> owner_of (get_hold t r) \<noteq> None"
  by (auto simp: table_ok_def get_hold_def default_hold_def split: option.splits)

text \<open>Each operation, as one replacement.\<close>

lemma claim_upd:
  assumes "table_ok t" "r < capacity (owned t)" "claim t r p n = (t', True)"
  shows "table_upd t r (Some ((get_hold t r)\<lparr>owner_of := Some (p, n)\<rparr>)) t'"
  using assms
  by (auto simp: claim_def Let_def table_upd_def table_simps table_ok_shape contains_insert split: if_splits)

lemma drop_owner_upd:
  assumes "table_ok t" "lookup t r = Some h"
  shows "table_upd t r (shrink (h\<lparr>owner_of := None\<rparr>)) (drop_owner t r h)"
  using assms
  by (auto simp: drop_owner_def Let_def table_upd_def table_simps table_ok_shape contains_remove shrink_def busy_def)

lemma claim_second_upd:
  assumes "table_ok t" "claim_second t r p = (t', True)"
  shows "table_upd t r (Some ((get_hold t r)\<lparr>second_of := Some p\<rparr>)) t'"
  using assms owned_iff [OF assms(1), of r]
  by (auto simp: claim_second_def Let_def table_upd_def table_simps table_ok_shape split: if_splits)

lemma drop_second_upd:
  assumes "table_ok t" "lookup t r = Some h"
  shows "table_upd t r (shrink (h\<lparr>second_of := None\<rparr>)) (drop_second t r h)"
  using assms owned_iff [OF assms(1), of r]
  by (auto simp: drop_second_def Let_def table_upd_def table_simps table_ok_shape shrink_def busy_def get_hold_def)

lemma clear_upd:
  assumes "table_ok t"
  shows "table_upd t r None (clear t r)"
  using assms
  by (auto simp: clear_def clear_map_def clear_bit_def table_upd_def table_simps table_ok_shape contains_remove)

section \<open>A peer leaving\<close>

definition strip_peer :: "peer_key \<Rightarrow> hold \<Rightarrow> hold" where
  "strip_peer peer h =
     \<lparr>owner_of = (if owned_by h peer then None else owner_of h),
      second_of = (if second_of h = Some peer then None else second_of h)\<rparr>"

lemma forget_shard_Cons:
  "forget_shard peer ((req, h) # rest) own =
     (let (kept, own'') = forget_shard peer rest (if owned_by h peer then remove_bit own req else own)
      in (if busy (strip_peer peer h) then (req, strip_peer peer h) # kept else kept, own''))"
proof -
  have "(if owned_by (if second_of h = Some peer then h\<lparr>second_of := None\<rparr> else h) peer
      then (if second_of h = Some peer then h\<lparr>second_of := None\<rparr> else h)\<lparr>owner_of := None\<rparr>
      else (if second_of h = Some peer then h\<lparr>second_of := None\<rparr> else h)) = strip_peer peer h"
    by (cases h) (simp add: strip_peer_def owned_by_def)
  moreover have "owned_by (if second_of h = Some peer then h\<lparr>second_of := None\<rparr> else h) peer = owned_by h peer"
    by (simp add: owned_by_def)
  ultimately show ?thesis by (simp only: forget_shard.simps Let_def busy_def)
qed

declare forget_shard.simps(2) [simp del]

lemma forget_shard_spec:
  "distinct (map fst sh) \<Longrightarrow> forget_shard peer sh own = (sh', own') \<Longrightarrow>
   fst ` set sh' \<subseteq> fst ` set sh \<and> distinct (map fst sh') \<and>
   (\<forall>r. map_of sh' r = Option.bind (map_of sh r) (\<lambda>h. shrink (strip_peer peer h))) \<and>
   (\<forall>r. contains own' r \<longleftrightarrow> contains own r \<and> \<not> (\<exists>h. map_of sh r = Some h \<and> owned_by h peer)) \<and>
   capacity own' = capacity own"
proof (induction sh arbitrary: own sh' own')
  case (Cons a rest)
  obtain req h where a: "a = (req, h)" by (cases a)
  let ?own = "if owned_by h peer then remove_bit own req else own"
  obtain kept own2 where rec: "forget_shard peer rest ?own = (kept, own2)" by fastforce
  have res: "sh' = (if busy (strip_peer peer h) then (req, strip_peer peer h) # kept else kept)" "own' = own2"
    using Cons.prems(2) by (simp_all add: a forget_shard_Cons rec)
  have d: "distinct (map fst rest)" "req \<notin> set (map fst rest)" using Cons.prems(1) by (auto simp: a)
  note IH = Cons.IH [OF d(1) rec]
  have none: "map_of rest req = None" using d(2) by (simp add: map_of_eq_None_iff)
  then have "map_of kept req = None" using IH by simp
  then have m: "\<forall>r. map_of sh' r = Option.bind (map_of (a # rest) r) (\<lambda>h. shrink (strip_peer peer h))"
    using IH by (auto simp: res a shrink_def)
  have "\<forall>r. contains own' r \<longleftrightarrow> contains own r \<and> \<not> (\<exists>h. map_of (a # rest) r = Some h \<and> owned_by h peer)"
    using IH none by (auto simp: res a contains_remove)
  moreover have "fst ` set sh' \<subseteq> fst ` set (a # rest)" "distinct (map fst sh')" "capacity own' = capacity own"
    using IH d by (auto simp: res a)
  ultimately show ?case using m by blast
qed simp

lemma forget_shards_spec:
  "\<forall>sh\<in>set shs. distinct (map fst sh) \<Longrightarrow> forget_shards peer shs own = (shs', own') \<Longrightarrow>
   list_all2 (\<lambda>sh sh'. fst ` set sh' \<subseteq> fst ` set sh \<and> distinct (map fst sh') \<and>
     (\<forall>r. map_of sh' r = Option.bind (map_of sh r) (\<lambda>h. shrink (strip_peer peer h)))) shs shs' \<and>
   (\<forall>r. contains own' r \<longleftrightarrow> contains own r \<and> \<not> (\<exists>sh\<in>set shs. \<exists>h. map_of sh r = Some h \<and> owned_by h peer)) \<and>
   capacity own' = capacity own"
proof (induction shs arbitrary: own shs' own')
  case (Cons sh shs)
  obtain sh1 own1 where one: "forget_shard peer sh own = (sh1, own1)" by fastforce
  obtain shs2 own2 where rest: "forget_shards peer shs own1 = (shs2, own2)" by fastforce
  have res: "shs' = sh1 # shs2" "own' = own2" using Cons.prems(2) by (simp_all add: one rest)
  have "distinct (map fst sh)" "\<forall>sh\<in>set shs. distinct (map fst sh)" using Cons.prems(1) by simp_all
  from forget_shard_spec [OF this(1) one] Cons.IH [OF this(2) rest]
  show ?case by (simp add: res)
qed simp

lemma in_shards: "table_shape t \<Longrightarrow> sh \<in> set (shards t) \<Longrightarrow> map_of sh r = Some h \<Longrightarrow> lookup t r = Some h"
proof -
  assume a: "table_shape t" "sh \<in> set (shards t)" "map_of sh r = Some h"
  obtain i where i: "i < SHARDS" "sh = shards t ! i" using a(1,2) by (auto simp: in_set_conv_nth table_shape_def)
  have "r \<in> fst ` set sh" using map_of_SomeD [OF a(3)] by force
  then have "r mod SHARDS = i" using a(1) i by (auto simp: table_shape_def shard_ok_def)
  then show ?thesis using a(3) i by (simp add: lookup_def)
qed

lemma lookup_in_shards: "table_shape t \<Longrightarrow> lookup t r = Some h \<Longrightarrow> \<exists>sh\<in>set (shards t). map_of sh r = Some h"
  by (auto simp: lookup_def table_shape_def intro!: bexI [of _ "shards t ! (r mod SHARDS)"])

text \<open>After \<open>forget_peer\<close>, every hold is what it was without that peer's part.\<close>

lemma forget_peer_lookup:
  assumes "table_ok t"
  shows "lookup (forget_peer t p) r = Option.bind (lookup t r) (\<lambda>h. shrink (strip_peer p h))"
    and "contains (owned (forget_peer t p)) r \<longleftrightarrow> contains (owned t) r \<and> \<not> (\<exists>h. lookup t r = Some h \<and> owned_by h p)"
    and "table_shape (forget_peer t p)" and "capacity (owned (forget_peer t p)) = capacity (owned t)"
proof -
  have shape: "table_shape t" using assms by (rule table_ok_shape)
  obtain shs own where f: "forget_shards p (shards t) (owned t) = (shs, own)" by fastforce
  have t': "forget_peer t p = t\<lparr>shards := shs, owned := own\<rparr>" by (simp add: forget_peer_def f)
  have "\<forall>sh\<in>set (shards t). distinct (map fst sh)"
    using shape by (auto simp: table_shape_def shard_ok_def in_set_conv_nth)
  note spec = forget_shards_spec [OF this f]
  have len: "length (shards t) = SHARDS" "length shs = SHARDS"
    using shape spec by (auto simp: table_shape_def dest: list_all2_lengthD)
  have nth: "fst ` set (shs ! i) \<subseteq> fst ` set (shards t ! i) \<and> distinct (map fst (shs ! i)) \<and>
     (\<forall>r. map_of (shs ! i) r = Option.bind (map_of (shards t ! i) r) (\<lambda>h. shrink (strip_peer p h)))"
    if "i < SHARDS" for i
    using list_all2_nthD [OF conjunct1 [OF spec], of i] that len by simp
  show "lookup (forget_peer t p) r = Option.bind (lookup t r) (\<lambda>h. shrink (strip_peer p h))"
    using nth [of "r mod SHARDS"] by (simp add: t' lookup_def)
  show "contains (owned (forget_peer t p)) r \<longleftrightarrow> contains (owned t) r \<and> \<not> (\<exists>h. lookup t r = Some h \<and> owned_by h p)"
    using spec in_shards [OF shape] lookup_in_shards [OF shape] by (simp add: t') blast
  show "table_shape (forget_peer t p)"
    using shape nth by (fastforce simp: t' table_shape_def shard_ok_def len)
  show "capacity (owned (forget_peer t p)) = capacity (owned t)" using spec by (simp add: t')
qed

lemma forget_peer_ok: "table_ok t \<Longrightarrow> table_ok (forget_peer t p)"
proof -
  assume ok: "table_ok t"
  note f = forget_peer_lookup [OF ok]
  have b: "busy h" if "lookup (forget_peer t p) r = Some h" for r h
    using that by (auto simp: f(1) shrink_def bind_eq_Some_conv split: if_splits)
  have "contains (owned (forget_peer t p)) r \<longleftrightarrow> (\<exists>h. lookup (forget_peer t p) r = Some h \<and> owner_of h \<noteq> None)" for r
  proof (cases "lookup t r")
    case None
    then show ?thesis using ok by (simp add: f(1,2) table_ok_def)
  next
    case (Some h)
    then have "contains (owned t) r \<longleftrightarrow> owner_of h \<noteq> None" using ok by (simp add: table_ok_def)
    then show ?thesis
      by (cases "owner_of h") (auto simp: f(1,2) Some shrink_def strip_peer_def busy_def owned_by_def)
  qed
  with b f(3) show ?thesis by (simp add: table_ok_def)
qed

section \<open>Properties\<close>

datatype table_op =
    Claim nat peer_key instant
  | Release nat peer_key
  | ClearOwner nat
  | ClaimSecond nat peer_key
  | ClearSecond nat
  | ReleaseSecond nat peer_key
  | Clear nat
  | ForgetPeer peer_key

fun table_step :: "block_table \<Rightarrow> table_op \<Rightarrow> block_table" where
  "table_step t (Claim r p n) = fst (claim t r p n)"
| "table_step t (Release r p) = release t r p"
| "table_step t (ClearOwner r) = clear_owner t r"
| "table_step t (ClaimSecond r p) = fst (claim_second t r p)"
| "table_step t (ClearSecond r) = clear_second t r"
| "table_step t (ReleaseSecond r p) = release_second t r p"
| "table_step t (Clear r) = clear t r"
| "table_step t (ForgetPeer p) = forget_peer t p"

fun op_block :: "table_op \<Rightarrow> nat" where
  "op_block (Claim r p n) = r"
| "op_block (Release r p) = r"
| "op_block (ClearOwner r) = r"
| "op_block (ClaimSecond r p) = r"
| "op_block (ClearSecond r) = r"
| "op_block (ReleaseSecond r p) = r"
| "op_block (Clear r) = r"
| "op_block (ForgetPeer p) = 0"

text \<open>What the table promises, on two plain maps: the owner of a block and its second fetcher.\<close>

type_synonym ownership = "(nat \<Rightarrow> (peer_key \<times> instant) option) \<times> (nat \<Rightarrow> peer_key option)"

fun ownership_step :: "ownership \<Rightarrow> table_op \<Rightarrow> ownership" where
  "ownership_step (ow, se) (Claim r p n) =
     (if \<exists>q m. ow r = Some (q, m) \<and> q \<noteq> p then (ow, se) else (ow(r := Some (p, n)), se))"
| "ownership_step (ow, se) (Release r p) = (if \<exists>m. ow r = Some (p, m) then (ow(r := None), se) else (ow, se))"
| "ownership_step (ow, se) (ClearOwner r) = (ow(r := None), se)"
| "ownership_step (ow, se) (ClaimSecond r p) = (ow, if se r = None then se(r := Some p) else se)"
| "ownership_step (ow, se) (ClearSecond r) = (ow, se(r := None))"
| "ownership_step (ow, se) (ReleaseSecond r p) = (ow, if se r = Some p then se(r := None) else se)"
| "ownership_step (ow, se) (Clear r) = (ow(r := None), se(r := None))"
| "ownership_step (ow, se) (ForgetPeer p) =
     (\<lambda>r. if \<exists>m. ow r = Some (p, m) then None else ow r, \<lambda>r. if se r = Some p then None else se r)"

definition ownership_of :: "block_table \<Rightarrow> ownership" where
  "ownership_of t = (\<lambda>r. owner_of (get_hold t r), \<lambda>r. second_of (get_hold t r))"

definition of_option :: "hold option \<Rightarrow> hold" where
  "of_option v = (case v of None \<Rightarrow> default_hold | Some h \<Rightarrow> h)"

lemma of_option_shrink [simp]:
  "owner_of (of_option (shrink h)) = owner_of h" "second_of (of_option (shrink h)) = second_of h"
  by (cases "owner_of h"; auto simp: of_option_def shrink_def busy_def default_hold_def)+

lemma of_option_Some [simp]: "of_option (Some h) = h" "of_option None = default_hold"
  by (simp_all add: of_option_def)

lemma upd_ownership:
  "table_upd t r v t' \<Longrightarrow> ownership_of t' =
     ((fst (ownership_of t))(r := owner_of (of_option v)), (snd (ownership_of t))(r := second_of (of_option v)))"
  by (auto simp: ownership_of_def table_upd_def get_hold_def of_option_def fun_eq_iff)

lemma get_hold_Some: "lookup t r = Some h \<Longrightarrow> get_hold t r = h"
  by (simp add: get_hold_def)

lemma get_hold_None: "lookup t r = None \<Longrightarrow> get_hold t r = default_hold"
  by (simp add: get_hold_def)

definition table_inv :: "nat \<Rightarrow> block_table \<Rightarrow> bool" where
  "table_inv n t \<longleftrightarrow> table_ok t \<and> n \<le> capacity (owned t)"

lemma upd_inv:
  "table_inv n t \<Longrightarrow> table_upd t r v t' \<Longrightarrow> (case v of None \<Rightarrow> True | Some h \<Rightarrow> busy h) \<Longrightarrow> table_inv n t'"
  by (auto simp: table_inv_def table_upd_def intro: table_ok_upd)

lemma owned_by_iff: "owned_by h p \<longleftrightarrow> (\<exists>m. owner_of h = Some (p, m))"
  by (auto simp: owned_by_def split: option.splits)

text \<open>One operation: the invariant is kept and the maps change as specified.\<close>

definition refined :: "nat \<Rightarrow> block_table \<Rightarrow> table_op \<Rightarrow> bool" where
  "refined n t op \<longleftrightarrow> table_inv n (table_step t op) \<and>
     ownership_of (table_step t op) = ownership_step (ownership_of t) op"

lemma refined_upd:
  assumes "table_inv n t" "table_upd t x v (table_step t op)" "case v of None \<Rightarrow> True | Some h \<Rightarrow> busy h"
    "ownership_step (ownership_of t) op =
      ((fst (ownership_of t))(x := owner_of (of_option v)), (snd (ownership_of t))(x := second_of (of_option v)))"
  shows "refined n t op"
  using upd_inv [OF assms(1-3)] upd_ownership [OF assms(2)] assms(4) by (simp add: refined_def)

lemma refined_same:
  "table_inv n t \<Longrightarrow> table_step t op = t \<Longrightarrow> ownership_step (ownership_of t) op = ownership_of t \<Longrightarrow> refined n t op"
  by (simp add: refined_def)

lemma table_inv_ok: "table_inv n t \<Longrightarrow> table_ok t"
  by (simp add: table_inv_def)

lemma refined_claim:
  assumes "table_inv n t" "x < n"
  shows "refined n t (Claim x p m)"
proof (cases "owner_of (get_hold t x) \<noteq> None \<and> \<not> owned_by (get_hold t x) p")
  case True
  then show ?thesis using assms(1) by (intro refined_same) (auto simp: claim_def ownership_of_def owned_by_iff)
next
  case False
  then have "claim t x p m = (table_step t (Claim x p m), True)" by (simp add: claim_def Let_def)
  moreover have "x < capacity (owned t)" using assms by (simp add: table_inv_def)
  ultimately have "table_upd t x (Some ((get_hold t x)\<lparr>owner_of := Some (p, m)\<rparr>)) (table_step t (Claim x p m))"
    using claim_upd [OF table_inv_ok [OF assms(1)]] by blast
  then show ?thesis using False assms(1)
    by (elim refined_upd [rotated]) (auto simp: busy_def ownership_of_def owned_by_iff fun_eq_iff)
qed

lemma refined_release:
  assumes "table_inv n t"
  shows "refined n t (Release x p)"
proof (cases "owned_by (get_hold t x) p")
  case True
  then obtain h where h: "lookup t x = Some h" "owned_by h p"
    by (auto simp: get_hold_def owned_by_def default_hold_def split: option.splits)
  have "table_upd t x (shrink (h\<lparr>owner_of := None\<rparr>)) (table_step t (Release x p))"
    using drop_owner_upd [OF table_inv_ok [OF assms] h(1)] h by (simp add: release_def)
  then show ?thesis using assms h shrink_busy
    by (elim refined_upd [rotated]) (auto simp: ownership_of_def get_hold_Some owned_by_iff fun_eq_iff)
next
  case False
  then show ?thesis using assms
    by (intro refined_same) (auto simp: release_def ownership_of_def get_hold_def owned_by_iff split: option.splits)
qed

lemma refined_clear_owner:
  assumes "table_inv n t"
  shows "refined n t (ClearOwner x)"
proof (cases "lookup t x")
  case None
  then show ?thesis using assms
    by (intro refined_same) (auto simp: clear_owner_def ownership_of_def get_hold_None default_hold_def fun_eq_iff)
next
  case (Some h)
  then have "table_upd t x (shrink (h\<lparr>owner_of := None\<rparr>)) (table_step t (ClearOwner x))"
    using drop_owner_upd [OF table_inv_ok [OF assms]] by (simp add: clear_owner_def)
  then show ?thesis using assms Some shrink_busy
    by (elim refined_upd [rotated]) (auto simp: ownership_of_def get_hold_Some fun_eq_iff)
qed

lemma refined_claim_second:
  assumes "table_inv n t"
  shows "refined n t (ClaimSecond x p)"
proof (cases "second_of (get_hold t x) = None")
  case True
  then have "claim_second t x p = (table_step t (ClaimSecond x p), True)" by (simp add: claim_second_def Let_def)
  then have "table_upd t x (Some ((get_hold t x)\<lparr>second_of := Some p\<rparr>)) (table_step t (ClaimSecond x p))"
    using claim_second_upd [OF table_inv_ok [OF assms]] by blast
  then show ?thesis using True assms
    by (elim refined_upd [rotated]) (auto simp: busy_def ownership_of_def fun_eq_iff)
next
  case False
  then show ?thesis using assms by (intro refined_same) (auto simp: claim_second_def ownership_of_def)
qed

lemma refined_clear_second:
  assumes "table_inv n t"
  shows "refined n t (ClearSecond x)"
proof (cases "lookup t x")
  case None
  then show ?thesis using assms
    by (intro refined_same) (auto simp: clear_second_def ownership_of_def get_hold_None default_hold_def fun_eq_iff)
next
  case (Some h)
  then have "table_upd t x (shrink (h\<lparr>second_of := None\<rparr>)) (table_step t (ClearSecond x))"
    using drop_second_upd [OF table_inv_ok [OF assms]] by (simp add: clear_second_def)
  then show ?thesis using assms Some shrink_busy
    by (elim refined_upd [rotated]) (auto simp: ownership_of_def get_hold_Some fun_eq_iff)
qed

lemma refined_release_second:
  assumes "table_inv n t"
  shows "refined n t (ReleaseSecond x p)"
proof (cases "second_of (get_hold t x) = Some p")
  case True
  then obtain h where h: "lookup t x = Some h" "second_of h = Some p"
    by (auto simp: get_hold_def default_hold_def split: option.splits)
  have "table_upd t x (shrink (h\<lparr>second_of := None\<rparr>)) (table_step t (ReleaseSecond x p))"
    using drop_second_upd [OF table_inv_ok [OF assms] h(1)] h by (simp add: release_second_def)
  then show ?thesis using assms h shrink_busy
    by (elim refined_upd [rotated]) (auto simp: ownership_of_def get_hold_Some fun_eq_iff)
next
  case False
  then show ?thesis using assms
    by (intro refined_same) (auto simp: release_second_def ownership_of_def get_hold_def split: option.splits)
qed

lemma refined_clear: "table_inv n t \<Longrightarrow> refined n t (Clear x)"
  using clear_upd [OF table_inv_ok]
  by (intro refined_upd [where x = x and v = None]) (auto simp: ownership_of_def default_hold_def)

lemma refined_forget_peer:
  assumes "table_inv n t"
  shows "refined n t (ForgetPeer p)"
proof -
  note ok = table_inv_ok [OF assms]
  have "get_hold (forget_peer t p) x = of_option (shrink (strip_peer p (get_hold t x)))" for x
    using forget_peer_lookup(1) [OF ok, of p x]
    by (cases "lookup t x")
      (auto simp: get_hold_def of_option_def strip_peer_def owned_by_def default_hold_def shrink_def)
  then have "ownership_of (forget_peer t p) = ownership_step (ownership_of t) (ForgetPeer p)"
    by (auto simp: ownership_of_def strip_peer_def owned_by_iff fun_eq_iff)
  then show ?thesis
    using assms forget_peer_ok [OF ok] forget_peer_lookup(4) [OF ok] by (simp add: refined_def table_inv_def)
qed

lemma step_refined: "table_inv n t \<Longrightarrow> op_block op < n \<Longrightarrow> refined n t op"
  by (cases op)
    (simp_all add: refined_claim refined_release refined_clear_owner refined_claim_second refined_clear_second
      refined_release_second refined_clear refined_forget_peer)

lemma run_refined:
  "table_inv n t \<Longrightarrow> list_all (\<lambda>op. op_block op < n) ops \<Longrightarrow>
   table_inv n (foldl table_step t ops) \<and>
   ownership_of (foldl table_step t ops) = foldl ownership_step (ownership_of t) ops"
proof (induction ops arbitrary: t)
  case (Cons op ops)
  then have "refined n t op" by (intro step_refined) simp_all
  then show ?case using Cons by (simp add: refined_def)
qed simp

definition fresh_table :: "nat \<Rightarrow> block_table" where
  "fresh_table n = init_table default_table n"

lemma fresh_lookup: "lookup (fresh_table n) r = None"
  by (simp add: lookup_def fresh_table_def init_table_def default_table_def)

lemma fresh_inv: "table_inv n (fresh_table n)"
proof -
  have "table_shape (fresh_table n)"
    by (simp add: table_shape_def fresh_table_def init_table_def default_table_def shard_ok_def)
  moreover have "\<not> contains (owned (fresh_table n)) r" for r
    by (simp add: fresh_table_def init_table_def default_table_def contains_init) (simp add: contains_iff new_bits_def)
  moreover have "n \<le> capacity (owned (fresh_table n))"
    by (simp add: fresh_table_def init_table_def default_table_def capacity_init new_bits_def)
  ultimately show ?thesis by (simp add: table_inv_def table_ok_def fresh_lookup)
qed

lemma fresh_ownership: "ownership_of (fresh_table n) = (\<lambda>_. None, \<lambda>_. None)"
  by (simp add: ownership_of_def get_hold_def fresh_lookup default_hold_def)

lemma owner_eq: "table_ok t \<Longrightarrow> owner t r = fst (ownership_of t) r"
  using owned_iff [of t r] by (cases "owner_of (get_hold t r)") (auto simp: owner_def is_owned_def ownership_of_def)

text \<open>
  C5: after any sequence of table operations on a torrent's blocks, the sharded table with its
  unlocked bit set behaves as two plain maps: the owner and the second copy it reports, the peers it
  says hold a block, the claims it would grant and the unlocked bit all agree with them, a departed
  peer keeps nothing, and only blocks that somebody holds take memory.
\<close>

theorem block_table_refines:
  assumes "list_all (\<lambda>op. op_block op < n) ops"
  shows "let t = foldl table_step (fresh_table n) ops;
      (ow, se) = foldl ownership_step (\<lambda>_. None, \<lambda>_. None) ops in
    (\<forall>r. owner t r = ow r \<and> second t r = se r) \<and>
    (\<forall>r. is_owned t r \<longleftrightarrow> ow r \<noteq> None) \<and>
    (\<forall>r p. holds t r p \<longleftrightarrow> se r = Some p \<or> (\<exists>m. ow r = Some (p, m))) \<and>
    (\<forall>r p m. snd (claim t r p m) \<longleftrightarrow> (\<forall>q k. ow r = Some (q, k) \<longrightarrow> q = p)) \<and>
    (\<forall>r. lookup t r \<noteq> None \<longleftrightarrow> ow r \<noteq> None \<or> se r \<noteq> None)"
proof -
  let ?t = "foldl table_step (fresh_table n) ops"
  obtain ow se where os: "foldl ownership_step (\<lambda>_. None, \<lambda>_. None) ops = (ow, se)" by fastforce
  have ok: "table_ok ?t" and own: "ownership_of ?t = (ow, se)"
    using run_refined [OF fresh_inv assms] table_inv_ok by (auto simp: fresh_ownership os)
  have ow: "ow r = owner_of (get_hold ?t r)" and se: "se r = second_of (get_hold ?t r)" for r
    using own by (auto simp: ownership_of_def)
  have "lookup ?t r \<noteq> None \<longleftrightarrow> ow r \<noteq> None \<or> se r \<noteq> None" for r
    using get_hold_lookup [OF ok, of r] by (simp add: ow se shrink_def busy_def)
  moreover have "snd (claim ?t r p m) \<longleftrightarrow> (\<forall>q k. ow r = Some (q, k) \<longrightarrow> q = p)" for r p m
    by (auto simp: claim_def Let_def ow owned_by_iff)
  moreover have "holds ?t r p \<longleftrightarrow> se r = Some p \<or> (\<exists>m. ow r = Some (p, m))" for r p
    by (simp add: holds_def Let_def ow se owned_by_iff)
  ultimately show ?thesis
    using owner_eq [OF ok] owned_iff [OF ok] own
    by (simp add: os Let_def second_def is_owned_def ow [symmetric] se [symmetric])
qed

theorem block_table_refines_witness:
  "let t = foldl table_step (fresh_table 70) [Claim 65 1 10, Claim 65 2 11, ClaimSecond 65 2, Claim 3 2 12, ForgetPeer 1]
   in owner t 65 = None \<and> second t 65 = Some 2 \<and> owner t 3 = Some (2, 12) \<and> snd (claim t 65 4 20)"
  using block_table_refines [of 70 "[Claim 65 1 10, Claim 65 2 11, ClaimSecond 65 2, Claim 3 2 12, ForgetPeer 1]"]
  by (auto simp: Let_def)

text \<open>
  C36: \<open>clear\<close> drops the shard lock before it clears the \<open>owned\<close> bit. A claim granted in between
  survives in the map but loses its bit: the block then looks unowned to \<open>owner\<close> and to the unlocked
  scan, while every other peer's claim is refused, until the claimer lets go.
\<close>

theorem clear_claim_race:
  assumes "table_inv n t" and "r < n"
  shows "let (t2, won) = claim (clear_map t r) r p m; t3 = clear_bit t2 r in
    won \<and> holds t3 r p \<and> \<not> is_owned t3 r \<and> owner t3 r = None \<and>
    (\<forall>q k. q \<noteq> p \<longrightarrow> \<not> snd (claim t3 r q k)) \<and> table_inv n (release t3 r p)"
proof -
  have shape: "table_shape t" using assms(1) by (simp add: table_inv_def table_ok_def)
  let ?h = "\<lparr>owner_of = Some (p, m), second_of = None\<rparr>"
  let ?t2 = "put_hold (del_hold t r) r ?h"
  define t3 where "t3 = ?t2\<lparr>owned := remove_bit (insert_bit (owned t) r) r\<rparr>"
  have none: "get_hold (del_hold t r) r = default_hold" using shape by (simp add: get_hold_def lookup_del)
  have claim: "claim (clear_map t r) r p m = (?t2\<lparr>owned := insert_bit (owned t) r\<rparr>, True)"
    by (simp add: claim_def clear_map_def none Let_def default_hold_def)
  have look: "lookup t3 x = (if x = r then Some ?h else lookup t x)" for x
    using shape by (simp add: t3_def table_simps)
  have t3: "owned t3 = remove_bit (insert_bit (owned t) r) r" "table_shape t3" "writing t3 = writing t"
    using shape by (simp_all add: t3_def table_simps)
  have hold: "get_hold t3 r = ?h" by (simp add: get_hold_def look)
  have "release t3 r p = drop_owner t3 r ?h" by (simp add: release_def look owned_by_def)
  then have "table_upd t r None (release t3 r p)"
    by (auto simp: drop_owner_def Let_def table_upd_def table_simps contains_remove contains_insert t3 look)
  then have "table_inv n (release t3 r p)" using upd_inv [OF assms(1)] by force
  moreover have "\<not> is_owned t3 r" by (simp add: is_owned_def contains_remove t3)
  ultimately show ?thesis
    by (simp add: claim clear_bit_def t3_def [symmetric] holds_def owner_def hold Let_def owned_by_def)
      (simp add: claim_def Let_def hold owned_by_def)
qed

theorem clear_claim_race_witness:
  "let (t2, won) = claim (clear_map (fresh_table 4) 3) 3 1 5; t3 = clear_bit t2 3 in
    won \<and> holds t3 3 1 \<and> owner t3 3 = None \<and> \<not> snd (claim t3 3 2 6)"
  using clear_claim_race [of 4 "fresh_table 4" 3 1 5] fresh_inv [of 4]
  by (auto simp: Let_def split: prod.splits)

end
