(* ===== verification/Picker.thy ===== *)
theory Picker
  imports Prelude
begin

text \<open>
  Block geometry (\<^verbatim>\<open>wt-core/src/picker.rs\<close>): a torrent's blocks are numbered through, a fixed count
  per piece, and a block number is split into piece, offset and length. Block numbers are \<open>u32\<close>,
  lengths \<open>i64\<close>; the casts and wrap-around are written out. A piece of 64 TiB or more would make the
  block count of a piece wrap to zero and the division panic; the theorems assume pieces below 4 GiB.
\<close>

section \<open>Model\<close>

definition BLOCK_SIZE :: nat where
  "BLOCK_SIZE = 16384"

record block_coord =
  bc_piece :: nat
  bc_offset :: nat
  bc_length :: nat

definition chunks_per_piece :: "int \<Rightarrow> nat" where
  "chunks_per_piece piece_length =
     as_u32 (max (div_i64 (wrap_i64 (piece_length + int BLOCK_SIZE - 1)) (int BLOCK_SIZE)) 1)"

definition this_piece_len :: "nat \<Rightarrow> int \<Rightarrow> int \<Rightarrow> nat" where
  "this_piece_len piece piece_length total_length =
     (let piece_end = min (wrap_i64 ((int piece + 1) * piece_length)) total_length
      in as_u32 (max (wrap_i64 (piece_end - wrap_i64 (int piece * piece_length))) 0))"

definition block_coord_from_req_index :: "nat \<Rightarrow> int \<Rightarrow> int \<Rightarrow> block_coord" where
  "block_coord_from_req_index req piece_length total_length =
     (let cpp = chunks_per_piece piece_length;
          piece = req div cpp;
          chunk_in_piece = req mod cpp;
          offset = as_u32 (int (chunk_in_piece * BLOCK_SIZE));
          piece_len = this_piece_len piece piece_length total_length;
          len = (if offset \<ge> piece_len then 0 else min BLOCK_SIZE (piece_len - offset))
      in \<lparr>bc_piece = piece, bc_offset = offset, bc_length = len\<rparr>)"

definition req_index_from_piece_and_offset :: "nat \<Rightarrow> nat \<Rightarrow> int \<Rightarrow> nat" where
  "req_index_from_piece_and_offset piece offset piece_length =
     as_u32 (int (as_u32 (int (piece * chunks_per_piece piece_length)) + offset div BLOCK_SIZE))"

definition piece_req_index_range :: "nat \<Rightarrow> int \<Rightarrow> int \<Rightarrow> nat \<times> nat" where
  "piece_req_index_range piece piece_length total_length =
     (let start_req = as_u32 (int (piece * chunks_per_piece piece_length));
          piece_len = this_piece_len piece piece_length total_length;
          chunks = (if piece_len = 0 then 0 else div_ceil piece_len BLOCK_SIZE)
      in (start_req, as_u32 (int (start_req + chunks))))"

section \<open>Geometry without wrap-around\<close>

text \<open>
  The torrents the numbering covers: pieces below 4 GiB, a total that leaves \<open>i64\<close> room for one
  more piece, and block numbers that fit \<open>u32\<close>.
\<close>

definition geometry_ok :: "nat \<Rightarrow> nat \<Rightarrow> bool" where
  "geometry_ok pl tot \<longleftrightarrow> 0 < pl \<and> pl < 4294967296 \<and> tot + pl \<le> 9223372036854775807 \<and>
     div_ceil tot pl * div_ceil pl BLOCK_SIZE < 4294967296"

lemma BLOCK_SIZE_pos [simp]: "0 < BLOCK_SIZE" "BLOCK_SIZE \<noteq> 0"
  by (simp_all add: BLOCK_SIZE_def)

lemma as_u32_nat: "n < 4294967296 \<Longrightarrow> as_u32 (int n) = n"
  by (simp add: as_u32_id)

lemma wrap_i64_nat: "n \<le> 9223372036854775807 \<Longrightarrow> wrap_i64 (int n) = int n"
  by (rule wrap_i64_id) simp_all

lemma chunks_per_piece_nat:
  assumes "0 < pl" "pl < 4294967296"
  shows "chunks_per_piece (int pl) = div_ceil pl BLOCK_SIZE"
proof -
  have e: "int pl + int BLOCK_SIZE - 1 = int (pl + BLOCK_SIZE - 1)" using assms by simp
  have "wrap_i64 (int pl + int BLOCK_SIZE - 1) = int (pl + BLOCK_SIZE - 1)"
    unfolding e using assms by (intro wrap_i64_nat) (simp add: BLOCK_SIZE_def)
  moreover have "div_i64 (int (pl + BLOCK_SIZE - 1)) (int BLOCK_SIZE) = int (div_ceil pl BLOCK_SIZE)"
    by (subst div_i64_nonneg) (simp_all add: div_ceil_def zdiv_int)
  moreover have "0 < div_ceil pl BLOCK_SIZE" using assms by (simp add: div_ceil_pos)
  moreover have "div_ceil pl BLOCK_SIZE < 4294967296"
    using assms by (simp add: div_ceil_def BLOCK_SIZE_def div_less_iff_less_mult)
  moreover have "max (int (div_ceil pl BLOCK_SIZE)) 1 = int (div_ceil pl BLOCK_SIZE)"
    using calculation(3) by linarith
  ultimately show ?thesis by (simp only: chunks_per_piece_def as_u32_nat)
qed

lemma this_piece_len_nat:
  assumes "geometry_ok pl tot" "piece < div_ceil tot pl"
  shows "this_piece_len piece (int pl) (int tot) = min pl (tot - piece * pl)"
    and "piece * pl < tot" and "0 < min pl (tot - piece * pl)"
proof -
  have g: "0 < pl" "pl < 4294967296" "tot + pl \<le> 9223372036854775807" using assms by (auto simp: geometry_ok_def)
  show lt: "piece * pl < tot" using assms(2) less_div_ceil_iff [OF g(1)] by simp
  then show "0 < min pl (tot - piece * pl)" using g(1) by simp
  have w1: "wrap_i64 ((int piece + 1) * int pl) = int ((piece + 1) * pl)"
    using wrap_i64_nat [of "(piece + 1) * pl"] lt g(3) by (simp add: algebra_simps)
  have w2: "wrap_i64 (int piece * int pl) = int (piece * pl)"
    using wrap_i64_nat [of "piece * pl"] lt g(3) by simp
  have "min (int (a + pl)) (int tot) - int a = int (min pl (tot - a))" if "a < tot" for a
    using that by linarith
  from this [OF lt] have "min (int ((piece + 1) * pl)) (int tot) - int (piece * pl) = int (min pl (tot - piece * pl))"
    by (simp add: add.commute)
  moreover have "wrap_i64 (int (min pl (tot - piece * pl))) = int (min pl (tot - piece * pl))"
    using g by (intro wrap_i64_nat) simp
  ultimately show "this_piece_len piece (int pl) (int tot) = min pl (tot - piece * pl)"
    unfolding this_piece_len_def w1 w2 Let_def using g(2) by (simp add: as_u32_nat)
qed

text \<open>Blocks of a piece: their count stays within the piece's own numbers, and no number wraps.\<close>

lemma piece_blocks:
  assumes "geometry_ok pl tot" "piece < div_ceil tot pl"
  defines "cpp \<equiv> div_ceil pl BLOCK_SIZE" and "len \<equiv> min pl (tot - piece * pl)"
  shows "div_ceil len BLOCK_SIZE \<le> cpp" "piece * cpp + cpp < 4294967296"
    "piece_req_index_range piece (int pl) (int tot) = (piece * cpp, piece * cpp + div_ceil len BLOCK_SIZE)"
proof -
  have g: "0 < pl" "pl < 4294967296" "div_ceil tot pl * cpp < 4294967296"
    using assms(1) by (auto simp: geometry_ok_def cpp_def)
  show c: "div_ceil len BLOCK_SIZE \<le> cpp" by (simp add: div_ceil_def len_def cpp_def div_le_mono)
  have "(piece + 1) * cpp \<le> div_ceil tot pl * cpp" using assms(2) by (intro mult_le_mono1) simp
  with g(3) show b: "piece * cpp + cpp < 4294967296" by simp
  have "0 < len" using this_piece_len_nat(3) [OF assms(1,2)] by (simp add: len_def)
  then show "piece_req_index_range piece (int pl) (int tot) = (piece * cpp, piece * cpp + div_ceil len BLOCK_SIZE)"
    using this_piece_len_nat(1) [OF assms(1,2)] b c
    by (simp add: piece_req_index_range_def chunks_per_piece_nat [OF g(1,2)] cpp_def [symmetric] len_def [symmetric]
        as_u32_nat Let_def del: of_nat_mult of_nat_add)
qed

lemma block_coord_in_piece:
  assumes "geometry_ok pl tot" "piece < div_ceil tot pl"
  defines "cpp \<equiv> div_ceil pl BLOCK_SIZE" and "len \<equiv> min pl (tot - piece * pl)"
  assumes "k < div_ceil len BLOCK_SIZE"
  shows "block_coord_from_req_index (piece * cpp + k) (int pl) (int tot) =
      \<lparr>bc_piece = piece, bc_offset = k * BLOCK_SIZE, bc_length = min BLOCK_SIZE (len - k * BLOCK_SIZE)\<rparr>"
    and "k * BLOCK_SIZE < len"
    and "req_index_from_piece_and_offset piece (k * BLOCK_SIZE) (int pl) = piece * cpp + k"
proof -
  have g: "0 < pl" "pl < 4294967296" using assms(1) by (auto simp: geometry_ok_def)
  have pb: "div_ceil len BLOCK_SIZE \<le> cpp" "piece * cpp + cpp < 4294967296"
    using piece_blocks [OF assms(1,2)] by (simp_all add: cpp_def len_def)
  have k: "k < cpp" using assms(5) pb(1) by simp
  show lt: "k * BLOCK_SIZE < len" using assms(5) by (simp add: less_div_ceil_iff)
  then have "k * BLOCK_SIZE < 4294967296" using g(2) by (simp add: len_def)
  then show "block_coord_from_req_index (piece * cpp + k) (int pl) (int tot) =
      \<lparr>bc_piece = piece, bc_offset = k * BLOCK_SIZE, bc_length = min BLOCK_SIZE (len - k * BLOCK_SIZE)\<rparr>"
    using lt k this_piece_len_nat(1) [OF assms(1,2)]
    by (simp add: block_coord_from_req_index_def chunks_per_piece_nat [OF g] cpp_def [symmetric] len_def [symmetric]
        as_u32_nat Let_def del: of_nat_mult)
  show "req_index_from_piece_and_offset piece (k * BLOCK_SIZE) (int pl) = piece * cpp + k"
    using k pb(2) by (simp add: req_index_from_piece_and_offset_def chunks_per_piece_nat [OF g] cpp_def [symmetric]
        as_u32_nat del: of_nat_mult of_nat_add)
qed

lemma sum_tiles:
  "(\<Sum>k<n. min b (len - k * b)) = min len (n * b)" for b len n :: nat
proof (induction n)
  case (Suc n)
  then show ?case by (simp add: min_def) (auto simp: algebra_simps)
qed simp

section \<open>Properties\<close>

text \<open>
  C22: for a torrent whose block numbers fit, the blocks numbered for a piece tile it: every number of
  the range decodes to that piece, at consecutive offsets, with non-empty lengths of at most 16 KiB that
  add up to the piece's length; encoding the decoded position gives the number back; and the ranges of
  later pieces lie beyond it.
\<close>

theorem block_geometry_tiles:
  assumes "geometry_ok pl tot" and "piece < div_ceil tot pl"
  shows "let (b, e) = piece_req_index_range piece (int pl) (int tot);
      coord = (\<lambda>req. block_coord_from_req_index req (int pl) (int tot)) in
    b < e \<and>
    (\<forall>req. b \<le> req \<and> req < e \<longrightarrow>
       bc_piece (coord req) = piece \<and> bc_offset (coord req) = (req - b) * BLOCK_SIZE \<and>
       0 < bc_length (coord req) \<and> bc_length (coord req) \<le> BLOCK_SIZE \<and>
       req_index_from_piece_and_offset piece (bc_offset (coord req)) (int pl) = req) \<and>
    (\<Sum>req = b..<e. bc_length (coord req)) = min pl (tot - piece * pl) \<and>
    (\<forall>q. piece < q \<and> q < div_ceil tot pl \<longrightarrow> e \<le> fst (piece_req_index_range q (int pl) (int tot)))"
proof -
  define cpp where "cpp = div_ceil pl BLOCK_SIZE"
  define len where "len = min pl (tot - piece * pl)"
  define n where "n = div_ceil len BLOCK_SIZE"
  let ?coord = "\<lambda>req. block_coord_from_req_index req (int pl) (int tot)"
  note pb = piece_blocks [OF assms, folded cpp_def len_def, folded n_def]
  note bc = block_coord_in_piece [OF assms, folded cpp_def len_def, folded n_def]
  have n: "0 < n" "len \<le> n * BLOCK_SIZE"
    using this_piece_len_nat(3) [OF assms] div_ceil_pos div_ceil_lower [of BLOCK_SIZE len]
    by (simp_all add: n_def len_def)
  have each: "?coord (piece * cpp + k) = \<lparr>bc_piece = piece, bc_offset = k * BLOCK_SIZE,
      bc_length = min BLOCK_SIZE (len - k * BLOCK_SIZE)\<rparr>" "k * BLOCK_SIZE < len"
    "req_index_from_piece_and_offset piece (k * BLOCK_SIZE) (int pl) = piece * cpp + k" if "k < n" for k
    using bc that by blast+
  have dec: "bc_piece (?coord req) = piece \<and> bc_offset (?coord req) = (req - piece * cpp) * BLOCK_SIZE \<and>
       0 < bc_length (?coord req) \<and> bc_length (?coord req) \<le> BLOCK_SIZE \<and>
       req_index_from_piece_and_offset piece (bc_offset (?coord req)) (int pl) = req"
    if "piece * cpp \<le> req" "req < piece * cpp + n" for req
    using each [of "req - piece * cpp"] that by simp
  have "(\<Sum>req = piece * cpp..<piece * cpp + n. bc_length (?coord req)) = (\<Sum>k<n. bc_length (?coord (piece * cpp + k)))"
    using sum.shift_bounds_nat_ivl [of "\<lambda>req. bc_length (?coord req)" 0 "piece * cpp" n]
    by (simp add: atLeast0LessThan add.commute)
  also have "\<dots> = (\<Sum>k<n. min BLOCK_SIZE (len - k * BLOCK_SIZE))" using each(1) by simp
  also have "\<dots> = len" using n(2) by (simp add: sum_tiles)
  finally have tot: "(\<Sum>req = piece * cpp..<piece * cpp + n. bc_length (?coord req)) = len" .
  have later: "piece * cpp + n \<le> fst (piece_req_index_range q (int pl) (int tot))"
    if "piece < q" "q < div_ceil tot pl" for q
    using mult_le_mono1 [of "piece + 1" q cpp] piece_blocks(3) [OF assms(1) that(2)] pb(1) that
    by (simp add: cpp_def [symmetric])
  have "piece * cpp < piece * cpp + n" using n(1) by simp
  with dec tot later show ?thesis
    unfolding pb(3) Let_def prod.case len_def [symmetric] by blast
qed

theorem block_geometry_tiles_witness:
  "piece_req_index_range 1 40000 70000 = (3, 5) \<and>
   bc_offset (block_coord_from_req_index 4 40000 70000) = 16384 \<and>
   (\<Sum>req = 3..<5. bc_length (block_coord_from_req_index req 40000 70000)) = 30000"
proof -
  have range: "piece_req_index_range 1 (int 40000) (int 70000) = (3, 5)"
    by (simp add: piece_req_index_range_def chunks_per_piece_def this_piece_len_def wrap_i64_def div_i64_def
        as_u32_def div_ceil_def BLOCK_SIZE_def)
  have "geometry_ok 40000 70000" "1 < div_ceil 70000 40000"
    by (simp_all add: geometry_ok_def div_ceil_def BLOCK_SIZE_def)
  from block_geometry_tiles [OF this] show ?thesis
    unfolding range Let_def prod.case using range by (simp add: BLOCK_SIZE_def)
qed

end
