(* ===== verification/BlockWrite.thy ===== *)
theory BlockWrite
  imports BlockTable Picker
begin

text \<open>
  Receiving a block (\<^verbatim>\<open>wt-core/src/torrent_impls.rs\<close> and \<^verbatim>\<open>torrent.rs\<close>): the reservation a peer
  connection takes before it writes a block, the readable ("dirty") mark it leaves, and the hash
  verdict that may withdraw it. The operations are given whole, and the reservation also as the atomic
  steps other threads can interleave with: each step is one read or one update of a shared bit set.
  The mutex-guarded piece list, the block table and the bit sets are fields of one state.
\<close>

section \<open>Model\<close>

record piece_entry =
  p_complete :: bool
  p_checking :: bool
  p_partial :: bool
  p_ok :: bool

record torrent_blocks =
  info_lengths :: "(int \<times> int) option"
  num_pieces :: nat
  pieces :: "piece_entry list"
  dirty_chunks :: chunk_bits
  blocks :: block_table
  failed_pieces :: "nat set"
  hash_fail_generation :: nat

definition piece_of_req :: "torrent_blocks \<Rightarrow> nat \<Rightarrow> nat option" where
  "piece_of_req s req =
     map_option (\<lambda>(pl, tot). bc_piece (block_coord_from_req_index req pl tot)) (info_lengths s)"

definition piece_at :: "torrent_blocks \<Rightarrow> nat \<Rightarrow> piece_entry option" where
  "piece_at s i = (if i < length (pieces s) then Some (pieces s ! i) else None)"

definition upd_piece :: "torrent_blocks \<Rightarrow> nat \<Rightarrow> (piece_entry \<Rightarrow> piece_entry) \<Rightarrow> torrent_blocks" where
  "upd_piece s i f = (if i < length (pieces s) then s\<lparr>pieces := (pieces s)[i := f (pieces s ! i)]\<rparr> else s)"

definition mark_chunk_dirty :: "torrent_blocks \<Rightarrow> nat \<Rightarrow> torrent_blocks" where
  "mark_chunk_dirty s req =
     (let s' = s\<lparr>dirty_chunks := insert_bit (dirty_chunks s) req\<rparr> in
      case piece_of_req s' req of
        None \<Rightarrow> s'
      | Some piece \<Rightarrow>
          (case piece_at s' piece of
             None \<Rightarrow> s'
           | Some e \<Rightarrow> if \<not> p_partial e then upd_piece s' piece (\<lambda>e. e\<lparr>p_partial := True\<rparr>) else s'))"

definition piece_closed :: "torrent_blocks \<Rightarrow> nat \<Rightarrow> bool" where
  "piece_closed s req =
     (case piece_of_req s req of
        None \<Rightarrow> False
      | Some piece \<Rightarrow> (case piece_at s piece of None \<Rightarrow> False | Some e \<Rightarrow> p_complete e \<or> p_checking e))"

definition reserve_write :: "torrent_blocks \<Rightarrow> nat \<Rightarrow> torrent_blocks \<times> bool" where
  "reserve_write s req = (let (t, won) = begin_write (blocks s) req in (s\<lparr>blocks := t\<rparr>, won))"

definition release_write :: "torrent_blocks \<Rightarrow> nat \<Rightarrow> torrent_blocks" where
  "release_write s req = s\<lparr>blocks := end_write (blocks s) req\<rparr>"

definition begin_chunk_write :: "torrent_blocks \<Rightarrow> nat \<Rightarrow> torrent_blocks \<times> bool" where
  "begin_chunk_write s req =
     (if piece_closed s req then (s, False)
      else if contains (dirty_chunks s) req then (s, False)
      else
        let (s1, won) = reserve_write s req in
        if \<not> won then (s1, False)
        else if contains (dirty_chunks s1) req then (release_write s1 req, False)
        else (s1, True))"

definition finish_chunk_write :: "torrent_blocks \<Rightarrow> nat \<Rightarrow> bool \<Rightarrow> torrent_blocks" where
  "finish_chunk_write s req written =
     (let s1 = (if written then mark_chunk_dirty s req else s) in release_write s1 req)"

definition piece_all_dirty :: "torrent_blocks \<Rightarrow> nat \<Rightarrow> bool" where
  "piece_all_dirty s piece =
     (case info_lengths s of
        None \<Rightarrow> False
      | Some (pl, tot) \<Rightarrow>
          (let (b, e) = piece_req_index_range piece pl tot in all_in_range (dirty_chunks s) b e))"

definition block_free :: "torrent_blocks \<Rightarrow> nat \<Rightarrow> bool" where
  "block_free s req \<longleftrightarrow>
     \<not> contains (dirty_chunks s) req \<and> \<not> is_writing (blocks s) req \<and> \<not> is_owned (blocks s) req"

text \<open>The part of \<open>queue_piece_hash\<close> under the piece lock: it returns whether a job is queued.\<close>

definition start_checking :: "torrent_blocks \<Rightarrow> nat \<Rightarrow> torrent_blocks \<times> bool" where
  "start_checking s piece =
     (case piece_at s piece of
        None \<Rightarrow> (s, False)
      | Some e \<Rightarrow>
          if p_checking e \<or> p_complete e then (s, False)
          else (upd_piece s piece (\<lambda>e. e\<lparr>p_checking := True\<rparr>), True))"

text \<open>
  The verdict: \<open>marked\<close> is the storage's answer to \<open>mark_complete\<close>, asked only of a correct,
  uncancelled, error-free result.
\<close>

record hash_result =
  piece_index :: nat
  correct :: bool
  cancelled :: bool
  hash_error :: bool

definition verdict_valid :: "hash_result \<Rightarrow> bool \<Rightarrow> bool" where
  "verdict_valid result marked \<longleftrightarrow> correct result \<and> \<not> cancelled result \<and> \<not> hash_error result \<and> marked"

definition apply_hash_result :: "torrent_blocks \<Rightarrow> hash_result \<Rightarrow> bool \<Rightarrow> torrent_blocks" where
  "apply_hash_result s result marked =
     (case info_lengths s of
        None \<Rightarrow> s
      | Some (pl, tot) \<Rightarrow>
          let piece = piece_index result in
          if piece \<ge> num_pieces s then s
          else
            let valid = verdict_valid result marked;
                s1 = (if valid then s\<lparr>failed_pieces := failed_pieces s - {piece}\<rparr>
                      else s\<lparr>failed_pieces := insert piece (failed_pieces s),
                             hash_fail_generation := hash_fail_generation s + 1\<rparr>);
                s2 = upd_piece s1 piece (\<lambda>e. e\<lparr>p_checking := False, p_complete := valid, p_ok := True,
                        p_partial := (if valid then p_partial e else False)\<rparr>)
            in if \<not> valid then
                 (let (b, e) = piece_req_index_range piece pl tot
                  in s2\<lparr>dirty_chunks := remove_range (dirty_chunks s2) b e\<rparr>)
               else s2)"

section \<open>Interleaved steps\<close>

text \<open>Where a thread is inside \<open>begin_chunk_write\<close>, the write and \<open>finish_chunk_write\<close>.\<close>

datatype write_pc =
    Idle
  | PieceOpen nat
  | SawClean nat
  | Reserved nat
  | Writing nat
  | Releasing nat

record write_sys =
  shared :: torrent_blocks
  pcs :: "nat \<Rightarrow> write_pc"

abbreviation goto :: "write_sys \<Rightarrow> nat \<Rightarrow> write_pc \<Rightarrow> write_sys" where
  "goto s i pc \<equiv> s\<lparr>pcs := (pcs s)(i := pc)\<rparr>"

inductive write_step :: "nat \<Rightarrow> write_sys \<Rightarrow> write_sys \<Rightarrow> bool" for n where
  check_piece: "pcs s i = Idle \<Longrightarrow> r < n \<Longrightarrow> \<not> piece_closed (shared s) r \<Longrightarrow> write_step n s (goto s i (PieceOpen r))"
| see_dirty: "pcs s i = PieceOpen r \<Longrightarrow> contains (dirty_chunks (shared s)) r \<Longrightarrow> write_step n s (goto s i Idle)"
| see_clean: "pcs s i = PieceOpen r \<Longrightarrow> \<not> contains (dirty_chunks (shared s)) r \<Longrightarrow> write_step n s (goto s i (SawClean r))"
| reserve: "pcs s i = SawClean r \<Longrightarrow> reserve_write (shared s) r = (b, True) \<Longrightarrow>
     write_step n s (goto (s\<lparr>shared := b\<rparr>) i (Reserved r))"
| lose: "pcs s i = SawClean r \<Longrightarrow> reserve_write (shared s) r = (b, False) \<Longrightarrow>
     write_step n s (goto (s\<lparr>shared := b\<rparr>) i Idle)"
| recheck_dirty: "pcs s i = Reserved r \<Longrightarrow> contains (dirty_chunks (shared s)) r \<Longrightarrow> write_step n s (goto s i (Releasing r))"
| recheck_clean: "pcs s i = Reserved r \<Longrightarrow> \<not> contains (dirty_chunks (shared s)) r \<Longrightarrow> write_step n s (goto s i (Writing r))"
| written: "pcs s i = Writing r \<Longrightarrow>
     write_step n s (goto (s\<lparr>shared := mark_chunk_dirty (shared s) r\<rparr>) i (Releasing r))"
| write_failed: "pcs s i = Writing r \<Longrightarrow> write_step n s (goto s i (Releasing r))"
| release: "pcs s i = Releasing r \<Longrightarrow>
     write_step n s (goto (s\<lparr>shared := release_write (shared s) r\<rparr>) i Idle)"
| start_hash: "start_checking (shared s) p = (b, queued) \<Longrightarrow> write_step n s (s\<lparr>shared := b\<rparr>)"
| verdict: "write_step n s (s\<lparr>shared := apply_hash_result (shared s) result marked\<rparr>)"
| table: "write_step n s (s\<lparr>shared := (shared s)\<lparr>blocks := table_step (blocks (shared s)) op\<rparr>\<rparr>)"

inductive_cases write_stepE: "write_step n s t"

definition write_start :: "nat \<Rightarrow> torrent_blocks \<Rightarrow> bool" where
  "write_start n s \<longleftrightarrow> n \<le> capacity (dirty_chunks s) \<and> n \<le> capacity (writing (blocks s)) \<and>
     (\<forall>r. \<not> is_writing (blocks s) r)"

inductive write_reach :: "nat \<Rightarrow> write_sys \<Rightarrow> bool" for n where
  start: "write_start n b \<Longrightarrow> write_reach n \<lparr>shared = b, pcs = (\<lambda>_. Idle)\<rparr>"
| step: "write_reach n s \<Longrightarrow> write_step n s t \<Longrightarrow> write_reach n t"

section \<open>Invariant\<close>

fun reserved :: "write_pc \<Rightarrow> nat option" where
  "reserved (Reserved r) = Some r"
| "reserved (Writing r) = Some r"
| "reserved (Releasing r) = Some r"
| "reserved _ = None"

fun below :: "nat \<Rightarrow> write_pc \<Rightarrow> bool" where
  "below n Idle = True"
| "below n (PieceOpen r) = (r < n)"
| "below n (SawClean r) = (r < n)"
| "below n (Reserved r) = (r < n)"
| "below n (Writing r) = (r < n)"
| "below n (Releasing r) = (r < n)"

definition write_inv :: "nat \<Rightarrow> write_sys \<Rightarrow> bool" where
  "write_inv n s \<longleftrightarrow>
     n \<le> capacity (dirty_chunks (shared s)) \<and> n \<le> capacity (writing (blocks (shared s))) \<and>
     (\<forall>i. below n (pcs s i)) \<and>
     (\<forall>i j r. reserved (pcs s i) = Some r \<longrightarrow> reserved (pcs s j) = Some r \<longrightarrow> i = j) \<and>
     (\<forall>r. is_writing (blocks (shared s)) r \<longleftrightarrow> (\<exists>i. reserved (pcs s i) = Some r)) \<and>
     (\<forall>i r. pcs s i = Writing r \<longrightarrow> \<not> contains (dirty_chunks (shared s)) r)"

lemma upd_piece_frame [simp]:
  "dirty_chunks (upd_piece s i f) = dirty_chunks s" "blocks (upd_piece s i f) = blocks s"
  by (simp_all add: upd_piece_def)

lemma mark_chunk_dirty_frame [simp]:
  "blocks (mark_chunk_dirty s r) = blocks s"
  "dirty_chunks (mark_chunk_dirty s r) = insert_bit (dirty_chunks s) r"
  by (auto simp: mark_chunk_dirty_def Let_def split: option.splits)

lemma start_checking_frame:
  "start_checking s p = (b, q) \<Longrightarrow> dirty_chunks b = dirty_chunks s \<and> blocks b = blocks s"
  by (auto simp: start_checking_def split: option.splits if_splits)

lemma apply_hash_result_frame:
  "blocks (apply_hash_result s res m) = blocks s"
  "contains (dirty_chunks (apply_hash_result s res m)) x \<Longrightarrow> contains (dirty_chunks s) x"
  "capacity (dirty_chunks (apply_hash_result s res m)) = capacity (dirty_chunks s)"
  by (auto simp: apply_hash_result_def Let_def contains_remove_range split: option.splits prod.splits if_splits)

lemma forget_peer_writing [simp]: "writing (forget_peer t p) = writing t"
  by (simp add: forget_peer_def split: prod.splits)

lemma table_step_writing [simp]: "writing (table_step t op) = writing t"
  by (cases op)
    (auto simp: claim_def Let_def release_def clear_owner_def drop_owner_def claim_second_def clear_second_def
      drop_second_def release_second_def clear_def clear_map_def clear_bit_def split: option.splits)

lemma reserve_write_eq:
  "reserve_write s r =
     (s\<lparr>blocks := (blocks s)\<lparr>writing := insert_bit (writing (blocks s)) r\<rparr>\<rparr>, \<not> is_writing (blocks s) r)"
  by (simp add: reserve_write_def begin_write_def insert_new_eq is_writing_def)

lemma is_writing_insert:
  "r < capacity (writing t) \<Longrightarrow>
   is_writing (t\<lparr>writing := insert_bit (writing t) r\<rparr>) x \<longleftrightarrow> x = r \<or> is_writing t x"
  by (auto simp: is_writing_def contains_insert)

lemma is_writing_release:
  "is_writing (blocks (release_write s r)) x \<longleftrightarrow> is_writing (blocks s) x \<and> x \<noteq> r"
  by (auto simp: is_writing_def release_write_def end_write_def contains_remove)

lemma release_write_frame [simp]:
  "dirty_chunks (release_write s r) = dirty_chunks s"
  "capacity (writing (blocks (release_write s r))) = capacity (writing (blocks s))"
  by (simp_all add: release_write_def end_write_def)

lemma write_inv_start: "write_start n b \<Longrightarrow> write_inv n \<lparr>shared = b, pcs = (\<lambda>_. Idle)\<rparr>"
  by (simp add: write_start_def write_inv_def)

text \<open>A thread that moves without touching its reservation, or the shared state.\<close>

lemma write_inv_goto:
  assumes "write_inv n s" "reserved pc = reserved (pcs s i)" "below n pc"
    "\<And>r. pc = Writing r \<Longrightarrow> \<not> contains (dirty_chunks (shared s)) r"
  shows "write_inv n (goto s i pc)"
  using assms unfolding write_inv_def by (simp add: fun_upd_apply) metis

lemma write_inv_shared:
  assumes "write_inv n s" "capacity (dirty_chunks b) = capacity (dirty_chunks (shared s))"
    "capacity (writing (blocks b)) = capacity (writing (blocks (shared s)))"
    "\<And>x. is_writing (blocks b) x \<longleftrightarrow> is_writing (blocks (shared s)) x"
    "\<And>x. contains (dirty_chunks b) x \<Longrightarrow> contains (dirty_chunks (shared s)) x"
  shows "write_inv n (s\<lparr>shared := b\<rparr>)"
  using assms unfolding write_inv_def by simp blast

lemma write_invD:
  assumes "write_inv n s"
  shows "below n (pcs s i)"
    and "reserved (pcs s i) = Some r \<Longrightarrow> reserved (pcs s j) = Some r \<Longrightarrow> i = j"
    and "is_writing (blocks (shared s)) r \<longleftrightarrow> (\<exists>i. reserved (pcs s i) = Some r)"
    and "pcs s i = Writing r \<Longrightarrow> \<not> contains (dirty_chunks (shared s)) r"
  using assms unfolding write_inv_def by blast+

lemma write_invI:
  assumes "n \<le> capacity (dirty_chunks (shared s))" "n \<le> capacity (writing (blocks (shared s)))"
    "\<And>i. below n (pcs s i)"
    "\<And>i j r. reserved (pcs s i) = Some r \<Longrightarrow> reserved (pcs s j) = Some r \<Longrightarrow> i = j"
    "\<And>r. is_writing (blocks (shared s)) r \<longleftrightarrow> (\<exists>i. reserved (pcs s i) = Some r)"
    "\<And>i r. pcs s i = Writing r \<Longrightarrow> \<not> contains (dirty_chunks (shared s)) r"
  shows "write_inv n s"
  using assms unfolding write_inv_def by blast

lemma write_inv_cap:
  "write_inv n s \<Longrightarrow> n \<le> capacity (dirty_chunks (shared s))"
  "write_inv n s \<Longrightarrow> n \<le> capacity (writing (blocks (shared s)))"
  by (simp_all add: write_inv_def)

lemma reserved_take:
  "reserved (f i) = None \<Longrightarrow>
   (\<exists>j. reserved ((f(i := pc)) j) = Some x) \<longleftrightarrow> reserved pc = Some x \<or> (\<exists>j. reserved (f j) = Some x)"
  by (auto simp: fun_upd_apply split: if_splits) (metis option.distinct(1))

lemma reserved_give:
  assumes "reserved (f i) = Some r" "\<And>j. reserved (f j) = Some r \<Longrightarrow> j = i"
  shows "(\<exists>j. reserved ((f(i := Idle)) j) = Some x) \<longleftrightarrow> (\<exists>j. reserved (f j) = Some x) \<and> x \<noteq> r"
proof safe
  fix j assume "reserved ((f(i := Idle)) j) = Some x"
  then have "j \<noteq> i" "reserved (f j) = Some x" by (auto split: if_splits)
  then show "\<exists>j. reserved (f j) = Some x" by blast
next
  fix j assume "reserved ((f(i := Idle)) j) = Some r"
  then have "j \<noteq> i" "reserved (f j) = Some r" by (auto split: if_splits)
  then show False using assms(2) by blast
next
  fix j assume "reserved (f j) = Some x" "x \<noteq> r"
  then have "reserved ((f(i := Idle)) j) = Some x" using assms(1) by auto
  then show "\<exists>j. reserved ((f(i := Idle)) j) = Some x" by blast
qed

lemma write_inv_reserve:
  assumes inv: "write_inv n s" and pc: "pcs s i = SawClean r" and res: "reserve_write (shared s) r = (b, True)"
  shows "write_inv n (goto (s\<lparr>shared := b\<rparr>) i (Reserved r))"
proof (rule write_invI)
  have r: "r < n" using write_invD(1) [OF inv, of i] pc by simp
  have free: "\<not> is_writing (blocks (shared s)) r" and d: "dirty_chunks b = dirty_chunks (shared s)"
    and b: "capacity (writing (blocks b)) = capacity (writing (blocks (shared s)))"
      "\<And>x. is_writing (blocks b) x \<longleftrightarrow> x = r \<or> is_writing (blocks (shared s)) x"
    using res r write_inv_cap(2) [OF inv] by (auto simp: reserve_write_eq is_writing_insert)
  let ?s = "goto (s\<lparr>shared := b\<rparr>) i (Reserved r)"
  show "n \<le> capacity (dirty_chunks (shared ?s))" "n \<le> capacity (writing (blocks (shared ?s)))"
    using write_inv_cap [OF inv] by (simp_all add: d b)
  show "below n (pcs ?s j)" for j using r write_invD(1) [OF inv] by simp
  have none: "reserved (pcs s j) \<noteq> Some r" for j using free write_invD(3) [OF inv] by blast
  then show "j = k" if "reserved (pcs ?s j) = Some x" "reserved (pcs ?s k) = Some x" for j k x
    using that write_invD(2) [OF inv, of j x k] by (auto split: if_splits)
  show "is_writing (blocks (shared ?s)) x \<longleftrightarrow> (\<exists>j. reserved (pcs ?s j) = Some x)" for x
    using reserved_take [of "pcs s" i "Reserved r" x] pc write_invD(3) [OF inv, of x] by (auto simp: b)
  show "\<not> contains (dirty_chunks (shared ?s)) x" if "pcs ?s j = Writing x" for j x
    using that write_invD(4) [OF inv] by (auto simp: d split: if_splits)
qed

lemma write_inv_written:
  assumes inv: "write_inv n s" and pc: "pcs s i = Writing r"
  shows "write_inv n (goto (s\<lparr>shared := mark_chunk_dirty (shared s) r\<rparr>) i (Releasing r))"
proof (rule write_invI)
  let ?s = "goto (s\<lparr>shared := mark_chunk_dirty (shared s) r\<rparr>) i (Releasing r)"
  show "n \<le> capacity (dirty_chunks (shared ?s))" "n \<le> capacity (writing (blocks (shared ?s)))"
    using write_inv_cap [OF inv] by simp_all
  have same: "reserved (pcs ?s j) = reserved (pcs s j)" for j using pc by simp
  show "below n (pcs ?s j)" for j using pc write_invD(1) [OF inv, of i] write_invD(1) [OF inv] by simp
  show "j = k" if "reserved (pcs ?s j) = Some x" "reserved (pcs ?s k) = Some x" for j k x
    using that write_invD(2) [OF inv] by (simp only: same)
  show "is_writing (blocks (shared ?s)) x \<longleftrightarrow> (\<exists>j. reserved (pcs ?s j) = Some x)" for x
    using write_invD(3) [OF inv, of x] by (simp only: same) simp
  show "\<not> contains (dirty_chunks (shared ?s)) x" if "pcs ?s j = Writing x" for j x
  proof -
    have j: "j \<noteq> i" "pcs s j = Writing x" using that by (auto split: if_splits)
    then have "x \<noteq> r" using write_invD(2) [OF inv, of i r j] pc by auto
    then show ?thesis using write_invD(4) [OF inv j(2)] by (simp add: contains_insert)
  qed
qed

lemma write_inv_release:
  assumes inv: "write_inv n s" and pc: "pcs s i = Releasing r"
  shows "write_inv n (goto (s\<lparr>shared := release_write (shared s) r\<rparr>) i Idle)"
proof (rule write_invI)
  let ?s = "goto (s\<lparr>shared := release_write (shared s) r\<rparr>) i Idle"
  show "n \<le> capacity (dirty_chunks (shared ?s))" "n \<le> capacity (writing (blocks (shared ?s)))"
    using write_inv_cap [OF inv] by simp_all
  show "below n (pcs ?s j)" for j using write_invD(1) [OF inv] by simp
  show "j = k" if "reserved (pcs ?s j) = Some x" "reserved (pcs ?s k) = Some x" for j k x
    using that write_invD(2) [OF inv, of j x k] by (auto split: if_splits)
  have "j = i" if "reserved (pcs s j) = Some r" for j using that pc write_invD(2) [OF inv, of j r i] by simp
  then show "is_writing (blocks (shared ?s)) x \<longleftrightarrow> (\<exists>j. reserved (pcs ?s j) = Some x)" for x
    using reserved_give [of "pcs s" i r x] pc write_invD(3) [OF inv, of x] by (simp add: is_writing_release)
  show "\<not> contains (dirty_chunks (shared ?s)) x" if "pcs ?s j = Writing x" for j x
    using that write_invD(4) [OF inv] by (auto split: if_splits)
qed

lemma write_step_inv: "write_step n s t \<Longrightarrow> write_inv n s \<Longrightarrow> write_inv n t"
proof (induction rule: write_step.induct)
  case (check_piece s i r)
  then show ?case by (intro write_inv_goto) simp_all
next
  case (see_dirty s i r)
  then show ?case by (intro write_inv_goto) simp_all
next
  case (see_clean s i r)
  then show ?case using write_invD(1) [of n s i] by (intro write_inv_goto) simp_all
next
  case (reserve s i r b)
  then show ?case by (intro write_inv_reserve)
next
  case (lose s i r b)
  have "dirty_chunks b = dirty_chunks (shared s)" "capacity (writing (blocks b)) = capacity (writing (blocks (shared s)))"
    "is_writing (blocks b) x \<longleftrightarrow> is_writing (blocks (shared s)) x" for x
    using lose(2) by (auto simp: reserve_write_eq is_writing_def contains_insert)
  then have "write_inv n (s\<lparr>shared := b\<rparr>)" using lose(3) by (intro write_inv_shared) simp_all
  then show ?case using lose(1) write_inv_goto [of n "s\<lparr>shared := b\<rparr>" Idle i] by simp
next
  case (recheck_dirty s i r)
  then show ?case using write_invD(1) [of n s i] by (intro write_inv_goto) simp_all
next
  case (recheck_clean s i r)
  then show ?case using write_invD(1) [of n s i] by (intro write_inv_goto) simp_all
next
  case (written s i r)
  then show ?case by (intro write_inv_written)
next
  case (write_failed s i r)
  then show ?case using write_invD(1) [of n s i] by (intro write_inv_goto) simp_all
next
  case (release s i r)
  then show ?case by (intro write_inv_release)
next
  case (start_hash s p b queued)
  then show ?case using start_checking_frame [OF start_hash(1)] by (intro write_inv_shared) simp_all
next
  case (verdict s result marked)
  then show ?case by (intro write_inv_shared) (auto simp: apply_hash_result_frame)
next
  case (table s op)
  then show ?case by (intro write_inv_shared) (simp_all add: is_writing_def)
qed

lemma write_reach_inv: "write_reach n s \<Longrightarrow> write_inv n s"
  by (induction rule: write_reach.induct) (auto intro: write_inv_start write_step_inv)

section \<open>Properties\<close>

text \<open>
  C4: however connections, the hasher's verdicts and the block table's updates interleave, at most one
  thread writes a block at a time, a block being written is never marked readable and never offered for
  requesting, and so no thread writes into a piece all of whose blocks are readable (the pieces handed to
  the hasher).
\<close>

theorem block_write_exclusive:
  assumes "write_reach n s"
  shows "(\<forall>i j r. pcs s i = Writing r \<and> pcs s j = Writing r \<longrightarrow> i = j) \<and>
    (\<forall>i r. pcs s i = Writing r \<longrightarrow> \<not> contains (dirty_chunks (shared s)) r \<and> \<not> block_free (shared s) r) \<and>
    (\<forall>i r piece pl tot. piece_all_dirty (shared s) piece \<and> info_lengths (shared s) = Some (pl, tot) \<and>
       fst (piece_req_index_range piece pl tot) \<le> r \<and> r < snd (piece_req_index_range piece pl tot) \<longrightarrow>
       pcs s i \<noteq> Writing r)"
proof -
  note inv = write_reach_inv [OF assms]
  have one: "i = j" if "pcs s i = Writing r" "pcs s j = Writing r" for i j r
    using write_invD(2) [OF inv, of i r j] that by simp
  have clean: "\<not> contains (dirty_chunks (shared s)) r" if "pcs s i = Writing r" for i r
    using write_invD(4) [OF inv that] .
  have busy: "\<not> block_free (shared s) r" if "pcs s i = Writing r" for i r
    using write_invD(3) [OF inv, of r] that by (auto simp: block_free_def intro: exI [of _ i])
  have hashed: "pcs s i \<noteq> Writing r"
    if "piece_all_dirty (shared s) piece" "info_lengths (shared s) = Some (pl, tot)"
      "fst (piece_req_index_range piece pl tot) \<le> r" "r < snd (piece_req_index_range piece pl tot)" for i r piece pl tot
    using that clean [of i r] by (auto simp: piece_all_dirty_def all_in_range_iff split: prod.splits)
  show ?thesis using one clean busy hashed by blast
qed

definition two_pieces :: torrent_blocks where
  "two_pieces = \<lparr>info_lengths = Some (32768, 65536), num_pieces = 2,
     pieces = replicate 2 \<lparr>p_complete = False, p_checking = False, p_partial = False, p_ok = True\<rparr>,
     dirty_chunks = init_bits new_bits 4, blocks = fresh_table 4, failed_pieces = {}, hash_fail_generation = 0\<rparr>"

lemma not_in_fresh_bits: "\<not> contains (init_bits new_bits n) r"
  by (simp add: contains_init) (simp add: contains_iff new_bits_def)

lemma two_pieces_start: "write_start 4 two_pieces"
  by (simp add: write_start_def two_pieces_def fresh_table_def init_table_def default_table_def capacity_init
      is_writing_def not_in_fresh_bits new_bits_def)
    (simp add: not_in_fresh_bits [unfolded new_bits_def])

lemma two_pieces_open: "r < 4 \<Longrightarrow> \<not> piece_closed two_pieces r"
  by (auto simp: piece_closed_def piece_of_req_def piece_at_def two_pieces_def nth_replicate
      split: option.splits)

text \<open>Thread 0 reserves block 3 and is writing it while thread 1 has seen it clean.\<close>

definition writing_three :: write_sys where
  "writing_three =
     \<lparr>shared = fst (reserve_write two_pieces 3), pcs = (\<lambda>_. Idle)(1 := SawClean 3, 0 := Writing 3)\<rparr>"

lemma writing_three_reach: "write_reach 4 writing_three"
proof -
  let ?s = "\<lambda>p q. \<lparr>shared = two_pieces, pcs = (\<lambda>_. Idle)(1 := p, 0 := q)\<rparr>"
  let ?b = "fst (reserve_write two_pieces 3)"
  have clean: "\<not> contains (dirty_chunks two_pieces) 3" by (simp add: two_pieces_def not_in_fresh_bits)
  have won: "reserve_write two_pieces 3 = (?b, True)"
    using two_pieces_start by (simp add: reserve_write_eq write_start_def)
  have "\<lparr>shared = two_pieces, pcs = (\<lambda>_. Idle)\<rparr> = ?s Idle Idle" by (simp add: fun_upd_idem)
  with write_reach.start [OF two_pieces_start] have "write_reach 4 (?s Idle Idle)" by simp
  from write_reach.step [OF this check_piece [of _ 1 3]] have "write_reach 4 (?s (PieceOpen 3) Idle)"
    using two_pieces_open by (simp add: fun_upd_twist)
  from write_reach.step [OF this see_clean [of _ 1 3]] have "write_reach 4 (?s (SawClean 3) Idle)"
    using clean by (simp add: fun_upd_twist)
  from write_reach.step [OF this check_piece [of _ 0 3]] have "write_reach 4 (?s (SawClean 3) (PieceOpen 3))"
    using two_pieces_open by simp
  from write_reach.step [OF this see_clean [of _ 0 3]] have "write_reach 4 (?s (SawClean 3) (SawClean 3))"
    using clean by simp
  from write_reach.step [OF this reserve [of _ 0 3 ?b]]
  have "write_reach 4 \<lparr>shared = ?b, pcs = (\<lambda>_. Idle)(1 := SawClean 3, 0 := Reserved 3)\<rparr>"
    using won by simp
  from write_reach.step [OF this recheck_clean [of _ 0 3]] show ?thesis
    using clean by (simp add: writing_three_def reserve_write_eq)
qed

theorem block_write_exclusive_witness:
  "pcs writing_three 0 = Writing 3 \<and> \<not> block_free (shared writing_three) 3 \<and>
   \<not> contains (dirty_chunks (shared writing_three)) 3 \<and> pcs writing_three 1 \<noteq> Writing 3"
proof -
  have "pcs writing_three 0 = Writing 3" by (simp add: writing_three_def)
  then show ?thesis using block_write_exclusive [OF writing_three_reach] zero_neq_one by metis
qed

text \<open>The whole reservation, in closed form.\<close>

lemma begin_chunk_write_eq:
  "begin_chunk_write s r =
     (if piece_closed s r \<or> contains (dirty_chunks s) r then (s, False)
      else (fst (reserve_write s r), \<not> is_writing (blocks s) r))"
  by (simp add: begin_chunk_write_def reserve_write_eq)

lemma piece_closed_blocks [simp]: "piece_closed (s\<lparr>blocks := b\<rparr>) r = piece_closed s r"
  by (simp add: piece_closed_def piece_of_req_def piece_at_def cong: option.case_cong)

text \<open>
  C24: a reservation succeeds exactly when the piece is open and the block neither readable nor being
  written; a refusal changes neither set; while it is held nobody else gets one; and finishing it either
  makes the block readable for good (no later reservation) or, after a failed write, frees it for a retry.
\<close>

theorem chunk_write_lifecycle:
  assumes "r < capacity (dirty_chunks s)" and "r < capacity (writing (blocks s))"
  shows "let (s1, won) = begin_chunk_write s r in
    (won \<longleftrightarrow> \<not> piece_closed s r \<and> \<not> contains (dirty_chunks s) r \<and> \<not> is_writing (blocks s) r) \<and>
    (\<not> won \<longrightarrow> (\<forall>x. (is_writing (blocks s1) x \<longleftrightarrow> is_writing (blocks s) x) \<and>
                  (contains (dirty_chunks s1) x \<longleftrightarrow> contains (dirty_chunks s) x))) \<and>
    (won \<longrightarrow> \<not> snd (begin_chunk_write s1 r) \<and>
       contains (dirty_chunks (finish_chunk_write s1 r True)) r \<and>
       \<not> snd (begin_chunk_write (finish_chunk_write s1 r True) r) \<and>
       snd (begin_chunk_write (finish_chunk_write s1 r False) r))"
  using assms
  by (auto simp: begin_chunk_write_eq reserve_write_eq finish_chunk_write_def Let_def release_write_def
      end_write_def is_writing_def contains_insert contains_remove)

theorem chunk_write_lifecycle_witness:
  "snd (begin_chunk_write two_pieces 3) \<and>
   \<not> snd (begin_chunk_write (finish_chunk_write (fst (begin_chunk_write two_pieces 3)) 3 True) 3)"
proof -
  have "3 < capacity (dirty_chunks two_pieces)" "3 < capacity (writing (blocks two_pieces))"
    using two_pieces_start by (simp_all add: write_start_def)
  from chunk_write_lifecycle [OF this] two_pieces_start two_pieces_open [of 3] show ?thesis
    by (auto simp: write_start_def two_pieces_def not_in_fresh_bits split: prod.splits)
qed

text \<open>
  C23: the hash verdict seals or reopens a piece. After a valid one every block of the piece refuses
  further writes and no readable mark is lost; after an invalid one exactly that piece's blocks lose
  their marks and become requestable again, and the piece is recorded as failed.
\<close>

theorem hash_verdict_seals_or_reopens:
  assumes "geometry_ok pl tot" and "info_lengths s = Some (int pl, int tot)"
    and "num_pieces s = div_ceil tot pl" and "length (pieces s) = num_pieces s"
    and "piece_index result < num_pieces s"
  shows "let p = piece_index result; s' = apply_hash_result s result marked;
      (b, e) = piece_req_index_range p (int pl) (int tot) in
    (verdict_valid result marked \<longrightarrow>
       (\<forall>r. b \<le> r \<and> r < e \<longrightarrow> \<not> snd (begin_chunk_write s' r)) \<and>
       dirty_chunks s' = dirty_chunks s \<and> p \<notin> failed_pieces s') \<and>
    (\<not> verdict_valid result marked \<longrightarrow>
       (\<forall>r. contains (dirty_chunks s') r \<longleftrightarrow> contains (dirty_chunks s) r \<and> \<not> (b \<le> r \<and> r < e)) \<and>
       (\<forall>r. b \<le> r \<and> r < e \<longrightarrow> \<not> piece_closed s' r) \<and> p \<in> failed_pieces s')"
proof -
  let ?p = "piece_index result" and ?s = "apply_hash_result s result marked"
  obtain b e where range: "piece_req_index_range ?p (int pl) (int tot) = (b, e)" by fastforce
  have p: "?p < div_ceil tot pl" "?p < length (pieces s)" using assms(3-5) by simp_all
  have req: "bc_piece (block_coord_from_req_index r (int pl) (int tot)) = ?p" if "b \<le> r" "r < e" for r
  proof -
    define cpp where "cpp = div_ceil pl BLOCK_SIZE"
    have be: "b = ?p * cpp" "e = b + div_ceil (min pl (tot - ?p * pl)) BLOCK_SIZE"
      using piece_blocks(3) [OF assms(1) p(1)] range by (simp_all add: cpp_def)
    have "r = ?p * cpp + (r - b)" "r - b < div_ceil (min pl (tot - ?p * pl)) BLOCK_SIZE"
      using that be by simp_all
    then show ?thesis using block_coord_in_piece(1) [OF assms(1) p(1), of "r - b"] by (simp add: cpp_def)
  qed
  have closed: "piece_closed ?s r \<longleftrightarrow> verdict_valid result marked" if "b \<le> r" "r < e" for r
    using assms(2,5) p req [OF that]
    by (simp add: apply_hash_result_def Let_def range piece_closed_def piece_of_req_def piece_at_def upd_piece_def)
  have valid: "dirty_chunks ?s = dirty_chunks s" "?p \<notin> failed_pieces ?s" if "verdict_valid result marked"
    using that assms(2,5) by (simp_all add: apply_hash_result_def Let_def upd_piece_def)
  have invalid: "dirty_chunks ?s = remove_range (dirty_chunks s) b e" "?p \<in> failed_pieces ?s" if "\<not> verdict_valid result marked"
    using that assms(2,5) by (simp_all add: apply_hash_result_def Let_def upd_piece_def range)
  have refuse: "\<not> snd (begin_chunk_write ?s r)" if "verdict_valid result marked" "b \<le> r" "r < e" for r
    using closed that by (simp add: begin_chunk_write_eq)
  show ?thesis
    unfolding Let_def range prod.case
    using closed valid invalid refuse by (cases "verdict_valid result marked") (simp_all add: contains_remove_range)
qed

theorem hash_verdict_seals_or_reopens_witness:
  "let s' = apply_hash_result two_pieces \<lparr>piece_index = 1, correct = True, cancelled = False, hash_error = False\<rparr> True;
       f' = apply_hash_result two_pieces \<lparr>piece_index = 1, correct = False, cancelled = False, hash_error = False\<rparr> True in
   \<not> snd (begin_chunk_write s' 3) \<and> \<not> piece_closed f' 3 \<and> 1 \<in> failed_pieces f'"
proof -
  have g: "geometry_ok 32768 65536" by (simp add: geometry_ok_def div_ceil_def BLOCK_SIZE_def)
  have range: "piece_req_index_range 1 (int 32768) (int 65536) = (2, 4)"
    by (simp add: piece_req_index_range_def chunks_per_piece_def this_piece_len_def wrap_i64_def div_i64_def
        as_u32_def div_ceil_def BLOCK_SIZE_def)
  have t: "info_lengths two_pieces = Some (int 32768, int 65536)" "num_pieces two_pieces = div_ceil 65536 32768"
    "length (pieces two_pieces) = num_pieces two_pieces" "1 < num_pieces two_pieces"
    by (simp_all add: two_pieces_def div_ceil_def)
  have i: "piece_index \<lparr>piece_index = 1, correct = c, cancelled = False, hash_error = False\<rparr> < num_pieces two_pieces" for c
    using t(4) by simp
  show ?thesis
    using hash_verdict_seals_or_reopens [OF g t(1-3) i, of True True]
      hash_verdict_seals_or_reopens [OF g t(1-3) i, of False True] range
    by (simp add: Let_def verdict_valid_def)
qed

end
