(* ===== verification/Pieces.thy ===== *)
theory Pieces
  imports Types "HOL-Library.Product_Lexorder"
begin

text \<open>
  The piece map shown to the user (\<^verbatim>\<open>wt-storage/src/pieces.rs\<close>): the per-piece states are packed into
  runs of equal flags, and runs and selected ranges are counted into at most 1024 buckets by one sweep.
  Counts are \<open>u32\<close> kept as \<open>nat\<close>; a run total above \<open>u32\<close> is refused by the code itself. \<open>None\<close> is
  the code's \<open>None\<close>; inside the sweep it also stands for an index panic or a loop that never ends, and
  the theorems show neither happens.
\<close>

section \<open>Model\<close>

record piece_run =
  run_length :: nat
  run_flags :: u32

record piece_range =
  pr_start :: nat
  pr_end :: nat

record piece_bucket =
  b_start :: nat
  b_end :: nat
  b_total :: nat
  b_selected :: nat
  b_verified :: nat
  b_receiving :: nat
  b_selected_verified :: nat
  b_selected_receiving :: nat

record piece_state_run =
  ps_length :: nat
  ps_complete :: bool
  ps_checking :: bool
  ps_hashing :: bool
  ps_partial :: bool
  ps_priority :: piece_priority

definition default_bucket :: piece_bucket where
  "default_bucket = \<lparr>b_start = 0, b_end = 0, b_total = 0, b_selected = 0, b_verified = 0, b_receiving = 0,
     b_selected_verified = 0, b_selected_receiving = 0\<rparr>"

definition exclusive_end :: "nat \<Rightarrow> nat \<Rightarrow> nat \<Rightarrow> nat" where
  "exclusive_end start bsize tot = (if start + bsize > u32_max then tot else min (start + bsize) tot)"

subsection \<open>Packing\<close>

definition state_flags :: "bool \<Rightarrow> piece_state_run \<Rightarrow> u32" where
  "state_flags playing st =
     (if ps_complete st then 1
      else if ps_checking st \<or> ps_hashing st \<or> (ps_partial st \<and> (\<not> playing \<or> ps_priority st \<ge> PNext)) then 2
      else 0)"

definition push_run :: "piece_run list \<Rightarrow> nat \<Rightarrow> u32 \<Rightarrow> piece_run list" where
  "push_run runs n flags =
     (if runs \<noteq> [] \<and> run_flags (last runs) = flags
      then butlast runs @ [(last runs)\<lparr>run_length := run_length (last runs) + n\<rparr>]
      else runs @ [\<lparr>run_length = n, run_flags = flags\<rparr>])"

fun compress_loop :: "piece_state_run list \<Rightarrow> nat \<Rightarrow> bool \<Rightarrow> nat \<Rightarrow> piece_run list
    \<Rightarrow> storage_error + nat \<times> piece_run list" where
  "compress_loop [] tot playing sm runs = Inr (sm, runs)"
| "compress_loop (st # sts) tot playing sm runs =
     (if ps_length st = 0 then Inl (Other ''invalid piece run'')
      else
        let nxt = sm + ps_length st in
        if nxt > u32_max \<or> nxt > tot then Inl (Other ''invalid piece run'')
        else compress_loop sts tot playing nxt (push_run runs (ps_length st) (state_flags playing st)))"

definition compress_piece_runs :: "piece_state_run list \<Rightarrow> nat \<Rightarrow> bool \<Rightarrow> storage_error + piece_run list" where
  "compress_piece_runs states tot playing =
     (case compress_loop states tot playing 0 [] of
        Inl e \<Rightarrow> Inl e
      | Inr (sm, runs) \<Rightarrow> if sm \<noteq> tot then Inl (Other ''invalid piece run'') else Inr runs)"

subsection \<open>Buckets\<close>

text \<open>The ranges are sorted and merged in place: \<open>m\<close> of them are done when the scan is at \<open>i\<close>.\<close>

function merge_loop :: "piece_range list \<Rightarrow> nat \<Rightarrow> nat \<Rightarrow> piece_range list \<times> nat" where
  "merge_loop rs i m =
     (if i < length rs then
        (let range = rs ! i in
         if pr_start range = pr_end range then merge_loop rs (Suc i) m
         else if m > 0 \<and> pr_start range \<le> pr_end (rs ! (m - 1))
         then merge_loop (rs[m - 1 := (rs ! (m - 1))\<lparr>pr_end := max (pr_end (rs ! (m - 1))) (pr_end range)\<rparr>]) (Suc i) m
         else merge_loop (rs[m := range]) (Suc i) (Suc m))
      else (rs, m))"
  by pat_completeness auto
termination by (relation "measure (\<lambda>(rs, i, m). length rs - i)") auto

declare merge_loop.simps [simp del]

definition merge_ranges :: "piece_range list \<Rightarrow> piece_range list" where
  "merge_ranges rs = (let (rs', m) = merge_loop (sort_key (\<lambda>r. (pr_start r, pr_end r)) rs) 0 0 in take m rs')"

fun empty_buckets :: "nat \<Rightarrow> nat \<Rightarrow> nat \<Rightarrow> nat \<Rightarrow> piece_bucket list" where
  "empty_buckets 0 start bsize tot = []"
| "empty_buckets (Suc n) start bsize tot =
     (let en = exclusive_end start bsize tot
      in default_bucket\<lparr>b_start := start, b_end := en - 1, b_total := en - start\<rparr> # empty_buckets n en bsize tot)"

definition is_verified :: "u32 \<Rightarrow> bool" where
  "is_verified flags \<longleftrightarrow> and flags 1 \<noteq> 0"

definition is_receiving :: "u32 \<Rightarrow> bool" where
  "is_receiving flags \<longleftrightarrow> \<not> is_verified flags \<and> and flags 2 \<noteq> 0"

fun skip_ranges :: "piece_range list \<Rightarrow> nat \<Rightarrow> piece_range list" where
  "skip_ranges [] cursor = []"
| "skip_ranges (r # rs) cursor = (if pr_end r \<le> cursor then skip_ranges rs cursor else r # rs)"

definition add_counts :: "bool \<Rightarrow> bool \<Rightarrow> bool \<Rightarrow> nat \<Rightarrow> piece_bucket \<Rightarrow> piece_bucket" where
  "add_counts selected verified receiving n b =
     (let b = (if selected then b\<lparr>b_selected := b_selected b + n\<rparr> else b) in
      if verified then
        (let b = b\<lparr>b_verified := b_verified b + n\<rparr>
         in if selected then b\<lparr>b_selected_verified := b_selected_verified b + n\<rparr> else b)
      else if receiving then
        (let b = b\<lparr>b_receiving := b_receiving b + n\<rparr>
         in if selected then b\<lparr>b_selected_receiving := b_selected_receiving b + n\<rparr> else b)
      else b)"

text \<open>The sweep's position: cursor, current bucket and its end, ranges not yet passed, counted output.\<close>

record sweep =
  cursor :: nat
  bucket_index :: nat
  bucket_limit :: nat
  ranges_left :: "piece_range list"
  out_buckets :: "piece_bucket list"

text \<open>One round of the inner loop: the longest stretch that keeps bucket, selection and class.\<close>

definition sweep_step :: "nat \<Rightarrow> nat \<Rightarrow> nat \<Rightarrow> bool \<Rightarrow> bool \<Rightarrow> sweep \<Rightarrow> sweep option" where
  "sweep_step bsize tot run_end verified receiving s =
     (let c = cursor s;
          (bi, bl) = (if c = bucket_limit s then (Suc (bucket_index s), exclusive_end c bsize tot)
                      else (bucket_index s, bucket_limit s));
          left = skip_ranges (ranges_left s) c;
          (selected, selection_end) =
            (case left of
               [] \<Rightarrow> (False, tot)
             | r # _ \<Rightarrow> if c < pr_start r then (False, pr_start r) else (True, pr_end r));
          en = min (min run_end bl) selection_end;
          n = en - c
      in if en \<le> c then None
         else if (selected \<or> verified \<or> receiving) \<and> bi \<ge> length (out_buckets s) then None
         else Some \<lparr>cursor = en, bucket_index = bi, bucket_limit = bl, ranges_left = left,
                    out_buckets = (if selected \<or> verified \<or> receiving
                              then (out_buckets s)[bi := add_counts selected verified receiving n (out_buckets s ! bi)]
                              else out_buckets s)\<rparr>)"

lemma sweep_step_progress: "sweep_step bsize tot run_end v r s = Some s' \<Longrightarrow> cursor s < cursor s'"
  by (auto simp: sweep_step_def Let_def split: prod.splits if_splits)

function sweep_run :: "nat \<Rightarrow> nat \<Rightarrow> nat \<Rightarrow> bool \<Rightarrow> bool \<Rightarrow> sweep \<Rightarrow> sweep option" where
  "sweep_run bsize tot run_end verified receiving s =
     (if cursor s < run_end then
        (case sweep_step bsize tot run_end verified receiving s of
           None \<Rightarrow> None
         | Some s' \<Rightarrow> sweep_run bsize tot run_end verified receiving s')
      else Some s)"
  by pat_completeness auto
termination
  by (relation "measure (\<lambda>(bsize, tot, run_end, v, r, s). run_end - cursor s)")
    (auto dest: sweep_step_progress)

declare sweep_run.simps [simp del]

definition same_class :: "u32 \<Rightarrow> piece_run \<Rightarrow> bool" where
  "same_class flags r \<longleftrightarrow>
     is_verified (run_flags r) = is_verified flags \<and> is_receiving (run_flags r) = is_receiving flags"

function sweep_runs :: "nat \<Rightarrow> nat \<Rightarrow> piece_run list \<Rightarrow> sweep \<Rightarrow> sweep option" where
  "sweep_runs bsize tot [] s = Some s"
| "sweep_runs bsize tot (r # rs) s =
     (let flags = run_flags r;
          same = takeWhile (same_class flags) (r # rs);
          rest = dropWhile (same_class flags) (r # rs);
          run_end = cursor s + sum_list (map run_length same)
      in case sweep_run bsize tot run_end (is_verified flags) (is_receiving flags) s of
           None \<Rightarrow> None
         | Some s' \<Rightarrow> sweep_runs bsize tot rest s')"
  by pat_completeness auto
termination
  by (relation "measure (\<lambda>(bsize, tot, rs, s). length rs)")
    (auto simp: same_class_def less_Suc_eq_le intro: length_dropWhile_le)

definition aggregate :: "piece_run list \<Rightarrow> piece_range list \<Rightarrow> nat \<Rightarrow> nat \<Rightarrow> piece_bucket list
    \<Rightarrow> (nat \<times> piece_bucket list) option" where
  "aggregate runs ranges tot max_buckets out =
     (if \<not> (1 \<le> max_buckets \<and> max_buckets \<le> 1024) then None
      else if \<exists>r\<in>set runs. run_length r = 0 then None
      else if sum_list (map run_length runs) \<noteq> tot \<or>
              (\<exists>r\<in>set ranges. pr_start r > pr_end r \<or> pr_end r > tot) then None
      else if tot = 0 then Some (0, out)
      else
        let bsize = div_ceil tot max_buckets; count = div_ceil tot bsize in
        if length out < count then None
        else
          case sweep_runs bsize tot runs
                 \<lparr>cursor = 0, bucket_index = 0, bucket_limit = exclusive_end 0 bsize tot,
                  ranges_left = merge_ranges ranges,
                  out_buckets = empty_buckets count 0 bsize tot @ drop count out\<rparr> of
            None \<Rightarrow> None
          | Some s \<Rightarrow> Some (count, out_buckets s))"

definition aggregate_piece_buckets :: "piece_run list \<Rightarrow> piece_range list \<Rightarrow> nat \<Rightarrow> nat
    \<Rightarrow> storage_error + piece_bucket list" where
  "aggregate_piece_buckets runs ranges tot max_buckets =
     (if \<not> (1 \<le> max_buckets \<and> max_buckets \<le> 1024) then Inl (Other ''invalid max buckets'')
      else
        let count = (if tot = 0 then 1 else div_ceil tot (div_ceil tot max_buckets)) in
        case aggregate runs ranges tot max_buckets (replicate count default_bucket) of
          None \<Rightarrow> Inl (Other ''piece aggregation failed'')
        | Some (n, out) \<Rightarrow> Inr (take n out))"

section \<open>Packing lemmas\<close>

definition expand :: "piece_run list \<Rightarrow> u32 list" where
  "expand runs = concat (map (\<lambda>r. replicate (run_length r) (run_flags r)) runs)"

definition expand_states :: "bool \<Rightarrow> piece_state_run list \<Rightarrow> u32 list" where
  "expand_states playing sts = concat (map (\<lambda>st. replicate (ps_length st) (state_flags playing st)) sts)"

definition packed :: "piece_run list \<Rightarrow> bool" where
  "packed runs \<longleftrightarrow> distinct_adj (map run_flags runs) \<and> (\<forall>r\<in>set runs. 0 < run_length r)"

lemma expand_simps [simp]:
  "expand [] = []" "expand (r # runs) = replicate (run_length r) (run_flags r) @ expand runs"
  "expand (runs @ runs') = expand runs @ expand runs'"
  by (simp_all add: expand_def)

lemma length_expand: "length (expand runs) = sum_list (map run_length runs)"
  by (induction runs) simp_all

lemma expand_push: "expand (push_run runs n f) = expand runs @ replicate n f"
proof (cases "runs \<noteq> [] \<and> run_flags (last runs) = f")
  case True
  then obtain ys y where "runs = ys @ [y]" "run_flags y = f" by (metis append_butlast_last_id)
  then show ?thesis by (simp add: push_run_def replicate_add)
qed (auto simp: push_run_def)

lemma packed_push: "packed runs \<Longrightarrow> 0 < n \<Longrightarrow> packed (push_run runs n f)"
proof (cases runs rule: rev_cases)
  case (snoc ys y)
  assume "packed runs" "0 < n"
  then show ?thesis using snoc by (auto simp: packed_def push_run_def distinct_adj_append_iff)
qed (simp add: packed_def push_run_def)

lemma compress_loop_spec:
  assumes "sm \<le> tot" "sm \<le> u32_max" "packed runs"
  shows "case compress_loop sts tot playing sm runs of
      Inl e \<Rightarrow> e = Other ''invalid piece run'' \<and>
        \<not> ((\<forall>st\<in>set sts. 0 < ps_length st) \<and> sm + sum_list (map ps_length sts) \<le> min tot u32_max)
    | Inr (sm', runs') \<Rightarrow> (\<forall>st\<in>set sts. 0 < ps_length st) \<and> sm' = sm + sum_list (map ps_length sts) \<and>
        sm' \<le> min tot u32_max \<and> packed runs' \<and> expand runs' = expand runs @ expand_states playing sts"
  using assms
proof (induction sts arbitrary: sm runs)
  case (Cons st sts)
  show ?case
  proof (cases "ps_length st = 0 \<or> sm + ps_length st > u32_max \<or> sm + ps_length st > tot")
    case True
    then show ?thesis by auto
  next
    case False
    then show ?thesis
      using Cons.IH [of "sm + ps_length st" "push_run runs (ps_length st) (state_flags playing st)"]
        packed_push [OF Cons.prems(3)]
      by (simp add: expand_push expand_states_def split: sum.splits prod.splits) (auto simp: add.assoc)
  qed
qed (simp add: expand_states_def)

text \<open>
  C33: packing accepts exactly the state lists with positive lengths that add up to the piece count
  (at most \<open>u32::MAX\<close>); the runs it returns give every piece the flags of its state, are non-empty, and no
  two neighbours have the same flags.
\<close>

theorem compress_piece_runs_exact:
  "case compress_piece_runs states tot playing of
     Inl e \<Rightarrow> e = Other ''invalid piece run'' \<and>
       \<not> ((\<forall>st\<in>set states. 0 < ps_length st) \<and> sum_list (map ps_length states) = tot \<and> tot \<le> u32_max)
   | Inr runs \<Rightarrow> (\<forall>st\<in>set states. 0 < ps_length st) \<and> sum_list (map ps_length states) = tot \<and> tot \<le> u32_max \<and>
       packed runs \<and> expand runs = expand_states playing states"
  using compress_loop_spec [of 0 tot "[]" states playing]
  by (auto simp: compress_piece_runs_def packed_def split: sum.splits prod.splits)

theorem compress_piece_runs_exact_witness:
  "\<exists>runs. compress_piece_runs [\<lparr>ps_length = 2, ps_complete = True, ps_checking = False, ps_hashing = False,
      ps_partial = False, ps_priority = PNone\<rparr>, \<lparr>ps_length = 1, ps_complete = True, ps_checking = False,
      ps_hashing = False, ps_partial = True, ps_priority = PNow\<rparr>] 3 True = Inr runs \<and> expand runs = [1, 1, 1]"
proof -
  let ?sts = "[\<lparr>ps_length = 2, ps_complete = True, ps_checking = False, ps_hashing = False,
      ps_partial = False, ps_priority = PNone\<rparr>, \<lparr>ps_length = 1, ps_complete = True, ps_checking = False,
      ps_hashing = False, ps_partial = True, ps_priority = PNow\<rparr>]"
  have "expand_states True ?sts = [1, 1, 1]"
    by (simp add: expand_states_def state_flags_def eval_nat_numeral)
  then show ?thesis
    using compress_piece_runs_exact [of ?sts 3 True] by (simp split: sum.splits)
qed

section \<open>Merging the selected ranges\<close>

definition in_ranges :: "piece_range list \<Rightarrow> nat \<Rightarrow> bool" where
  "in_ranges rs p \<longleftrightarrow> (\<exists>r\<in>set rs. pr_start r \<le> p \<and> p < pr_end r)"

fun merge_acc :: "piece_range list \<Rightarrow> piece_range list \<Rightarrow> piece_range list" where
  "merge_acc acc [] = acc"
| "merge_acc acc (r # rs) =
     (if pr_start r = pr_end r then merge_acc acc rs
      else if acc \<noteq> [] \<and> pr_start r \<le> pr_end (last acc)
      then merge_acc (butlast acc @ [(last acc)\<lparr>pr_end := max (pr_end (last acc)) (pr_end r)\<rparr>]) rs
      else merge_acc (acc @ [r]) rs)"

lemma merge_loop_acc:
  "m \<le> i \<Longrightarrow> i \<le> length rs \<Longrightarrow>
   (case merge_loop rs i m of (rs', m') \<Rightarrow> take m' rs') = merge_acc (take m rs) (drop i rs)"
proof (induction rs i m rule: merge_loop.induct)
  case (1 rs i m)
  show ?case
  proof (cases "i < length rs")
    case True
    note d = Cons_nth_drop_Suc [OF True, symmetric]
    show ?thesis
    proof (cases "pr_start (rs ! i) = pr_end (rs ! i)")
      case True
      then show ?thesis using \<open>i < length rs\<close> "1.IH"(1) [OF \<open>i < length rs\<close> refl] "1.prems"
        by (subst merge_loop.simps) (simp add: d)
    next
      case False
      have nil: "rs \<noteq> []" using \<open>i < length rs\<close> by auto
      have ne: "(take m rs \<noteq> []) = (m > 0)" using "1.prems" \<open>i < length rs\<close> by auto
      have last: "m > 0 \<Longrightarrow> last (take m rs) = rs ! (m - Suc 0)"
        using "1.prems" \<open>i < length rs\<close> ne by (subst last_conv_nth) simp_all
      have upd: "m > 0 \<Longrightarrow> take m (rs[m - Suc 0 := x]) = butlast (take m rs) @ [x]" for x
        using "1.prems" \<open>i < length rs\<close>
        by (cases m) (simp_all add: take_Suc_conv_app_nth butlast_append take_update_swap butlast_take list_update_append)
      have psh: "take (Suc m) (rs[m := x]) = take m rs @ [x]" for x
        using "1.prems" \<open>i < length rs\<close> by (simp add: take_Suc_conv_app_nth)
      show ?thesis
      proof (cases "m > 0 \<and> pr_start (rs ! i) \<le> pr_end (rs ! (m - 1))")
        case True
        then show ?thesis
          using \<open>i < length rs\<close> False "1.IH"(2) [OF \<open>i < length rs\<close> refl False True] "1.prems"
          by (subst merge_loop.simps) (simp add: d nil ne last upd)
      next
        case not: False
        then show ?thesis
          using \<open>i < length rs\<close> False "1.IH"(3) [OF \<open>i < length rs\<close> refl False not] "1.prems"
          by (subst merge_loop.simps) (auto simp: d nil ne last psh)
      qed
    qed
  qed (simp add: merge_loop.simps)
qed

definition gapped :: "piece_range list \<Rightarrow> bool" where
  "gapped rs \<longleftrightarrow> sorted_wrt (\<lambda>a b. pr_end a < pr_start b) rs \<and> (\<forall>r\<in>set rs. pr_start r < pr_end r)"

lemma in_ranges_simps [simp]:
  "\<not> in_ranges [] p" "in_ranges (r # rs) p \<longleftrightarrow> pr_start r \<le> p \<and> p < pr_end r \<or> in_ranges rs p"
  "in_ranges (rs @ rs') p \<longleftrightarrow> in_ranges rs p \<or> in_ranges rs' p"
  by (auto simp: in_ranges_def)

lemma gapped_snoc:
  "gapped (rs @ [r]) \<longleftrightarrow> gapped rs \<and> pr_start r < pr_end r \<and> (\<forall>a\<in>set rs. pr_end a < pr_start r)"
  by (auto simp: gapped_def sorted_wrt_append)

lemma gapped_push:
  assumes "gapped rs" "pr_start r < pr_end r" "rs \<noteq> [] \<Longrightarrow> pr_end (last rs) < pr_start r"
  shows "gapped (rs @ [r])"
proof (cases rs rule: rev_cases)
  case (snoc ys y)
  have "pr_end a < pr_start r" if "a \<in> set ys" for a
  proof -
    have "pr_end a < pr_start y" "pr_start y < pr_end y" using assms(1) that by (auto simp: snoc gapped_snoc)
    moreover have "pr_end y < pr_start r" using assms(3) by (simp add: snoc)
    ultimately show ?thesis by linarith
  qed
  then show ?thesis using assms unfolding snoc gapped_snoc [of "ys @ [y]"] by auto
qed (use assms in \<open>simp add: gapped_def\<close>)

lemma merge_acc_spec:
  assumes "gapped acc" "sorted (map pr_start rs)" "\<forall>r\<in>set rs. pr_start r \<le> pr_end r"
    "acc \<noteq> [] \<Longrightarrow> \<forall>r\<in>set rs. pr_start (last acc) \<le> pr_start r"
  shows "gapped (merge_acc acc rs) \<and> (\<forall>p. in_ranges (merge_acc acc rs) p \<longleftrightarrow> in_ranges acc p \<or> in_ranges rs p)"
  using assms
proof (induction acc rs rule: merge_acc.induct)
  case (2 acc r rs)
  consider (empty) "pr_start r = pr_end r"
    | (join) "pr_start r < pr_end r" "acc \<noteq> []" "pr_start r \<le> pr_end (last acc)"
    | (push) "pr_start r < pr_end r" "acc \<noteq> [] \<Longrightarrow> pr_end (last acc) < pr_start r"
    using "2.prems"(3) by force
  then show ?case
  proof cases
    case empty
    then show ?thesis using "2.IH"(1) [OF empty] "2.prems" by auto
  next
    case join
    obtain ys y where acc: "acc = ys @ [y]" using join(2) by (cases acc rule: rev_cases) auto
    let ?y = "y\<lparr>pr_end := max (pr_end y) (pr_end r)\<rparr>"
    have g: "gapped (ys @ [?y])" using "2.prems"(1) by (auto simp: acc gapped_snoc)
    have y: "pr_start y \<le> pr_start r" "\<forall>q\<in>set rs. pr_start y \<le> pr_start q"
      using "2.prems"(4) by (auto simp: acc)
    have cover: "pr_start y \<le> p \<and> p < max (pr_end y) (pr_end r) \<longleftrightarrow>
        pr_start y \<le> p \<and> p < pr_end y \<or> pr_start r \<le> p \<and> p < pr_end r" for p
      using y(1) join by (auto simp: acc)
    have "gapped (merge_acc (ys @ [?y]) rs) \<and>
        (\<forall>p. in_ranges (merge_acc (ys @ [?y]) rs) p \<longleftrightarrow> in_ranges (ys @ [?y]) p \<or> in_ranges rs p)"
      using "2.IH"(2) join g y(2) "2.prems"(2,3) by (simp add: acc)
    then show ?thesis using join cover by (auto simp: acc)
  next
    case push
    have "gapped (acc @ [r])" using gapped_push [OF "2.prems"(1)] push by blast
    moreover have "\<not> (acc \<noteq> [] \<and> pr_start r \<le> pr_end (last acc))" using push(2) by force
    ultimately show ?thesis
      using "2.IH"(3) push(1) "2.prems"(2,3) by auto
  qed
qed simp

lemma merge_ranges_spec:
  assumes "\<forall>r\<in>set rs. pr_start r \<le> pr_end r"
  shows "gapped (merge_ranges rs)" and "in_ranges (merge_ranges rs) p \<longleftrightarrow> in_ranges rs p"
proof -
  let ?s = "sort_key (\<lambda>r. (pr_start r, pr_end r)) rs"
  have "merge_ranges rs = merge_acc [] ?s"
    using merge_loop_acc [of 0 0 ?s] by (simp add: merge_ranges_def split: prod.splits)
  moreover have "sorted (map pr_start ?s)"
    using sorted_sort_key [of "\<lambda>r. (pr_start r, pr_end r)" rs]
    by (auto simp: sorted_map elim!: sorted_wrt_mono_rel [rotated])
  moreover have "gapped []" by (simp add: gapped_def)
  ultimately have "gapped (merge_ranges rs) \<and> (\<forall>p. in_ranges (merge_ranges rs) p \<longleftrightarrow> in_ranges ?s p)"
    using merge_acc_spec [of "[]" ?s] assms by simp
  then show "gapped (merge_ranges rs)" "in_ranges (merge_ranges rs) p \<longleftrightarrow> in_ranges rs p"
    by (simp_all add: in_ranges_def)
qed

section \<open>The sweep\<close>

definition cnt :: "nat \<Rightarrow> (nat \<Rightarrow> bool) \<Rightarrow> nat \<Rightarrow> nat \<Rightarrow> nat" where
  "cnt bsize P b c = length (filter (\<lambda>p. p div bsize = b \<and> P p) [0..<c])"

definition bucket_at :: "nat \<Rightarrow> nat \<Rightarrow> (nat \<Rightarrow> bool) \<Rightarrow> (nat \<Rightarrow> bool) \<Rightarrow> (nat \<Rightarrow> bool) \<Rightarrow> nat \<Rightarrow> nat \<Rightarrow> piece_bucket" where
  "bucket_at bsize tot sel ver rec c b =
     \<lparr>b_start = b * bsize, b_end = min ((b + 1) * bsize) tot - 1, b_total = min ((b + 1) * bsize) tot - b * bsize,
      b_selected = cnt bsize sel b c, b_verified = cnt bsize ver b c, b_receiving = cnt bsize rec b c,
      b_selected_verified = cnt bsize (\<lambda>p. sel p \<and> ver p) b c,
      b_selected_receiving = cnt bsize (\<lambda>p. sel p \<and> rec p) b c\<rparr>"

lemma cnt_segment:
  assumes "c \<le> e" "\<And>p. c \<le> p \<Longrightarrow> p < e \<Longrightarrow> p div bsize = bi \<and> P p = v"
  shows "cnt bsize P b e = cnt bsize P b c + (if b = bi \<and> v then e - c else 0)"
proof -
  have "[0..<e] = [0..<c] @ [c..<e]" using assms(1) upt_add_eq_append [of 0 c "e - c"] by simp
  moreover have "filter (\<lambda>p. p div bsize = b \<and> P p) [c..<e] = filter (\<lambda>p. b = bi \<and> v) [c..<e]"
    using assms(2) by (intro filter_cong) auto
  ultimately show ?thesis by (simp add: cnt_def)
qed

lemma bucket_at_segment:
  assumes "c \<le> e" "\<not> (v \<and> r)"
    "\<And>p. c \<le> p \<Longrightarrow> p < e \<Longrightarrow> p div bsize = bi \<and> sel p = x \<and> ver p = v \<and> rec p = r"
  shows "bucket_at bsize tot sel ver rec e b =
    (if b = bi then add_counts x v r (e - c) (bucket_at bsize tot sel ver rec c b)
     else bucket_at bsize tot sel ver rec c b)"
proof -
  have "cnt bsize sel b e = cnt bsize sel b c + (if b = bi \<and> x then e - c else 0)"
    "cnt bsize ver b e = cnt bsize ver b c + (if b = bi \<and> v then e - c else 0)"
    "cnt bsize rec b e = cnt bsize rec b c + (if b = bi \<and> r then e - c else 0)"
    "cnt bsize (\<lambda>p. sel p \<and> ver p) b e = cnt bsize (\<lambda>p. sel p \<and> ver p) b c + (if b = bi \<and> x \<and> v then e - c else 0)"
    "cnt bsize (\<lambda>p. sel p \<and> rec p) b e = cnt bsize (\<lambda>p. sel p \<and> rec p) b c + (if b = bi \<and> x \<and> r then e - c else 0)"
    using assms by (intro cnt_segment; auto)+
  then show ?thesis using assms(2) by (auto simp: bucket_at_def add_counts_def)
qed

lemma add_counts_none: "add_counts False False False n b = b"
  by (simp add: add_counts_def)

lemma skip_ranges_spec:
  assumes "gapped rs"
  shows "gapped (skip_ranges rs c)" and "\<And>p. c \<le> p \<Longrightarrow> in_ranges (skip_ranges rs c) p \<longleftrightarrow> in_ranges rs p"
    and "\<And>r rest. skip_ranges rs c = r # rest \<Longrightarrow> c < pr_end r"
  using assms by (induction rs) (auto simp: gapped_def split: if_splits)

text \<open>The selection over the stretch the sweep looks at.\<close>

lemma selection_segment:
  assumes "gapped left" "\<forall>r rest. left = r # rest \<longrightarrow> c < pr_end r"
    "(x, en) = (case left of [] \<Rightarrow> (False, tot) | r # _ \<Rightarrow> if c < pr_start r then (False, pr_start r) else (True, pr_end r))"
  shows "c \<le> p \<Longrightarrow> p < en \<Longrightarrow> in_ranges left p = x" and "c < tot \<Longrightarrow> c < en"
proof -
  show "in_ranges left p = x" if "c \<le> p" "p < en"
  proof (cases left)
    case (Cons r rest)
    have "\<not> in_ranges rest p" if "p < pr_end r"
      using assms(1) that by (auto simp: Cons gapped_def in_ranges_def)
    moreover have "pr_start r < pr_end r" using assms(1) by (simp add: Cons gapped_def)
    ultimately show ?thesis using that assms(3) by (auto simp: Cons split: if_splits)
  qed (use assms(3) in simp)
  show "c < en" if "c < tot"
    using that assms(2,3) by (cases left) (auto split: if_splits)
qed

lemma exclusive_end_min: "tot \<le> u32_max \<Longrightarrow> exclusive_end start bsize tot = min (start + bsize) tot"
  by (auto simp: exclusive_end_def)

definition sweep_inv :: "nat \<Rightarrow> nat \<Rightarrow> (nat \<Rightarrow> bool) \<Rightarrow> (nat \<Rightarrow> bool) \<Rightarrow> (nat \<Rightarrow> bool) \<Rightarrow> piece_bucket list \<Rightarrow> sweep \<Rightarrow> bool" where
  "sweep_inv bsize tot sel ver rec extra s \<longleftrightarrow>
     cursor s \<le> tot \<and> bucket_index s * bsize \<le> cursor s \<and> cursor s \<le> bucket_limit s \<and>
     bucket_limit s = min ((bucket_index s + 1) * bsize) tot \<and>
     gapped (ranges_left s) \<and> (\<forall>p\<ge>cursor s. in_ranges (ranges_left s) p = sel p) \<and>
     out_buckets s = map (bucket_at bsize tot sel ver rec (cursor s)) [0..<div_ceil tot bsize] @ extra"

text \<open>The bucket the round works in, after stepping over a bucket boundary.\<close>

lemma sweep_bucket:
  assumes "sweep_inv bsize tot sel ver rec extra s" "0 < bsize" "tot \<le> u32_max" "cursor s < tot"
    "(bi, bl) = (if cursor s = bucket_limit s then (Suc (bucket_index s), exclusive_end (cursor s) bsize tot)
       else (bucket_index s, bucket_limit s))"
  shows "bi * bsize \<le> cursor s" "cursor s < bl" "bl = min ((bi + 1) * bsize) tot" "bi < div_ceil tot bsize"
proof -
  have i: "bucket_index s * bsize \<le> cursor s" "cursor s \<le> bucket_limit s"
    "bucket_limit s = min ((bucket_index s + 1) * bsize) tot"
    using assms(1) unfolding sweep_inv_def by blast+
  show b: "bi * bsize \<le> cursor s" "bl = min ((bi + 1) * bsize) tot"
    using assms(4,5) i exclusive_end_min [OF assms(3)] by (auto simp: min_def split: if_splits)
  show "cursor s < bl" using assms(2,4,5) i exclusive_end_min [OF assms(3)] by (auto split: if_splits)
  show "bi < div_ceil tot bsize" using b(1) assms(2,4) by (simp add: less_div_ceil_iff)
qed

lemma obtain_pair: obtains a b where "(a, b) = e"
  by (cases e) simp

lemma sweep_step_spec:
  assumes inv: "sweep_inv bsize tot sel ver rec extra s" and pos: "0 < bsize" and u: "tot \<le> u32_max"
    and c: "cursor s < run_end" "run_end \<le> tot" and vr: "\<not> (v \<and> r)"
    and cls: "\<And>p. cursor s \<le> p \<Longrightarrow> p < run_end \<Longrightarrow> ver p = v \<and> rec p = r"
  shows "\<exists>s'. sweep_step bsize tot run_end v r s = Some s' \<and> sweep_inv bsize tot sel ver rec extra s' \<and> cursor s' \<le> run_end"
proof -
  let ?c = "cursor s" and ?left = "skip_ranges (ranges_left s) (cursor s)"
  obtain bi bl where b: "(bi, bl) = (if ?c = bucket_limit s then (Suc (bucket_index s), exclusive_end ?c bsize tot)
      else (bucket_index s, bucket_limit s))" by (rule obtain_pair)
  obtain x se where x: "(x, se) = (case ?left of [] \<Rightarrow> (False, tot)
      | r # _ \<Rightarrow> if ?c < pr_start r then (False, pr_start r) else (True, pr_end r))" by (rule obtain_pair)
  define e where "e = min (min run_end bl) se"
  have ct: "?c < tot" using c by simp
  note bk = sweep_bucket [OF inv pos u ct b]
  have g: "gapped (ranges_left s)" using inv by (simp add: sweep_inv_def)
  note sk = skip_ranges_spec [OF g, where c = "cursor s"]
  have sk3: "\<forall>r rest. ?left = r # rest \<longrightarrow> ?c < pr_end r" using sk(3) by blast
  note sl = selection_segment [OF sk(1) sk3 x]
  have e: "?c < e" "e \<le> run_end" "e \<le> bl" "e \<le> se" using c bk(2) sl(2) [OF ct] by (auto simp: e_def)
  have seg: "p div bsize = bi \<and> sel p = x \<and> ver p = v \<and> rec p = r" if "?c \<le> p" "p < e" for p
  proof -
    have "p div bsize = bi" using that bk(1,3) e(3) pos by (intro div_nat_eqI) (auto simp: mult.commute)
    moreover have "sel p = x"
      using sl(1) [of p] sk(2) [of p] inv that e(4) by (simp add: sweep_inv_def)
    ultimately show ?thesis using cls [of p] that e(2) by simp
  qed
  let ?out = "if x \<or> v \<or> r then (out_buckets s)[bi := add_counts x v r (e - ?c) (out_buckets s ! bi)] else out_buckets s"
  have out: "out_buckets s = map (bucket_at bsize tot sel ver rec ?c) [0..<div_ceil tot bsize] @ extra"
    using inv by (simp add: sweep_inv_def)
  have nxt: "bucket_at bsize tot sel ver rec e b' = (if b' = bi then add_counts x v r (e - ?c) (bucket_at bsize tot sel ver rec ?c b')
      else bucket_at bsize tot sel ver rec ?c b')" for b'
    using e(1) seg by (intro bucket_at_segment [OF _ vr]) auto
  have upd: "(map (bucket_at bsize tot sel ver rec ?c) [0..<div_ceil tot bsize])
      [bi := add_counts x v r (e - ?c) (bucket_at bsize tot sel ver rec ?c bi)] =
      map (bucket_at bsize tot sel ver rec e) [0..<div_ceil tot bsize]"
    by (rule nth_equalityI) (simp_all add: nxt nth_list_update)
  have same: "map (bucket_at bsize tot sel ver rec e) [0..<div_ceil tot bsize] =
      map (bucket_at bsize tot sel ver rec ?c) [0..<div_ceil tot bsize]" if "\<not> (x \<or> v \<or> r)"
    using that by (intro map_cong refl) (simp add: nxt add_counts_none)
  have new: "?out = map (bucket_at bsize tot sel ver rec e) [0..<div_ceil tot bsize] @ extra"
    using upd same bk(4) by (simp add: out list_update_append nth_append)
  define s' where "s' = \<lparr>cursor = e, bucket_index = bi, bucket_limit = bl, ranges_left = ?left, out_buckets = ?out\<rparr>"
  have "bi < length (out_buckets s)" using bk(4) by (simp add: out)
  then have "sweep_step bsize tot run_end v r s = Some s'"
    using e(1) unfolding sweep_step_def Let_def b [symmetric] x [symmetric] prod.case e_def [symmetric] s'_def
    by simp
  moreover have "sweep_inv bsize tot sel ver rec extra s'"
    unfolding sweep_inv_def s'_def sweep.simps new
  proof (intro conjI)
    show "\<forall>p\<ge>e. in_ranges ?left p = sel p"
      using inv sk(2) e(1) by (simp add: sweep_inv_def)
  qed (use e bk sk(1) c(2) in simp_all)
  ultimately show ?thesis using e(2) by (auto simp: s'_def)
qed

lemma sweep_run_spec:
  assumes "sweep_inv bsize tot sel ver rec extra s" "0 < bsize" "tot \<le> u32_max"
    "cursor s \<le> run_end" "run_end \<le> tot" "\<not> (v \<and> r)"
    "\<And>p. cursor s \<le> p \<Longrightarrow> p < run_end \<Longrightarrow> ver p = v \<and> rec p = r"
  shows "\<exists>s'. sweep_run bsize tot run_end v r s = Some s' \<and> sweep_inv bsize tot sel ver rec extra s' \<and> cursor s' = run_end"
  using assms
proof (induction bsize tot run_end v r s rule: sweep_run.induct)
  case (1 bsize tot run_end v r s)
  show ?case
  proof (cases "cursor s < run_end")
    case True
    then obtain s1 where s1: "sweep_step bsize tot run_end v r s = Some s1"
      "sweep_inv bsize tot sel ver rec extra s1" "cursor s1 \<le> run_end"
      using sweep_step_spec [OF "1.prems"(1-3) True "1.prems"(5,6)] "1.prems"(7) by blast
    have "\<exists>s'. sweep_run bsize tot run_end v r s1 = Some s' \<and> sweep_inv bsize tot sel ver rec extra s' \<and> cursor s' = run_end"
      using "1.IH" [OF True s1(1,2)] "1.prems" s1(3) sweep_step_progress [OF s1(1)] by simp
    then show ?thesis using True s1(1) by (subst sweep_run.simps) simp
  next
    case False
    then show ?thesis using "1.prems" by (subst sweep_run.simps) auto
  qed
qed

text \<open>All runs: \<open>F\<close> holds the flags of every piece.\<close>

lemma expand_class:
  assumes "\<forall>r\<in>set runs. same_class f r" "p < length (expand runs)"
  shows "is_verified (expand runs ! p) = is_verified f \<and> is_receiving (expand runs ! p) = is_receiving f"
proof -
  have "\<forall>x\<in>set (expand runs). is_verified x = is_verified f \<and> is_receiving x = is_receiving f"
    using assms(1) by (auto simp: expand_def same_class_def)
  then show ?thesis using assms(2) nth_mem by blast
qed

lemma sweep_runs_spec:
  assumes "sweep_inv bsize tot sel (\<lambda>p. is_verified (F ! p)) (\<lambda>p. is_receiving (F ! p)) extra s"
    "0 < bsize" "tot \<le> u32_max" "drop (cursor s) F = expand runs" "length F = tot"
  shows "\<exists>s'. sweep_runs bsize tot runs s = Some s' \<and> cursor s' = tot \<and>
    sweep_inv bsize tot sel (\<lambda>p. is_verified (F ! p)) (\<lambda>p. is_receiving (F ! p)) extra s'"
  using assms(1,4)
proof (induction "length runs" arbitrary: runs s rule: less_induct)
  case less
  have cle: "cursor s \<le> tot" using less.prems(1) by (simp add: sweep_inv_def)
  show ?case
  proof (cases runs)
    case Nil
    then have "cursor s = tot" using less.prems(2) assms(5) cle by simp
    with Nil less.prems show ?thesis by simp
  next
    case (Cons r rs)
    let ?f = "run_flags r"
    define same where "same = takeWhile (same_class ?f) (r # rs)"
    define rest where "rest = dropWhile (same_class ?f) (r # rs)"
    let ?e = "cursor s + length (expand same)"
    have "r # rs = same @ rest" by (simp add: same_def rest_def)
    then have F: "drop (cursor s) F = expand same @ expand rest"
      using less.prems(2) expand_simps(3) by (metis Cons)
    have e: "?e \<le> tot" using arg_cong [OF F, of length] assms(5) cle by simp
    have all: "\<forall>q\<in>set same. same_class ?f q" unfolding same_def by (auto dest: set_takeWhileD)
    have cls: "is_verified (F ! p) = is_verified ?f \<and> is_receiving (F ! p) = is_receiving ?f"
      if "cursor s \<le> p" "p < ?e" for p
    proof -
      have d: "p - cursor s < length (expand same)" using that by linarith
      have "F ! p = drop (cursor s) F ! (p - cursor s)" using that(1) assms(5) cle by simp
      also have "\<dots> = expand same ! (p - cursor s)" using d unfolding F by (simp add: nth_append)
      finally show ?thesis using expand_class [OF all d] by simp
    qed
    have vr: "\<not> (is_verified ?f \<and> is_receiving ?f)" by (simp add: is_receiving_def)
    have "cursor s \<le> ?e" by simp
    from sweep_run_spec [OF less.prems(1) assms(2,3) this e vr] cls obtain s1 where
      s1: "sweep_run bsize tot ?e (is_verified ?f) (is_receiving ?f) s = Some s1"
      "sweep_inv bsize tot sel (\<lambda>p. is_verified (F ! p)) (\<lambda>p. is_receiving (F ! p)) extra s1" "cursor s1 = ?e"
      by blast
    have "drop ?e F = drop (length (expand same)) (drop (cursor s) F)" by (simp add: add.commute)
    then have d: "drop (cursor s1) F = expand rest" by (simp add: F s1(3))
    have "length rest < length runs"
      using length_dropWhile_le [of "same_class ?f" rs] by (simp add: Cons rest_def same_class_def)
    from less.hyps [OF this s1(2) d]
    have "\<exists>s'. sweep_runs bsize tot rest s1 = Some s' \<and> cursor s' = tot \<and>
      sweep_inv bsize tot sel (\<lambda>p. is_verified (F ! p)) (\<lambda>p. is_receiving (F ! p)) extra s'" .
    moreover have "sweep_runs bsize tot runs s = sweep_runs bsize tot rest s1"
      using s1(1) unfolding Cons sweep_runs.simps(2) Let_def same_def [symmetric] rest_def [symmetric] length_expand
      by simp
    ultimately show ?thesis by simp
  qed
qed

lemma empty_buckets_at:
  assumes "tot \<le> u32_max" "n = 0 \<or> (k + n - 1) * bsize < tot"
  shows "empty_buckets n (k * bsize) bsize tot = map (bucket_at bsize tot sel ver rec 0) [k..<k + n]"
  using assms(2)
proof (induction n arbitrary: k)
  case (Suc n)
  have en: "exclusive_end (k * bsize) bsize tot = min ((k + 1) * bsize) tot"
    using exclusive_end_min [OF assms(1)] by (simp add: add.commute)
  have "bucket_at bsize tot sel ver rec 0 k =
      default_bucket\<lparr>b_start := k * bsize, b_end := min ((k + 1) * bsize) tot - 1, b_total := min ((k + 1) * bsize) tot - k * bsize\<rparr>"
    by (simp add: bucket_at_def default_bucket_def cnt_def)
  moreover have "empty_buckets n (min ((k + 1) * bsize) tot) bsize tot = map (bucket_at bsize tot sel ver rec 0) [k + 1..<k + 1 + n]"
  proof (cases n)
    case (Suc m)
    then have "(k + 1 + m) * bsize < tot" using Suc.prems by simp
    moreover have "(k + 1) * bsize \<le> (k + 1 + m) * bsize" by (intro mult_le_mono1) simp
    ultimately have "min ((k + 1) * bsize) tot = (k + 1) * bsize" by linarith
    then show ?thesis using Suc.IH [of "k + 1"] \<open>(k + 1 + m) * bsize < tot\<close> Suc by simp
  qed simp
  ultimately show ?case by (simp add: en Let_def upt_conv_Cons del: upt_Suc)
qed simp

definition bucket_spec :: "piece_run list \<Rightarrow> piece_range list \<Rightarrow> nat \<Rightarrow> nat \<Rightarrow> nat \<Rightarrow> piece_bucket" where
  "bucket_spec runs ranges bsize tot b =
     (let here = {p. p < tot \<and> p div bsize = b};
          sel = {p. in_ranges ranges p};
          ver = {p. is_verified (expand runs ! p)};
          rec = {p. is_receiving (expand runs ! p)}
      in \<lparr>b_start = b * bsize, b_end = min ((b + 1) * bsize) tot - 1, b_total = min ((b + 1) * bsize) tot - b * bsize,
          b_selected = card (here \<inter> sel), b_verified = card (here \<inter> ver), b_receiving = card (here \<inter> rec),
          b_selected_verified = card (here \<inter> sel \<inter> ver), b_selected_receiving = card (here \<inter> sel \<inter> rec)\<rparr>)"

lemma cnt_card: "cnt bsize P b tot = card {p. p < tot \<and> p div bsize = b \<and> P p}"
proof -
  have "cnt bsize P b tot = card (set (filter (\<lambda>p. p div bsize = b \<and> P p) [0..<tot]))"
    unfolding cnt_def by (rule distinct_card [symmetric]) simp
  also have "set (filter (\<lambda>p. p div bsize = b \<and> P p) [0..<tot]) = {p. p < tot \<and> p div bsize = b \<and> P p}" by auto
  finally show ?thesis .
qed

lemma bucket_at_spec:
  "bucket_at bsize tot (in_ranges ranges) (\<lambda>p. is_verified (expand runs ! p)) (\<lambda>p. is_receiving (expand runs ! p)) tot b =
   bucket_spec runs ranges bsize tot b"
  by (simp only: bucket_at_def bucket_spec_def Let_def cnt_card Collect_conj_eq Int_assoc)

definition valid_input :: "piece_run list \<Rightarrow> piece_range list \<Rightarrow> nat \<Rightarrow> bool" where
  "valid_input runs ranges tot \<longleftrightarrow> (\<forall>r\<in>set runs. 0 < run_length r) \<and> sum_list (map run_length runs) = tot \<and>
     (\<forall>r\<in>set ranges. pr_start r \<le> pr_end r \<and> pr_end r \<le> tot)"

lemma aggregate_valid:
  assumes "valid_input runs ranges tot" "0 < tot" "tot \<le> u32_max" "1 \<le> mb" "mb \<le> 1024"
  defines "bsize \<equiv> div_ceil tot mb"
  assumes "div_ceil tot bsize \<le> length out"
  shows "\<exists>rest. aggregate runs ranges tot mb out =
    Some (div_ceil tot bsize, map (bucket_spec runs ranges bsize tot) [0..<div_ceil tot bsize] @ rest)"
proof -
  let ?sel = "in_ranges ranges" and ?ver = "\<lambda>p. is_verified (expand runs ! p)" and ?rec = "\<lambda>p. is_receiving (expand runs ! p)"
  let ?count = "div_ceil tot bsize"
  have pos: "0 < bsize" using assms(2,4) by (simp add: bsize_def div_ceil_pos)
  have cpos: "0 < ?count" using pos assms(2) by (simp add: div_ceil_pos)
  have "(?count - 1) * bsize < tot" using div_ceil_upper [OF pos assms(2)] .
  then have eb: "empty_buckets ?count 0 bsize tot = map (bucket_at bsize tot ?sel ?ver ?rec 0) [0..<?count]"
    using empty_buckets_at [OF assms(3), of ?count 0 bsize] cpos by simp
  let ?s0 = "\<lparr>cursor = 0, bucket_index = 0, bucket_limit = exclusive_end 0 bsize tot,
      ranges_left = merge_ranges ranges, out_buckets = empty_buckets ?count 0 bsize tot @ drop ?count out\<rparr>"
  have "\<forall>r\<in>set ranges. pr_start r \<le> pr_end r" using assms(1) by (simp add: valid_input_def)
  note mr = merge_ranges_spec [OF this]
  have inv: "sweep_inv bsize tot ?sel ?ver ?rec (drop ?count out) ?s0"
    by (simp add: sweep_inv_def mr eb exclusive_end_min [OF assms(3)])
  have len: "length (expand runs) = tot" using assms(1) by (simp add: valid_input_def length_expand)
  obtain s where s: "sweep_runs bsize tot runs ?s0 = Some s" "cursor s = tot"
    "sweep_inv bsize tot ?sel ?ver ?rec (drop ?count out) s"
    using sweep_runs_spec [OF inv pos assms(3) _ len] by auto
  have "out_buckets s = map (bucket_spec runs ranges bsize tot) [0..<?count] @ drop ?count out"
    using s(2,3) by (simp add: sweep_inv_def bucket_at_spec)
  moreover have "aggregate runs ranges tot mb out = Some (?count, out_buckets s)"
    using assms(1,2,4,5) assms(7) s(1)
    by (auto simp: aggregate_def valid_input_def bsize_def Let_def)
  ultimately show ?thesis by auto
qed

lemma aggregate_invalid: "\<not> valid_input runs ranges tot \<Longrightarrow> aggregate runs ranges tot mb out = None"
  by (auto simp: aggregate_def valid_input_def not_le)

text \<open>
  C14: the bucket sweep is exact. On runs and ranges that fit the torrent (positive runs that add up to the
  piece count, ranges within it, in any order and overlapping), it returns at most \<open>max_buckets\<close> buckets of
  consecutive pieces whose counts are the number of pieces of the bucket that are selected, verified,
  receiving, and selected in either state; on any other input it reports an error.
\<close>

theorem aggregate_counts_exact:
  assumes "tot \<le> u32_max"
  shows "aggregate_piece_buckets runs ranges tot mb =
      (if mb < 1 \<or> 1024 < mb then Inl (Other ''invalid max buckets'')
       else if \<not> valid_input runs ranges tot then Inl (Other ''piece aggregation failed'')
       else Inr (map (bucket_spec runs ranges (div_ceil tot mb) tot) [0..<div_ceil tot (div_ceil tot mb)])) \<and>
    (case aggregate_piece_buckets runs ranges tot mb of Inl e \<Rightarrow> True | Inr bs \<Rightarrow> length bs \<le> mb)"
    (is "?agg = ?spec \<and> _")
proof -
  have eq: "?agg = ?spec"
  proof (cases "1 \<le> mb \<and> mb \<le> 1024 \<and> valid_input runs ranges tot")
    case True
    show ?thesis
    proof (cases "tot = 0")
      case True
      then show ?thesis using \<open>_ \<and> _\<close>
        by (auto simp: aggregate_piece_buckets_def aggregate_def valid_input_def div_ceil_def)
    next
      case False
      then show ?thesis
        using True assms aggregate_valid [of runs ranges tot mb "replicate (div_ceil tot (div_ceil tot mb)) default_bucket"]
        by (auto simp: aggregate_piece_buckets_def Let_def)
    qed
  qed (auto simp: aggregate_piece_buckets_def Let_def aggregate_invalid)
  have "div_ceil tot (div_ceil tot mb) \<le> mb" if "1 \<le> mb"
  proof (cases "tot = 0")
    case False
    have "0 < div_ceil tot mb" using that False by (simp add: div_ceil_pos)
    then have "mb < div_ceil tot (div_ceil tot mb) \<longleftrightarrow> mb * div_ceil tot mb < tot" by (rule less_div_ceil_iff)
    moreover have "tot \<le> div_ceil tot mb * mb" using that by (simp add: div_ceil_lower)
    ultimately show ?thesis by (simp add: mult.commute)
  qed (use that in \<open>simp add: div_ceil_def\<close>)
  then show ?thesis using eq by auto
qed

theorem aggregate_counts_exact_witness:
  "aggregate_piece_buckets [\<lparr>run_length = 3, run_flags = 1\<rparr>, \<lparr>run_length = 2, run_flags = 2\<rparr>]
     [\<lparr>pr_start = 2, pr_end = 4\<rparr>] 5 2 =
   Inr (map (bucket_spec [\<lparr>run_length = 3, run_flags = 1\<rparr>, \<lparr>run_length = 2, run_flags = 2\<rparr>]
     [\<lparr>pr_start = 2, pr_end = 4\<rparr>] 3 5) [0, 1])"
proof -
  have "[0..<2] = [0, 1 :: nat]" by (simp add: numeral_2_eq_2)
  then show ?thesis
    using aggregate_counts_exact [of 5 "[\<lparr>run_length = 3, run_flags = 1\<rparr>, \<lparr>run_length = 2, run_flags = 2\<rparr>]"
        "[\<lparr>pr_start = 2, pr_end = 4\<rparr>]" 2]
    by (simp add: valid_input_def div_ceil_def)
qed

end
