(* ===== verification/Merkle.thy ===== *)
theory Merkle
  imports Metainfo
begin

text \<open>
  Version 2 hash trees (\<^verbatim>\<open>wt-meta/src/merkle.rs\<close>): the root of a layer, the incremental hasher over 16 KiB
  leaf blocks, and the check of a torrent's piece layers. The SHA-256 digest is the parameter \<open>h\<close>; a
  running digest is the bytes it has been fed. \<open>dbg\<close> and \<open>dbgh\<close> stand for the \<open>Debug\<close> text of a path and
  of a hash in error messages.
\<close>

section \<open>Model\<close>

definition LEAF :: nat where
  "LEAF = 16384"

definition zero_hash :: bytes where
  "zero_hash = replicate 32 0"

fun bit_len :: "nat \<Rightarrow> nat" where
  "bit_len n = (if n = 0 then 0 else Suc (bit_len (n div 2)))"

declare bit_len.simps [simp del]

definition leading_zeros :: "nat \<Rightarrow> nat" where
  "leading_zeros n = 64 - bit_len n"

definition round_up_to_power_of_two :: "nat \<Rightarrow> nat" where
  "round_up_to_power_of_two n = (if n \<le> 1 then n else 2 ^ (64 - leading_zeros (n - 1)))"

fun pair_up :: "(bytes \<Rightarrow> bytes) \<Rightarrow> bytes list \<Rightarrow> bytes list" where
  "pair_up h (a # b # hs) = h (a @ b) # pair_up h hs"
| "pair_up h _ = []"

lemma pair_up_length [termination_simp]: "length (pair_up h hs) = length hs div 2"
  by (induction h hs rule: pair_up.induct) simp_all

function root :: "(bytes \<Rightarrow> bytes) \<Rightarrow> bytes list \<Rightarrow> bytes meta_result" where
  "root h hashes =
     (if length hashes = 0 then Inr (h [])
      else if length hashes = 1 then Inr (hashes ! 0)
      else if length hashes \<noteq> round_up_to_power_of_two (length hashes)
      then Inl (MerkleError (''expected power of two number of hashes, got '' @ show_nat (length hashes)))
      else root h (pair_up h hashes))"
  by pat_completeness auto
termination by (relation "measure (\<lambda>(h, hashes). length hashes)") (auto simp: pair_up_length)

declare root.simps [simp del]

definition root_with_pad_hash :: "(bytes \<Rightarrow> bytes) \<Rightarrow> bytes list \<Rightarrow> bytes \<Rightarrow> bytes meta_result" where
  "root_with_pad_hash h hashes pad =
     (if hashes = [] then root h []
      else
        let target = round_up_to_power_of_two (length hashes) in
        if length hashes = target then root h hashes
        else root h (hashes @ replicate (target - length hashes) pad))"

fun chunks32 :: "bytes \<Rightarrow> bytes list" where
  "chunks32 xs = (if length xs < 32 then [] else take 32 xs # chunks32 (drop 32 xs))"

declare chunks32.simps [simp del]

definition compact_layer_to_slice_hashes :: "bytes \<Rightarrow> bytes list meta_result" where
  "compact_layer_to_slice_hashes compact =
     (if length compact mod 32 \<noteq> 0
      then Inl (MerkleError (''compact layer length '' @ show_nat (length compact) @ '' is not a multiple of 32''))
      else Inr (chunks32 compact))"

record merkle_hash =
  blocks :: "bytes list"
  next_block :: bytes
  next_written :: nat

definition new_hash :: merkle_hash where
  "new_hash = \<lparr>blocks = [], next_block = [], next_written = 0\<rparr>"

definition remaining :: "merkle_hash \<Rightarrow> nat" where
  "remaining s = LEAF - next_written s"

function hash_write :: "(bytes \<Rightarrow> bytes) \<Rightarrow> merkle_hash \<Rightarrow> bytes \<Rightarrow> merkle_hash" where
  "hash_write h s p =
     (if p = [] then s
      else
        let n = min (length p) (remaining s);
            s1 = s\<lparr>next_block := next_block s @ take n p, next_written := next_written s + n\<rparr>;
            s2 = (if remaining s1 = 0
                  then s1\<lparr>blocks := blocks s1 @ [h (next_block s1)], next_block := [], next_written := 0\<rparr>
                  else s1)
        in hash_write h s2 (drop n p))"
  by pat_completeness auto
termination
  by (relation "measure (\<lambda>(h, s, p). 2 * length p + (if remaining s = 0 then 1 else 0))")
    (auto simp: remaining_def LEAF_def Let_def split: if_splits)

declare hash_write.simps [simp del]

definition cur_blocks :: "(bytes \<Rightarrow> bytes) \<Rightarrow> merkle_hash \<Rightarrow> bytes list" where
  "cur_blocks h s = (if next_written s \<noteq> 0 then blocks s @ [h (next_block s)] else blocks s)"

text \<open>\<open>None\<close> is the panic of \<open>expect\<close>.\<close>

definition unwrap_root :: "bytes meta_result \<Rightarrow> bytes option" where
  "unwrap_root r = (case r of Inl e \<Rightarrow> None | Inr x \<Rightarrow> Some x)"

definition hash_sum :: "(bytes \<Rightarrow> bytes) \<Rightarrow> merkle_hash \<Rightarrow> bytes option" where
  "hash_sum h s = unwrap_root (root_with_pad_hash h (cur_blocks h s) zero_hash)"

definition sum_min_length :: "(bytes \<Rightarrow> bytes) \<Rightarrow> merkle_hash \<Rightarrow> nat \<Rightarrow> bytes option" where
  "sum_min_length h s len =
     (let bs = cur_blocks h s; min_blocks = div_ceil len LEAF
      in unwrap_root (root_with_pad_hash h (bs @ replicate (min_blocks - length bs) zero_hash) zero_hash))"

definition reset_hash :: "merkle_hash \<Rightarrow> merkle_hash" where
  "reset_hash s = s\<lparr>blocks := [], next_block := [], next_written := 0\<rparr>"

definition hash_for_piece_pad :: "(bytes \<Rightarrow> bytes) \<Rightarrow> int \<Rightarrow> bytes" where
  "hash_for_piece_pad h piece_len =
     (case root h (replicate (nat (max (div_i64 piece_len (int LEAF)) 0)) zero_hash) of
        Inl e \<Rightarrow> zero_hash | Inr x \<Rightarrow> x)"

fun validate_files :: "(bytes \<Rightarrow> bytes) \<Rightarrow> (bytes list \<Rightarrow> string) \<Rightarrow> (bytes \<Rightarrow> string) \<Rightarrow> (bytes \<Rightarrow> bytes option)
    \<Rightarrow> file_info list \<Rightarrow> int \<Rightarrow> unit meta_result" where
  "validate_files h dbg dbgh layer_map [] pl = Inr ()"
| "validate_files h dbg dbgh layer_map (fi # fis) pl =
     (if is_padding fi then validate_files h dbg dbgh layer_map fis pl
      else case pieces_root fi of
        None \<Rightarrow> validate_files h dbg dbgh layer_map fis pl
      | Some rt \<Rightarrow>
          (case layer_map rt of
             None \<Rightarrow>
               if flength fi > pl then Inl (MerkleError (''no piece layers for file '' @ dbg (path fi)))
               else validate_files h dbg dbgh layer_map fis pl
           | Some compact \<Rightarrow>
               (case compact_layer_to_slice_hashes compact of
                  Inl e \<Rightarrow> Inl e
                | Inr layer \<Rightarrow>
                    (case root_with_pad_hash h layer (hash_for_piece_pad h pl) of
                       Inl e \<Rightarrow> Inl e
                     | Inr computed \<Rightarrow>
                         if computed \<noteq> rt
                         then Inl (MerkleError (''file '' @ dbg (path fi) @ '': expected hash '' @ dbgh rt @ '' got '' @ dbgh computed))
                         else validate_files h dbg dbgh layer_map fis pl))))"

definition validate_piece_layers :: "(bytes \<Rightarrow> bytes) \<Rightarrow> (bytes list \<Rightarrow> string) \<Rightarrow> (bytes \<Rightarrow> string)
    \<Rightarrow> (bytes \<times> bytes) list \<Rightarrow> file_info list \<Rightarrow> int \<Rightarrow> unit meta_result" where
  "validate_piece_layers h dbg dbgh layers fis pl = validate_files h dbg dbgh (map_of (rev layers)) fis pl"

definition validate_metainfo_piece_layers :: "(bytes \<Rightarrow> bytes) \<Rightarrow> (bytes list \<Rightarrow> string) \<Rightarrow> (bytes \<Rightarrow> string)
    \<Rightarrow> meta_info \<Rightarrow> info \<Rightarrow> unit meta_result" where
  "validate_metainfo_piece_layers h dbg dbgh mi i =
     (if \<not> has_v2 i then Inr ()
      else validate_piece_layers h dbg dbgh (piece_layers mi) (files i) (piece_length i))"

section \<open>Powers of two\<close>

lemma bit_len_bounds: "n < 2 ^ bit_len n" "0 < n \<Longrightarrow> 2 ^ (bit_len n - 1) \<le> n"
proof -
  show "n < 2 ^ bit_len n"
    by (induction n rule: bit_len.induct) (subst bit_len.simps, auto)
  show "2 ^ (bit_len n - 1) \<le> n" if "0 < n"
    using that
  proof (induction n rule: bit_len.induct)
    case (1 n)
    show ?case
    proof (cases "n div 2 = 0")
      case True
      then have "n = 1" using 1(2) by linarith
      then show ?thesis by (simp add: bit_len.simps)
    next
      case False
      then have "2 ^ (bit_len (n div 2) - 1) \<le> n div 2" "0 < bit_len (n div 2)"
        using 1 by (auto simp: bit_len.simps [of "n div 2"])
      then have "2 ^ bit_len (n div 2) \<le> n" by (cases "bit_len (n div 2)") auto
      then show ?thesis using 1(2) by (subst bit_len.simps) simp
    qed
  qed
qed

lemma bit_len_le: "n < 2 ^ k \<Longrightarrow> bit_len n \<le> k"
proof (cases "n = 0")
  case False
  assume "n < 2 ^ k"
  with bit_len_bounds(2) [of n] False have "(2 :: nat) ^ (bit_len n - 1) < 2 ^ k" by linarith
  then have "bit_len n - 1 < k" by simp
  then show ?thesis by simp
qed (simp add: bit_len.simps)

lemma bit_len_eq: "2 ^ k \<le> n \<Longrightarrow> n < 2 ^ Suc k \<Longrightarrow> bit_len n = Suc k"
proof -
  assume a: "2 ^ k \<le> n" "n < 2 ^ Suc k"
  have "(2 :: nat) ^ k < 2 ^ bit_len n" using a(1) bit_len_bounds(1) [of n] by linarith
  then have "k < bit_len n" by simp
  with bit_len_le [OF a(2)] show ?thesis by simp
qed

text \<open>Lengths of vectors stay below \<open>2 ^ 63\<close>.\<close>

lemma round_up_eq: "2 \<le> n \<Longrightarrow> n \<le> 2 ^ 63 \<Longrightarrow> round_up_to_power_of_two n = 2 ^ bit_len (n - 1)"
  using bit_len_le [of "n - 1" 64] by (simp add: round_up_to_power_of_two_def leading_zeros_def)

lemma round_up_unique:
  assumes "n \<le> 2 ^ d" "2 ^ d < 2 * n" "n \<le> 2 ^ 63"
  shows "round_up_to_power_of_two n = 2 ^ d"
proof (cases d)
  case 0
  then show ?thesis using assms by (simp add: round_up_to_power_of_two_def)
next
  case (Suc k)
  then have "2 ^ k \<le> n - 1" "n - 1 < 2 ^ Suc k" "2 \<le> n" using assms by (cases "2 ^ k :: nat"; simp)+
  then show ?thesis using round_up_eq [of n] bit_len_eq [of k "n - 1"] assms(3) Suc by simp
qed

lemma round_up_power:
  assumes "0 < n" "n \<le> 2 ^ 63"
  obtains d where "round_up_to_power_of_two n = 2 ^ d" "n \<le> 2 ^ d" "2 ^ d < 2 * n"
proof (cases "n = 1")
  case True
  then show ?thesis using that [of 0] by (simp add: round_up_to_power_of_two_def)
next
  case False
  then have n: "2 \<le> n" using assms(1) by simp
  have "n - 1 < 2 ^ bit_len (n - 1)" using bit_len_bounds(1) .
  moreover have "2 ^ (bit_len (n - 1) - 1) \<le> n - 1" using bit_len_bounds(2) [of "n - 1"] n by simp
  moreover have "0 < bit_len (n - 1)" using n by (subst bit_len.simps) simp
  ultimately show ?thesis
    using that [of "bit_len (n - 1)"] round_up_eq [OF n assms(2)] n by (cases "bit_len (n - 1)") auto
qed

section \<open>The reference tree\<close>

text \<open>Node \<open>i\<close> of level \<open>d\<close> over the leaves \<open>f\<close>.\<close>

fun node :: "(bytes \<Rightarrow> bytes) \<Rightarrow> nat \<Rightarrow> (nat \<Rightarrow> bytes) \<Rightarrow> nat \<Rightarrow> bytes" where
  "node h 0 f i = f i"
| "node h (Suc d) f i = h (node h d f (2 * i) @ node h d f (2 * i + 1))"

lemma node_levels: "node h (k + d) f i = node h d (node h k f) i"
  by (induction d arbitrary: i) simp_all

lemma node_cong: "(\<And>j. i * 2 ^ d \<le> j \<Longrightarrow> j < (i + 1) * 2 ^ d \<Longrightarrow> f j = g j) \<Longrightarrow> node h d f i = node h d g i"
proof (induction d arbitrary: i)
  case (Suc d)
  have "node h d f (2 * i) = node h d g (2 * i)" by (rule Suc.IH) (rule Suc.prems, auto)
  moreover have "node h d f (2 * i + 1) = node h d g (2 * i + 1)" by (rule Suc.IH) (rule Suc.prems, auto)
  ultimately show ?case by simp
qed simp

lemma node_shift: "node h d f i = node h d (\<lambda>j. f (i * 2 ^ d + j)) 0"
proof -
  have "node h d f (i + j) = node h d (\<lambda>k. f (i * 2 ^ d + k)) j" for j
  proof (induction d arbitrary: i j f)
    case (Suc d)
    have "node h d f (2 * i + k) = node h d (\<lambda>j. f (2 * i * 2 ^ d + j)) k" for k by (rule Suc.IH)
    from this [of "2 * j"] this [of "2 * j + 1"] show ?case by (simp add: distrib_left add.assoc mult.assoc mult.left_commute)
  qed simp
  from this [of 0] show ?thesis by simp
qed

lemma pair_up_nth: "Suc (2 * j) < length hs \<Longrightarrow> pair_up h hs ! j = h (hs ! (2 * j) @ hs ! Suc (2 * j))"
proof (induction h hs arbitrary: j rule: pair_up.induct)
  case (1 h a b hs)
  then show ?case by (cases j) simp_all
qed simp_all

lemma root_power: "length hs = 2 ^ d \<Longrightarrow> d \<le> 63 \<Longrightarrow> root h hs = Inr (node h d ((!) hs) 0)"
proof (induction d arbitrary: hs)
  case 0
  then show ?case by (subst root.simps) simp
next
  case (Suc d)
  have len: "length (pair_up h hs) = 2 ^ d" using Suc.prems by (simp add: pair_up_length)
  have "round_up_to_power_of_two (2 ^ Suc d) = 2 ^ Suc d"
    using Suc.prems(2) power_increasing [of "Suc d" 63 "2 :: nat"] by (intro round_up_unique) simp_all
  moreover have "2 ^ Suc d \<noteq> (0 :: nat)" "2 ^ Suc d \<noteq> (1 :: nat)" by simp_all
  ultimately have "root h hs = root h (pair_up h hs)" using Suc.prems(1) by (subst root.simps) (simp only: if_False simp_thms)
  also have "\<dots> = Inr (node h d ((!) (pair_up h hs)) 0)" using Suc.IH [OF len] Suc.prems(2) by simp
  also have "node h d ((!) (pair_up h hs)) 0 = node h d (node h 1 ((!) hs)) 0"
    using Suc.prems(1) by (intro node_cong) (simp add: pair_up_nth)
  also have "\<dots> = node h (Suc d) ((!) hs) 0" by (simp add: node_levels [symmetric])
  finally show ?case .
qed

definition padded :: "bytes list \<Rightarrow> bytes \<Rightarrow> nat \<Rightarrow> bytes" where
  "padded hs pad i = (if i < length hs then hs ! i else pad)"

lemma root_with_pad_tree:
  assumes "0 < length hs" "length hs \<le> 2 ^ d" "2 ^ d < 2 * length hs" "d \<le> 63"
  shows "root_with_pad_hash h hs pad = Inr (node h d (padded hs pad) 0)"
proof -
  have "length hs \<le> 2 ^ 63" using assms(2,4) power_increasing [of d 63 "2 :: nat"] by linarith
  then have r: "round_up_to_power_of_two (length hs) = 2 ^ d" using assms by (intro round_up_unique) simp_all
  let ?hs = "hs @ replicate (2 ^ d - length hs) pad"
  have "root_with_pad_hash h hs pad = root h ?hs"
    using assms(1,2) by (auto simp: root_with_pad_hash_def r Let_def)
  also have "\<dots> = Inr (node h d ((!) ?hs) 0)" using assms by (intro root_power) simp_all
  also have "node h d ((!) ?hs) 0 = node h d (padded hs pad) 0"
    using assms(2) by (intro node_cong) (auto simp: padded_def nth_append)
  finally show ?thesis .
qed

section \<open>The incremental hasher\<close>

definition full_blocks :: "bytes \<Rightarrow> bytes list" where
  "full_blocks D = map (\<lambda>i. take LEAF (drop (i * LEAF) D)) [0..<length D div LEAF]"

definition tail_block :: "bytes \<Rightarrow> bytes" where
  "tail_block D = drop (length D div LEAF * LEAF) D"

lemma LEAF_pos [simp]: "0 < LEAF" "LEAF \<noteq> 0"
  by (simp_all add: LEAF_def)

lemma tail_length: "length (tail_block D) = length D mod LEAF"
  by (simp add: tail_block_def modulo_nat_def)

lemma full_blocks_prefix:
  assumes "n \<le> length D div LEAF"
  shows "map (\<lambda>i. take LEAF (drop (i * LEAF) (D @ x))) [0..<n] = map (\<lambda>i. take LEAF (drop (i * LEAF) D)) [0..<n]"
proof (rule map_cong)
  fix i assume "i \<in> set [0..<n]"
  then have "(i + 1) * LEAF \<le> length D div LEAF * LEAF" using assms by (intro mult_le_mono1) simp
  then have "i * LEAF + LEAF \<le> length D"
    using div_times_less_eq_dividend [of "length D" LEAF] by (simp only: add_mult_distrib mult_1)
  then show "take LEAF (drop (i * LEAF) (D @ x)) = take LEAF (drop (i * LEAF) D)" by simp
qed simp

lemma append_within:
  assumes "length (tail_block D) + length x < LEAF"
  shows "full_blocks (D @ x) = full_blocks D" "tail_block (D @ x) = tail_block D @ x"
proof -
  have "(length D + length x) div LEAF = length D div LEAF"
    using assms by (simp add: tail_length div_add1_eq [of "length D" "length x"] mod_less_eq_dividend)
  then show "full_blocks (D @ x) = full_blocks D" "tail_block (D @ x) = tail_block D @ x"
    using full_blocks_prefix [of "length D div LEAF" D x] div_times_less_eq_dividend [of "length D" LEAF]
    by (simp_all add: full_blocks_def tail_block_def)
qed

lemma append_complete:
  assumes "length (tail_block D) + length x = LEAF"
  shows "full_blocks (D @ x) = full_blocks D @ [tail_block D @ x]" "tail_block (D @ x) = []"
proof -
  have e: "length D + length x = (length D div LEAF + 1) * LEAF"
    using assms div_mult_mod_eq [of "length D" LEAF] by (simp only: tail_length add_mult_distrib mult_1)
  then have q: "(length D + length x) div LEAF = Suc (length D div LEAF)" by simp
  have "drop (length D div LEAF * LEAF) (D @ x) = tail_block D @ x"
    using div_times_less_eq_dividend [of "length D" LEAF] by (simp add: tail_block_def)
  then have "take LEAF (drop (length D div LEAF * LEAF) (D @ x)) = tail_block D @ x"
    using assms by (simp del: drop_append)
  then show "full_blocks (D @ x) = full_blocks D @ [tail_block D @ x]"
    using full_blocks_prefix [of "length D div LEAF" D x]
    by (simp add: full_blocks_def q del: take_append drop_append)
  show "tail_block (D @ x) = []" using e by (simp add: tail_block_def)
qed

definition state_of :: "(bytes \<Rightarrow> bytes) \<Rightarrow> bytes \<Rightarrow> merkle_hash" where
  "state_of h D = \<lparr>blocks = map h (full_blocks D), next_block = tail_block D, next_written = length (tail_block D)\<rparr>"

lemma state_new: "new_hash = state_of h []"
  by (simp add: new_hash_def state_of_def full_blocks_def tail_block_def)

lemma write_state: "hash_write h (state_of h D) p = state_of h (D @ p)"
proof (induction "length p" arbitrary: p D rule: less_induct)
  case less
  show ?case
  proof (cases "p = []")
    case True
    then show ?thesis by (subst hash_write.simps) simp
  next
    case False
    let ?n = "min (length p) (LEAF - length (tail_block D))"
    have t: "length (tail_block D) < LEAF" by (simp add: tail_length)
    have n: "0 < ?n" "length (take ?n p) = ?n" using False t by auto
    show ?thesis
    proof (cases "length (tail_block D) + ?n < LEAF")
      case True
      then have all: "?n = length p" by linarith
      have "hash_write h (state_of h D) p = hash_write h (state_of h (D @ p)) []"
        using False all True append_within [of D p]
        by (subst hash_write.simps) (simp add: state_of_def remaining_def Let_def)
      then show ?thesis by (subst (asm) (2) hash_write.simps) simp
    next
      case full: False
      then have eq: "length (tail_block D) + length (take ?n p) = LEAF" using t n(2) by linarith
      have "hash_write h (state_of h D) p = hash_write h (state_of h (D @ take ?n p)) (drop ?n p)"
        using False full append_complete [OF eq] eq n(2)
        by (subst hash_write.simps) (simp add: state_of_def remaining_def Let_def)
      also have "\<dots> = state_of h ((D @ take ?n p) @ drop ?n p)" using False n(1) by (intro less) simp
      finally show ?thesis by simp
    qed
  qed
qed

lemma write_chunks: "foldl (hash_write h) (state_of h D) chunks = state_of h (D @ concat chunks)"
  by (induction chunks arbitrary: D) (simp_all add: write_state)

definition leaf :: "(bytes \<Rightarrow> bytes) \<Rightarrow> bytes \<Rightarrow> nat \<Rightarrow> bytes" where
  "leaf h D i = h (take LEAF (drop (i * LEAF) D))"

definition leaf_or_zero :: "(bytes \<Rightarrow> bytes) \<Rightarrow> bytes \<Rightarrow> nat \<Rightarrow> bytes" where
  "leaf_or_zero h D i = (if i * LEAF < length D then leaf h D i else zero_hash)"

lemma div_ceil_split: "0 < b \<Longrightarrow> div_ceil n b = n div b + (if n mod b = 0 then 0 else 1)"
proof -
  assume b: "0 < b"
  have "n + b - 1 = n mod b + b - 1 + n div b * b" using b div_mult_mod_eq [of n b] by linarith
  then have "div_ceil n b = (n mod b + b - 1 + n div b * b) div b" by (simp only: div_ceil_def)
  also have "\<dots> = n div b + (n mod b + b - 1) div b" using b by (intro div_mult_self1) simp
  finally have "div_ceil n b = n div b + (n mod b + b - 1) div b" .
  moreover have "(n mod b + b - 1) div b = (if n mod b = 0 then 0 else 1)"
  proof (cases "n mod b = 0")
    case False
    then have e: "n mod b + b - 1 = (n mod b - 1) + b" by simp
    have "n mod b - 1 < b" using b mod_less_divisor [of b n] by linarith
    then have "((n mod b - 1) + b) div b = 1" using b by (simp add: div_add_self2 del: One_nat_def)
    then show ?thesis using False by (simp only: e if_False)
  qed (use b in simp)
  ultimately show ?thesis by simp
qed

lemma cur_blocks_leaves: "cur_blocks h (state_of h D) = map (leaf h D) [0..<div_ceil (length D) LEAF]"
proof (cases "length D mod LEAF = 0")
  case True
  then have "div_ceil (length D) LEAF = length D div LEAF" by (simp add: div_ceil_split)
  then show ?thesis using True by (simp add: cur_blocks_def state_of_def tail_length full_blocks_def leaf_def comp_def)
next
  case False
  then have c: "div_ceil (length D) LEAF = Suc (length D div LEAF)" by (simp add: div_ceil_split)
  have "length (tail_block D) < LEAF" by (simp add: tail_length)
  then have "leaf h D (length D div LEAF) = h (tail_block D)" by (simp add: leaf_def tail_block_def)
  then show ?thesis
    using False by (simp add: cur_blocks_def state_of_def tail_length full_blocks_def leaf_def comp_def c)
qed

lemma leaves_padded:
  "padded (map (leaf h D) [0..<div_ceil (length D) LEAF]) zero_hash = leaf_or_zero h D"
  by (rule ext) (simp add: padded_def leaf_or_zero_def less_div_ceil_iff)

lemma small_depth:
  assumes "N \<le> 2 ^ 62" "2 ^ d < 2 * (N :: nat)"
  shows "d \<le> 63"
proof -
  have "2 * N \<le> 2 ^ 63" using assms(1) by simp
  then have "(2 :: nat) ^ d < 2 ^ 63" using assms(2) by linarith
  then have "d < 63" by (rule power_less_imp_less_exp [rotated]) simp
  then show ?thesis by simp
qed

lemma leaf_count_bound: "length D \<le> 2 ^ 62 \<Longrightarrow> div_ceil (length D) LEAF \<le> 2 ^ 62"
  by (simp add: div_ceil_def LEAF_def)

lemma stream_root_tree:
  assumes "concat chunks \<noteq> []" and "length (concat chunks) \<le> 2 ^ 62"
    and "div_ceil (length (concat chunks)) LEAF \<le> 2 ^ d" and "2 ^ d < 2 * div_ceil (length (concat chunks)) LEAF"
  shows "hash_sum h (foldl (hash_write h) new_hash chunks) = Some (node h d (leaf_or_zero h (concat chunks)) 0)"
proof -
  let ?D = "concat chunks" and ?N = "div_ceil (length (concat chunks)) LEAF"
  have "0 < ?N" using assms(1) by (simp add: div_ceil_pos)
  moreover have "d \<le> 63" using small_depth [OF leaf_count_bound [OF assms(2)] assms(4)] .
  ultimately have "root_with_pad_hash h (map (leaf h ?D) [0..<?N]) zero_hash = Inr (node h d (leaf_or_zero h ?D) 0)"
    using root_with_pad_tree [of "map (leaf h ?D) [0..<?N]" d h zero_hash] assms(3,4) by (simp add: leaves_padded)
  then show ?thesis
    using write_chunks [of h "[]" chunks] state_new [of h]
    by (simp add: hash_sum_def unwrap_root_def cur_blocks_leaves)
qed

section \<open>Properties\<close>

text \<open>
  C12: however the data is cut into writes, the incremental hasher's sum does not panic and is the root of
  the perfect binary tree over the hashes of its 16 KiB blocks, missing leaves being zero hashes.
\<close>

theorem merkle_stream_root:
  assumes "concat chunks \<noteq> []" and "length (concat chunks) \<le> 2 ^ 62"
    and "div_ceil (length (concat chunks)) LEAF \<le> 2 ^ d" and "2 ^ d < 2 * div_ceil (length (concat chunks)) LEAF"
  shows "hash_sum h (foldl (hash_write h) new_hash chunks) = Some (node h d (leaf_or_zero h (concat chunks)) 0)"
  using assms by (rule stream_root_tree)

theorem merkle_stream_root_witness:
  "hash_sum (\<lambda>b. b) (foldl (hash_write (\<lambda>b. b)) new_hash [[1], [2, 3]]) = Some [1, 2, 3]"
proof -
  have "concat [[1], [2, 3 :: u8]] \<noteq> []" "length (concat [[1], [2, 3 :: u8]]) \<le> 2 ^ 62"
    "div_ceil (length (concat [[1], [2, 3 :: u8]])) LEAF \<le> 2 ^ 0"
    "2 ^ 0 < 2 * div_ceil (length (concat [[1], [2, 3 :: u8]])) LEAF"
    by (simp_all add: div_ceil_def LEAF_def)
  from merkle_stream_root [OF this, of "\<lambda>b. b"] show ?thesis by (simp add: leaf_or_zero_def leaf_def LEAF_def)
qed

text \<open>The hash of one piece, padded to its full count of leaves.\<close>

lemma piece_sum:
  assumes "0 < length P" "length P \<le> LEAF * 2 ^ k" "k \<le> 62"
  shows "sum_min_length h (hash_write h new_hash P) (LEAF * 2 ^ k) = Some (node h k (leaf_or_zero h P) 0)"
proof -
  let ?N = "div_ceil (length P) LEAF"
  have m: "div_ceil (LEAF * 2 ^ k) LEAF = 2 ^ k" by (simp add: div_ceil_def LEAF_def)
  have N: "?N \<le> 2 ^ k"
    using div_le_mono [of "length P + LEAF - 1" "LEAF * 2 ^ k + LEAF - 1" LEAF] assms(2) m by (simp add: div_ceil_def)
  let ?bs = "map (leaf h P) [0..<?N] @ replicate (2 ^ k - ?N) zero_hash"
  have "x * LEAF < length P \<longleftrightarrow> x < ?N" for x by (simp add: less_div_ceil_iff)
  then have "padded ?bs zero_hash = leaf_or_zero h P"
    by (intro ext) (auto simp: padded_def nth_append leaf_or_zero_def)
  then have "root_with_pad_hash h ?bs zero_hash = Inr (node h k (leaf_or_zero h P) 0)"
    using root_with_pad_tree [of ?bs k h zero_hash] N assms(3) by simp
  moreover have "hash_write h new_hash P = state_of h P" using write_state [of h "[]" P] state_new [of h] by simp
  ultimately show ?thesis by (simp add: sum_min_length_def Let_def cur_blocks_leaves m unwrap_root_def)
qed

lemma piece_pad:
  assumes "k \<le> 62"
  shows "hash_for_piece_pad h (int (LEAF * 2 ^ k)) = node h k (\<lambda>_. zero_hash) 0"
proof -
  have "div_i64 (int (LEAF * 2 ^ k)) (int LEAF) = 2 ^ k" by (simp add: div_i64_nonneg LEAF_def)
  then have n: "nat (max (div_i64 (int (LEAF * 2 ^ k)) (int LEAF)) 0) = 2 ^ k" by (simp add: nat_power_eq)
  have "root h (replicate (2 ^ k) zero_hash) = Inr (node h k ((!) (replicate (2 ^ k) zero_hash)) 0)"
    using assms by (intro root_power) simp_all
  moreover have "node h k ((!) (replicate (2 ^ k) zero_hash)) 0 = node h k (\<lambda>_. zero_hash) 0"
    by (intro node_cong) simp
  ultimately show ?thesis unfolding hash_for_piece_pad_def n by simp
qed

text \<open>Level \<open>k\<close> of the file's tree is its piece layer.\<close>

lemma layer_node:
  assumes "j * (LEAF * 2 ^ k) < length D"
  shows "node h k (leaf_or_zero h D) j = node h k (leaf_or_zero h (take (LEAF * 2 ^ k) (drop (j * (LEAF * 2 ^ k)) D))) 0"
proof -
  let ?pl = "LEAF * 2 ^ k" and ?o = "j * (LEAF * 2 ^ k)"
  have "leaf_or_zero h D (j * 2 ^ k + i) = leaf_or_zero h (take ?pl (drop ?o D)) i" if "i < 2 ^ k" for i
  proof -
    have "(i + 1) * LEAF \<le> 2 ^ k * LEAF" using that by (intro mult_le_mono1) simp
    then have i: "i * LEAF + LEAF \<le> ?pl" by (simp add: mult.commute)
    have e: "(j * 2 ^ k + i) * LEAF = ?o + i * LEAF" by (simp add: algebra_simps)
    have "take LEAF (drop (i * LEAF) (take ?pl (drop ?o D))) = take LEAF (drop (i * LEAF) (drop ?o D))"
      using i by (simp add: drop_take min_def)
    then have "leaf h (take ?pl (drop ?o D)) i = leaf h D (j * 2 ^ k + i)"
      by (simp only: leaf_def e drop_drop add.commute [of "i * LEAF" ?o])
    moreover have "i * LEAF < length (take ?pl (drop ?o D)) \<longleftrightarrow> (j * 2 ^ k + i) * LEAF < length D"
      using i assms that unfolding e by (auto simp: less_diff_conv)
    ultimately show ?thesis by (simp add: leaf_or_zero_def)
  qed
  then show ?thesis by (subst node_shift) (intro node_cong, simp)
qed

lemma chunks32_concat: "\<forall>x\<in>set xs. length x = 32 \<Longrightarrow> chunks32 (concat xs) = xs"
  by (induction xs) (subst chunks32.simps, simp)+

lemma compact_concat:
  "\<forall>x\<in>set xs. length x = 32 \<Longrightarrow> compact_layer_to_slice_hashes (concat xs) = Inr xs"
proof -
  assume a: "\<forall>x\<in>set xs. length x = 32"
  then have "length (concat xs) = 32 * length xs" by (induction xs) simp_all
  with chunks32_concat [OF a] show ?thesis by (simp add: compact_layer_to_slice_hashes_def)
qed

lemma node_length:
  "\<forall>x. length (h x) = 32 \<Longrightarrow> \<forall>i. length (f i) = 32 \<Longrightarrow> length (node h d f i) = 32"
  by (cases d) simp_all

lemma leaf_or_zero_length: "\<forall>x. length (h x) = 32 \<Longrightarrow> length (leaf_or_zero h D i) = 32"
  by (simp add: leaf_or_zero_def leaf_def zero_hash_def)

text \<open>The depth of the file's tree is the piece's depth plus the depth over the pieces.\<close>

lemma layer_depth:
  assumes "0 < n" "LEAF * 2 ^ k < n" "div_ceil n LEAF \<le> 2 ^ d" "2 ^ d < 2 * div_ceil n LEAF"
  shows "k < d" "div_ceil n (LEAF * 2 ^ k) \<le> 2 ^ (d - k)" "2 ^ (d - k) < 2 * div_ceil n (LEAF * 2 ^ k)"
proof -
  have le: "div_ceil n b \<le> m \<longleftrightarrow> n \<le> m * b" if "0 < b" for b m
    using less_div_ceil_iff [OF that, of m n] by (auto simp: not_less [symmetric])
  have n: "n \<le> 2 ^ d * LEAF" using assms(3) le [of LEAF "2 ^ d"] by simp
  have "(2 :: nat) ^ k < 2 ^ d" using assms(2) n by (metis LEAF_pos(1) less_le_trans mult.commute nat_mult_less_cancel1)
  then show k: "k < d" by simp
  then have p: "(2 :: nat) ^ d = 2 ^ (d - k) * 2 ^ k" by (simp flip: power_add)
  show "div_ceil n (LEAF * 2 ^ k) \<le> 2 ^ (d - k)"
    using n le [of "LEAF * 2 ^ k" "2 ^ (d - k)"] by (simp add: p mult.assoc mult.commute)
  have "2 ^ (d - 1) < div_ceil n LEAF" using assms(4) k by (cases d) simp_all
  then have "2 ^ (d - 1) * LEAF < n" by (simp add: less_div_ceil_iff)
  moreover have "(2 :: nat) ^ (d - 1) = 2 ^ (d - k - 1) * 2 ^ k" using k by (simp flip: power_add)
  ultimately have "2 ^ (d - k - 1) < div_ceil n (LEAF * 2 ^ k)"
    by (simp add: less_div_ceil_iff mult.assoc mult.commute)
  moreover have "(2 :: nat) ^ (d - k) = 2 * 2 ^ (d - k - 1)" using k by (simp flip: power_Suc)
  ultimately show "2 ^ (d - k) < 2 * div_ceil n (LEAF * 2 ^ k)" by linarith
qed

text \<open>Beyond the last piece, level \<open>k\<close> of the tree holds the piece padding hash.\<close>

lemma layer_beyond:
  assumes "k \<le> 62" "div_ceil (length D) (LEAF * 2 ^ k) \<le> j"
  shows "node h k (leaf_or_zero h D) j = hash_for_piece_pad h (int (LEAF * 2 ^ k))"
proof -
  have "0 < LEAF * 2 ^ k" by simp
  then have "length D \<le> j * (LEAF * 2 ^ k)"
    using assms(2) less_div_ceil_iff [of "LEAF * 2 ^ k" j "length D"] by linarith
  moreover have "j * (LEAF * 2 ^ k) = j * 2 ^ k * LEAF" by (simp add: algebra_simps)
  ultimately have "\<not> i * LEAF < length D" if "j * 2 ^ k \<le> i" for i
    using mult_le_mono1 [OF that, of LEAF] by linarith
  then have "node h k (leaf_or_zero h D) j = node h k (\<lambda>_. zero_hash) j"
    by (intro node_cong) (simp add: leaf_or_zero_def)
  also have "\<dots> = node h k (\<lambda>_. zero_hash) 0" by (subst node_shift) simp
  also have "\<dots> = hash_for_piece_pad h (int (LEAF * 2 ^ k))" using assms(1) by (subst piece_pad) simp_all
  finally show ?thesis .
qed

definition piece_layer :: "(bytes \<Rightarrow> bytes) \<Rightarrow> bytes \<Rightarrow> nat \<Rightarrow> bytes list" where
  "piece_layer h D k = map (node h k (leaf_or_zero h D)) [0..<div_ceil (length D) (LEAF * 2 ^ k)]"

lemma piece_layer_root:
  assumes "k \<le> 40" "LEAF * 2 ^ k < length D" "length D \<le> 2 ^ 62"
    "div_ceil (length D) LEAF \<le> 2 ^ d" "2 ^ d < 2 * div_ceil (length D) LEAF"
  shows "root_with_pad_hash h (piece_layer h D k) (hash_for_piece_pad h (int (LEAF * 2 ^ k))) =
    Inr (node h d (leaf_or_zero h D) 0)"
proof -
  have D: "0 < length D" using assms(2) by linarith
  note ld = layer_depth [OF D assms(2,4,5)]
  have d63: "d \<le> 63" using small_depth [OF leaf_count_bound [OF assms(3)] assms(5)] .
  have "padded (piece_layer h D k) (hash_for_piece_pad h (int (LEAF * 2 ^ k))) = node h k (leaf_or_zero h D)"
    using layer_beyond [of k D _ h] assms(1) by (intro ext) (simp add: padded_def piece_layer_def)
  moreover have "0 < length (piece_layer h D k)" using D by (simp add: piece_layer_def div_ceil_pos)
  ultimately have "root_with_pad_hash h (piece_layer h D k) (hash_for_piece_pad h (int (LEAF * 2 ^ k))) =
      Inr (node h (d - k) (node h k (leaf_or_zero h D)) 0)"
    using root_with_pad_tree [of "piece_layer h D k" "d - k" h] ld d63 by (simp add: piece_layer_def)
  then show ?thesis using ld(1) node_levels [of h k "d - k" "leaf_or_zero h D" 0] by simp
qed

lemma piece_layer_sums:
  assumes "k \<le> 40" "j < length (piece_layer h D k)"
  shows "sum_min_length h (hash_write h new_hash (take (LEAF * 2 ^ k) (drop (j * (LEAF * 2 ^ k)) D))) (LEAF * 2 ^ k)
    = Some (piece_layer h D k ! j)"
proof -
  have "0 < LEAF * 2 ^ k" by simp
  then have j: "j * (LEAF * 2 ^ k) < length D"
    using assms(2) less_div_ceil_iff [of "LEAF * 2 ^ k" j "length D"] by (simp add: piece_layer_def)
  then show ?thesis
    using piece_sum [of "take (LEAF * 2 ^ k) (drop (j * (LEAF * 2 ^ k)) D)" k h] assms layer_node [OF j, of h]
    by (simp add: piece_layer_def)
qed

text \<open>
  C32: a file's piece layer, made of the padded roots of its pieces, folds up to the file's own root: the
  layer check accepts it. The digest is only assumed to give 32 bytes.
\<close>

theorem piece_layers_validate:
  assumes "\<forall>x. length (h x) = 32" and "k \<le> 40" and "LEAF * 2 ^ k < length D" and "length D \<le> 2 ^ 62"
  shows "\<exists>rt layer. hash_sum h (hash_write h new_hash D) = Some rt \<and>
    length layer = div_ceil (length D) (LEAF * 2 ^ k) \<and>
    (\<forall>j < length layer. sum_min_length h
       (hash_write h new_hash (take (LEAF * 2 ^ k) (drop (j * (LEAF * 2 ^ k)) D))) (LEAF * 2 ^ k) = Some (layer ! j)) \<and>
    (\<forall>fi dbg dbgh. pieces_root fi = Some rt \<longrightarrow>
       validate_piece_layers h dbg dbgh [(rt, concat layer)] [fi] (int (LEAF * 2 ^ k)) = Inr ())"
proof -
  let ?layer = "piece_layer h D k"
  have D: "0 < length D" "D \<noteq> []" using assms(3) by auto
  have N: "0 < div_ceil (length D) LEAF" "div_ceil (length D) LEAF \<le> 2 ^ 63"
    using D leaf_count_bound [OF assms(4)] by (simp_all add: div_ceil_pos)
  obtain d where d: "div_ceil (length D) LEAF \<le> 2 ^ d" "2 ^ d < 2 * div_ceil (length D) LEAF"
    using round_up_power [OF N] by blast
  define rt where "rt = node h d (leaf_or_zero h D) 0"
  have sum: "hash_sum h (hash_write h new_hash D) = Some rt"
    using stream_root_tree [of "[D]" d h] D assms(4) d by (simp add: rt_def)
  note root = piece_layer_root [OF assms(2-4) d, of h, folded rt_def]
  have "\<forall>x\<in>set ?layer. length x = 32"
    using node_length [OF assms(1)] leaf_or_zero_length [OF assms(1)] by (auto simp: piece_layer_def)
  then have "compact_layer_to_slice_hashes (concat ?layer) = Inr ?layer" by (rule compact_concat)
  then have "validate_piece_layers h dbg dbgh [(rt, concat ?layer)] [fi] (int (LEAF * 2 ^ k)) = Inr ()"
    if "pieces_root fi = Some rt" for fi dbg dbgh
    using that root by (simp add: validate_piece_layers_def del: of_nat_mult)
  then show ?thesis
    using sum piece_layer_sums [OF assms(2), of _ h D]
    by (intro exI [of _ rt] exI [of _ ?layer]) (simp add: piece_layer_def)
qed

theorem piece_layers_validate_witness:
  "\<exists>rt layer. hash_sum (\<lambda>_. zero_hash) (hash_write (\<lambda>_. zero_hash) new_hash (replicate 20000 7)) = Some rt \<and>
     length layer = 2 \<and>
     validate_piece_layers (\<lambda>_. zero_hash) (\<lambda>_. []) (\<lambda>_. []) [(rt, concat layer)]
       [\<lparr>path = [], flength = 20000, torrent_offset = 0, attr = [], pieces_root = Some rt\<rparr>] 16384 = Inr ()"
proof -
  have p: "\<forall>x :: bytes. length ((\<lambda>_. zero_hash) x) = 32" "(0 :: nat) \<le> 40"
    "LEAF * 2 ^ 0 < length (replicate 20000 (7 :: u8))" "length (replicate 20000 (7 :: u8)) \<le> 2 ^ 62"
    by (simp_all add: zero_hash_def LEAF_def)
  have two: "div_ceil 20000 (LEAF * 2 ^ 0) = 2" by (simp add: div_ceil_def LEAF_def)
  from piece_layers_validate [OF p] obtain rt layer where
    "hash_sum (\<lambda>_. zero_hash) (hash_write (\<lambda>_. zero_hash) new_hash (replicate 20000 7)) = Some rt"
    "length layer = div_ceil (length (replicate 20000 (7 :: u8))) (LEAF * 2 ^ 0)"
    "\<forall>fi dbg dbgh. pieces_root fi = Some rt \<longrightarrow>
       validate_piece_layers (\<lambda>_. zero_hash) dbg dbgh [(rt, concat layer)] [fi] (int (LEAF * 2 ^ 0)) = Inr ()"
    by blast
  then show ?thesis
    using two by (intro exI [of _ rt] exI [of _ layer]) (simp add: LEAF_def)
qed

section \<open>A layer is bound to its root\<close>

text \<open>
  What the tree of depth \<open>d\<close> over the leaves \<open>f\<close> feeds to the digest: one pair of hashes per inner node.
  \<open>layer_inputs\<close> are these pairs for the tree that \<open>root_with_pad_hash\<close> builds over a compact layer.
\<close>

primrec node_inputs :: "(bytes \<Rightarrow> bytes) \<Rightarrow> nat \<Rightarrow> (nat \<Rightarrow> bytes) \<Rightarrow> nat \<Rightarrow> bytes list" where
  "node_inputs h 0 f i = []"
| "node_inputs h (Suc d) f i =
     (node h d f (2 * i) @ node h d f (2 * i + 1)) # node_inputs h d f (2 * i) @ node_inputs h d f (2 * i + 1)"

definition layer_inputs :: "(bytes \<Rightarrow> bytes) \<Rightarrow> int \<Rightarrow> bytes \<Rightarrow> bytes list" where
  "layer_inputs h pl c =
     node_inputs h (bit_len (length (chunks32 c) - 1)) (padded (chunks32 c) (hash_for_piece_pad h pl)) 0"

lemma depth_bounds:
  assumes "0 < n"
  shows "n \<le> 2 ^ bit_len (n - 1)" "2 ^ bit_len (n - 1) < 2 * n"
proof -
  show "n \<le> 2 ^ bit_len (n - 1)" using bit_len_bounds(1) [of "n - 1"] assms by linarith
  show "2 ^ bit_len (n - 1) < 2 * n"
  proof (cases "bit_len (n - 1)")
    case 0
    then show ?thesis using assms by simp
  next
    case (Suc k)
    then have "0 < n - 1" by (cases "n - 1") (auto simp: bit_len.simps)
    then show ?thesis using bit_len_bounds(2) [of "n - 1"] Suc by simp
  qed
qed

lemma node_binding:
  assumes "\<forall>x. length (h x) = 32" "\<forall>i. length (f i) = 32" "\<forall>i. length (g i) = 32"
    "node h d f i = node h d g i"
    "\<forall>x\<in>set (node_inputs h d f i). \<forall>y\<in>set (node_inputs h d g i). h x = h y \<longrightarrow> x = y"
    "i * 2 ^ d \<le> j" "j < (i + 1) * 2 ^ d"
  shows "f j = g j"
  using assms(4-7)
proof (induction d arbitrary: i)
  case 0
  then have "j = i" by simp
  then show ?case using 0 by simp
next
  case (Suc d)
  have "node h d f (2 * i) @ node h d f (2 * i + 1) = node h d g (2 * i) @ node h d g (2 * i + 1)"
    using Suc.prems(1,2) by simp
  then have halves: "node h d f (2 * i) = node h d g (2 * i)" "node h d f (2 * i + 1) = node h d g (2 * i + 1)"
    using node_length [OF assms(1,2)] node_length [OF assms(1,3)] by simp_all
  have inj: "\<forall>x\<in>set (node_inputs h d f k). \<forall>y\<in>set (node_inputs h d g k). h x = h y \<longrightarrow> x = y"
    if "k = 2 * i \<or> k = 2 * i + 1" for k
    using Suc.prems(2) that unfolding node_inputs.simps set_append list.set by blast
  consider "2 * i * 2 ^ d \<le> j" "j < (2 * i + 1) * 2 ^ d" | "(2 * i + 1) * 2 ^ d \<le> j" "j < (2 * i + 1 + 1) * 2 ^ d"
    using Suc.prems(3,4) by fastforce
  then show ?case
  proof cases
    case 1
    show ?thesis by (rule Suc.IH [OF halves(1) inj 1]) simp
  next
    case 2
    show ?thesis by (rule Suc.IH [OF halves(2) inj 2]) simp
  qed
qed

lemma pair_up_lengths: "\<forall>x. length (h x) = 32 \<Longrightarrow> \<forall>x\<in>set (pair_up h hs). length x = 32"
  by (induction h hs rule: pair_up.induct) simp_all

lemma root_length:
  assumes "\<forall>x. length (h x) = 32"
  shows "\<forall>x\<in>set hs. length x = 32 \<Longrightarrow> root h hs = Inr r \<Longrightarrow> length r = 32"
proof (induction "length hs" arbitrary: hs rule: less_induct)
  case less
  show ?case
  proof (cases "2 \<le> length hs \<and> length hs = round_up_to_power_of_two (length hs)")
    case True
    then have "root h hs = root h (pair_up h hs)" by (subst root.simps) auto
    then have "root h (pair_up h hs) = Inr r" using less.prems(2) by simp
    moreover have "length (pair_up h hs) < length hs" using conjunct1 [OF True] unfolding pair_up_length by linarith
    ultimately show ?thesis using less.hyps pair_up_lengths [OF assms] by blast
  next
    case False
    then consider "length hs = 0" | "length hs = 1" | "2 \<le> length hs" "length hs \<noteq> round_up_to_power_of_two (length hs)"
      by linarith
    then show ?thesis
      using less.prems assms nth_mem [of 0 hs] by cases (auto simp: root.simps [of h hs] split: if_splits)
  qed
qed

lemma piece_pad_length: "\<forall>x. length (h x) = 32 \<Longrightarrow> length (hash_for_piece_pad h pl) = 32"
  using root_length [of h "replicate (nat (max (div_i64 pl (int LEAF)) 0)) zero_hash"]
  by (auto simp: hash_for_piece_pad_def zero_hash_def split: sum.splits)

lemma chunks32_props:
  "length c mod 32 = 0 \<Longrightarrow> concat (chunks32 c) = c \<and> length (chunks32 c) = length c div 32 \<and> (\<forall>x\<in>set (chunks32 c). length x = 32)"
proof (induction c rule: chunks32.induct)
  case (1 c)
  show ?case
  proof (cases "length c < 32")
    case True
    then have "c = []" using 1(2) by simp
    then show ?thesis by (simp add: chunks32.simps)
  next
    case False
    then have m: "length (drop 32 c) mod 32 = 0" using 1(2) le_mod_geq [of 32 "length c"] False by simp
    have d: "length c div 32 = Suc (length (drop 32 c) div 32)" using False by (simp add: le_div_geq)
    have e: "chunks32 c = take 32 c # chunks32 (drop 32 c)" using False by (subst chunks32.simps) simp
    note IH = 1(1) [OF False m]
    have "length (take 32 c) = 32" using False by simp
    then show ?thesis using IH unfolding e d by (simp del: length_drop)
  qed
qed

lemma validate_single:
  assumes "pieces_root fi = Some rt" "\<not> is_padding fi" "validate_piece_layers h dbg dbgh [(rt, c)] [fi] pl = Inr ()"
  shows "length c mod 32 = 0 \<and> root_with_pad_hash h (chunks32 c) (hash_for_piece_pad h pl) = Inr rt"
  using assms
  by (auto simp: validate_piece_layers_def compact_layer_to_slice_hashes_def split: if_splits sum.splits)

text \<open>
  C13: a layer cannot be swapped for another. If the check accepts two different layers of the same length
  for one root, then the two checks themselves have hashed a collision: among the pairs of hashes that the
  one tree feeds to the digest and those of the other there are two different ones with the same digest.
  Whoever forges a layer has therefore found a collision of the digest and can read it off.
\<close>

theorem piece_layer_binding:
  assumes "\<forall>x. length (h x) = 32" and "pieces_root fi = Some rt" and "\<not> is_padding fi"
    and "validate_piece_layers h dbg dbgh [(rt, c)] [fi] pl = Inr ()"
    and "validate_piece_layers h dbg dbgh [(rt, c')] [fi] pl = Inr ()"
    and "length c = length c'" and "0 < length c" and "length c \<le> 2 ^ 62" and "c \<noteq> c'"
  shows "\<exists>x \<in> set (layer_inputs h pl c). \<exists>y \<in> set (layer_inputs h pl c'). x \<noteq> y \<and> h x = h y"
proof (rule ccontr)
  assume nc: "\<not> ?thesis"
  note v = validate_single [OF assms(2-4)] and v' = validate_single [OF assms(2,3,5)]
  let ?p = "hash_for_piece_pad h pl"
  have m: "length c mod 32 = 0" "length c' mod 32 = 0" using v v' by simp_all
  have cc: "concat (chunks32 c) = c" "concat (chunks32 c') = c'"
    using chunks32_props [OF m(1)] chunks32_props [OF m(2)] by blast+
  have l32: "\<forall>x\<in>set (chunks32 c). length x = 32" "\<forall>x\<in>set (chunks32 c'). length x = 32"
    using chunks32_props [OF m(1)] chunks32_props [OF m(2)] by blast+
  define n where "n = length c div 32"
  have len: "length (chunks32 c) = n" "length (chunks32 c') = n"
    using chunks32_props [OF m(1)] chunks32_props [OF m(2)] assms(6) by (simp_all only: n_def)
  have "length c = n * 32" using m(1) by (simp add: n_def mod_0_imp_dvd)
  then have n: "0 < n" "n \<le> 2 ^ 62" using assms(7,8) by linarith+
  let ?d = "bit_len (n - 1)"
  note d = depth_bounds [OF n(1)]
  have d63: "?d \<le> 63" using small_depth [OF n(2) d(2)] .
  have eq: "node h ?d (padded (chunks32 c) ?p) 0 = node h ?d (padded (chunks32 c') ?p) 0"
    using root_with_pad_tree [of "chunks32 c" ?d h ?p] root_with_pad_tree [of "chunks32 c'" ?d h ?p] v v' len n d d63 by simp
  have p32: "length ?p = 32" using assms(1) by (rule piece_pad_length)
  have f32: "\<forall>i. length (padded (chunks32 c) ?p i) = 32" "\<forall>i. length (padded (chunks32 c') ?p i) = 32"
    using l32 p32 by (simp_all add: padded_def)
  have inj: "\<forall>x\<in>set (node_inputs h ?d (padded (chunks32 c) ?p) 0).
      \<forall>y\<in>set (node_inputs h ?d (padded (chunks32 c') ?p) 0). h x = h y \<longrightarrow> x = y"
    using nc unfolding layer_inputs_def len by blast
  have "chunks32 c ! j = chunks32 c' ! j" if "j < n" for j
    using node_binding [OF assms(1) f32 eq inj, of j] that d(1) len by (simp add: padded_def)
  then have "chunks32 c = chunks32 c'" using len by (intro nth_equalityI) simp_all
  then show False using cc assms(9) by simp
qed

theorem piece_layer_binding_witness:
  "\<exists>x \<in> set (layer_inputs (\<lambda>_. zero_hash) 16384 (zero_hash @ zero_hash)).
   \<exists>y \<in> set (layer_inputs (\<lambda>_. zero_hash) 16384 (zero_hash @ replicate 32 1)). x \<noteq> y"
proof -
  let ?fi = "\<lparr>path = [], flength = 40000, torrent_offset = 0, attr = [], pieces_root = Some zero_hash\<rparr>"
  have "validate_piece_layers (\<lambda>_. zero_hash) (\<lambda>_. []) (\<lambda>_. []) [(zero_hash, a @ b)] [?fi] 16384 = Inr ()"
    if "length a = 32" "length b = 32" for a b
  proof -
    have "compact_layer_to_slice_hashes (a @ b) = Inr [a, b]" using compact_concat [of "[a, b]"] that by simp
    moreover have "root_with_pad_hash (\<lambda>_. zero_hash) [a, b] p = Inr (node (\<lambda>_. zero_hash) 1 (padded [a, b] p) 0)" for p
      by (rule root_with_pad_tree) simp_all
    ultimately show ?thesis by (simp add: validate_piece_layers_def is_padding_def)
  qed
  from this [of zero_hash zero_hash] this [of zero_hash "replicate 32 1"]
  have "\<exists>x \<in> set (layer_inputs (\<lambda>_. zero_hash) 16384 (zero_hash @ zero_hash)).
     \<exists>y \<in> set (layer_inputs (\<lambda>_. zero_hash) 16384 (zero_hash @ replicate 32 1)). x \<noteq> y \<and> zero_hash = zero_hash"
    by (intro piece_layer_binding [of "\<lambda>_. zero_hash" ?fi zero_hash "\<lambda>_. []" "\<lambda>_. []" "zero_hash @ zero_hash" 16384
          "zero_hash @ replicate 32 1"]) (simp_all add: zero_hash_def is_padding_def)
  then show ?thesis by blast
qed

end
