(* ===== verification/Spec2Isabelle.thy ===== *)
theory Spec2Isabelle
  imports Prelude Ranges Lru FileMap Checkpoint CacheSlots WriteBack WriteBackSteps WriteBackRaces CheckpointDrain CheckpointSteps Utf8 Bencode BencodeStack Metainfo Wire Codec Handshake ChunkBits BlockTable Picker BlockWrite Types Pieces Merkle
begin

text \<open>
  Verification of the streaming BitTorrent engine under \<^verbatim>\<open>engine-rs/crates\<close>.

  The program. A torrent file or magnet link is parsed (\<^verbatim>\<open>wt-meta\<close>); connections exchange framed
  messages with peers (\<^verbatim>\<open>wt-wire\<close>); a scheduler hands out 16 KiB blocks, so that each is asked for
  and written once (\<^verbatim>\<open>wt-core\<close>); blocks land in a bounded RAM cache and are written back to the files
  without holding the storage lock (\<^verbatim>\<open>wt-storage\<close>); a verified piece is flushed, synced and recorded
  in a checkpoint, from which the next start knows what it may trust. Player-driven policies
  (\<^verbatim>\<open>wt-policy\<close>) and the control server (\<^verbatim>\<open>wt-engine\<close>) sit on top.

  Conventions. A struct is a record, an enum a datatype, one definition per function with the source's
  name; a definition that is a part of a function says which part in the text above it. \<open>u8\<close> to \<open>u64\<close> are
  machine words where their width shows; lengths and indices that the code bounds are \<open>nat\<close>, \<open>i64\<close> is
  \<open>int\<close> with \<open>wrap_i64\<close> where it can overflow. A panic or a loop that does not end is the outer \<open>None\<close>,
  an error is \<open>Inl\<close>. The outcome of every system call, the iteration order of hash maps, cryptographic
  hashes and other code outside the repository are parameters. A function that releases a lock in the
  middle is cut there into one definition per locked part; step relations put the parts of several
  threads into any order.

  Theories, from the bottom up.
  \<^item> \<open>Prelude\<close>: machine types, Rust integer operations, big-endian bytes, slices, decimal text.
    \<open>Types\<close>: errors and the ordered piece priorities (\<^verbatim>\<open>wt-types\<close>). \<open>Utf8\<close>: lossy decoding.
  \<^item> \<open>Bencode\<close>, \<open>Metainfo\<close> (\<^verbatim>\<open>wt-meta/src/bencode\<close>, \<^verbatim>\<open>metainfo.rs\<close>): decoder, encoder, raw slices,
    torrent files and info dictionaries of both versions. Round trips; the decoder answers within the fuel
    \<^verbatim>\<open>2 * length + 2\<close>, because a value and a turn of a loop each consume a byte. \<open>BencodeStack\<close>: the same
    decoder on a stack of bounded size, which the code can exhaust.
  \<^item> \<open>Merkle\<close> (\<^verbatim>\<open>wt-meta/src/merkle.rs\<close>): BEP 52 trees over an arbitrary hash; streaming equals the
    tree, and two layers accepted for one root show a collision among the pairs they hash.
  \<^item> \<open>Wire\<close>, \<open>Codec\<close>, \<open>Handshake\<close> (\<^verbatim>\<open>wt-wire/src/message.rs\<close>, \<^verbatim>\<open>codec.rs\<close>, \<^verbatim>\<open>handshake.rs\<close>):
    message payloads, framing over any cut of the stream, the zero-copy block path, flushing over a sink
    that takes part of the bytes or fails, the handshake of both sides over streams that may fail.
  \<^item> \<open>ChunkBits\<close>, \<open>BlockTable\<close>, \<open>Picker\<close>, \<open>BlockWrite\<close> (\<^verbatim>\<open>wt-core/src/piece_state\<close>, \<^verbatim>\<open>sched.rs\<close>,
    \<^verbatim>\<open>picker.rs\<close>, \<^verbatim>\<open>torrent_impls.rs\<close>): bit vectors as sets, the sharded owner table as two maps,
    block geometry, and the write reservation of a block under every interleaving.
  \<^item> \<open>Ranges\<close>, \<open>Lru\<close>, \<open>FileMap\<close>, \<open>CacheSlots\<close>, \<open>WriteBack\<close> (\<^verbatim>\<open>wt-storage/src\<close>): received ranges as
    sets, the recency list in its node arena as a plain list, the files as one byte array, making room in
    the cache, and the write-back operations. The eviction loops take as fuel one more than the number of
    cached pieces, since every turn drops one; the invariant makes that enough.
  \<^item> \<open>SlotView\<close>, \<open>WriteBackViews\<close>, \<open>WriteBackSteps\<close>, \<open>WriteBackRaces\<close>: what the storage knows of one piece,
    the operations as changes of these views, all storage threads as one step relation with the invariant
    that a received byte is marked for writing or on disk, and the two interleavings that break the code.
  \<^item> \<open>Checkpoint\<close>, \<open>CheckpointDrain\<close>, \<open>CheckpointSteps\<close> (\<^verbatim>\<open>checkpoint.rs\<close>,
    \<^verbatim>\<open>storage/checkpoint_flush.rs\<close>): the checkpoint file and its replacement under crashes, the drains that
    sync and publish, and drains beside the storage threads: a restart trusts only durable pieces.
  \<^item> \<open>Pieces\<close> (\<^verbatim>\<open>wt-storage/src/pieces.rs\<close>): the piece map that the player draws.

  Interfaces are locales, each interpreted on the model where the component is defined:
  \<open>prefix_codec\<close> (\<open>Bencode\<close>: a decoder that takes exactly what the encoder wrote), \<open>payload_codec\<close>
  (\<open>Codec\<close>: message bodies and their announced lengths, for framing), \<open>block_set\<close> (\<open>ChunkBits\<close>: a bit vector
  as a set of blocks), \<open>recency\<close> (\<open>Lru\<close>: the node arena as an ordered list) and \<open>received_set\<close>
  (\<open>Ranges\<close>: merged ranges as a set of offsets).

  Not modelled. The development follows the data path, from the wire through the block accounting and the
  cache to the checkpoint. Sockets, tasks and timers (\<^verbatim>\<open>peer_conn.rs\<close>, \<^verbatim>\<open>client.rs\<close>, \<^verbatim>\<open>torrent.rs\<close>
  apart from its block accounting, \<^verbatim>\<open>wt-discovery\<close>) are asynchronous I/O over third-party runtimes; the HTTP
  and JNI servers of \<^verbatim>\<open>wt-engine\<close> convert between JSON, HTTP and calls. Services beside the data path
  (choking, peer and metadata exchange, magnet links, stream encryption, the playback backend) and the policies of
  \<^verbatim>\<open>wt-policy\<close>, most of which compute with \<open>f64\<close>, are left out as well. \<^verbatim>\<open>update_selection\<close> and
  \<^verbatim>\<open>attach_files\<close> replace the destination files; the step relations cover the time between them. A few
  operations are one step although the source takes several locks in turn or does more than the accounting:
  \<open>forget_peer\<close> goes through the shards one by one, \<open>apply_hash_result\<close> also tells the storage that a
  piece failed. Sums of \<open>i64\<close> and \<open>u64\<close> that the sizes of one torrent cannot overflow (the cache bytes, the
  piece runs) are unbounded.
\<close>

end
